(* ===== verification/Prelude.thy ===== *)
theory Prelude
  imports Main "HOL-Library.Word" "HOL-Library.Monad_Syntax"
begin

unbundle bit_operations_syntax

text \<open>
  Shared by every theory of the development: the names of the machine types, the outcomes
  of a C call that does not return normally, the sequencing of such calls, and the lemmas on
  tagged pointers, words and lists, and on runs of a step relation, that the components' proofs share.

  The target is the LP64 little-endian platform the library is built for: \<open>int\<close> has 32
  bits, \<open>size_t\<close> and pointers have 64, \<open>NULL\<close> is address 0.
\<close>

section \<open>Machine types\<close>

type_synonym addr = "64 word"
type_synonym size_t = "64 word"
type_synonym c_int = "32 word"
type_synonym byte = "8 word"

abbreviation (input) NULL :: addr where
  "NULL \<equiv> 0"

text \<open>The lemma collections: what the heap primitives read and write, what each component's
  operations preserve, and the equations that run a call on a concrete state.\<close>

named_theorems heap_simps \<open>the pointer primitives, unfolded to map updates\<close>
named_theorems run_simps \<open>definitions unfolded to run a call on a concrete state\<close>

section \<open>Calls that do not return\<close>

text \<open>
  A call of the library can end the process (\<open>err\<close>/\<open>errx\<close>, which call \<open>exit(1)\<close>),
  wait for a lock that is not free, or run into behaviour the C standard or POSIX leaves
  undefined. Each is a value: \<open>Inl\<close> of a \<open>stop\<close>; a call that returns is \<open>Inr\<close>.
\<close>

datatype ub = NullDeref | BadPointer | OutOfBounds | BadFree | BadUnlock | BadDestroy | SignedOverflow | StackOverflow
datatype stop = Exit | Blocked | Undef ub

definition bindE :: "stop + 'a \<Rightarrow> ('a \<Rightarrow> stop + 'b) \<Rightarrow> stop + 'b" where
  "bindE m f = (case m of Inl e \<Rightarrow> Inl e | Inr x \<Rightarrow> f x)"

lemma bindE_simps [simp]:
  "bindE (Inl e) f = Inl e"
  "bindE (Inr x) f = f x"
  by (simp_all add: bindE_def)

lemma bindE_Inr_iff: "bindE m f = Inr y \<longleftrightarrow> (\<exists>x. m = Inr x \<and> f x = Inr y)"
  by (cases m) auto

lemma bindE_assoc: "bindE (bindE m f) g = bindE m (\<lambda>x. bindE (f x) g)"
  by (cases m) auto

lemma bindE_cong [fundef_cong]:
  "m = m' \<Longrightarrow> (\<And>x. m' = Inr x \<Longrightarrow> f x = f' x) \<Longrightarrow> bindE m f = bindE m' f'"
  by (cases m') auto

text \<open>A failed dereference of the pointer layer, seen from the layers above.\<close>

definition deref :: "'a option \<Rightarrow> stop + 'a" where
  "deref x = (case x of None \<Rightarrow> Inl (Undef BadPointer) | Some y \<Rightarrow> Inr y)"

lemma deref_simps [simp]:
  "deref None = Inl (Undef BadPointer)"
  "deref (Some y) = Inr y"
  "deref x = Inr z \<longleftrightarrow> x = Some z"
  by (simp_all add: deref_def split: option.split)

section \<open>Runs that wind down\<close>

text \<open>Steps that keep an invariant, use up a cost, and are possible until a final state.\<close>

locale winding_down =
  fixes step :: "'a \<Rightarrow> 'a \<Rightarrow> bool" and inv :: "'a \<Rightarrow> bool" and final :: "'a \<Rightarrow> bool" and cost :: "'a \<Rightarrow> nat"
  assumes inv_step: "inv x \<Longrightarrow> step x y \<Longrightarrow> inv y"
    and cost_step: "inv x \<Longrightarrow> step x y \<Longrightarrow> cost y < cost x"
    and live: "inv x \<Longrightarrow> \<not> final x \<Longrightarrow> \<exists>y. step x y"
begin

lemma run_inv: "(step ^^ n) x y \<Longrightarrow> inv x \<Longrightarrow> inv y \<and> n + cost y \<le> cost x"
proof (induction n arbitrary: y)
  case (Suc n)
  then obtain z where z: "(step ^^ n) x z" "step z y" by auto
  with Suc have "inv z" "n + cost z \<le> cost x" by simp_all
  with inv_step [OF this(1) z(2)] cost_step [OF this(1) z(2)] show ?case by simp
qed simp

lemma run_end: "inv x \<Longrightarrow> \<exists>n y. (step ^^ n) x y \<and> final y"
proof (induction "cost x" arbitrary: x rule: less_induct)
  case less
  show ?case
  proof (cases "final x")
    case True
    then show ?thesis by (intro exI [of _ 0]) simp
  next
    case False
    then obtain y where y: "step x y" using live less.prems by blast
    with less inv_step cost_step obtain n z where "(step ^^ n) y z" "final z" by meson
    then show ?thesis using relpowp_Suc_I2 [of step x y n z] y by blast
  qed
qed

end

section \<open>Tagged pointers\<close>

text \<open>
  Objects are aligned, so the two low bits of a pointer are free; the tree keeps its two
  colours there. \<open>pack\<close> is a parent pointer with its two bits.
\<close>

definition aligned :: "addr \<Rightarrow> bool" where
  "aligned a \<longleftrightarrow> a AND 15 = 0"

definition RB_RED_L :: addr where
  "RB_RED_L = 1"

definition RB_RED_R :: addr where
  "RB_RED_R = 2"

definition RB_RED_MASK :: addr where
  "RB_RED_MASK = 3"

definition pack :: "addr \<Rightarrow> bool \<Rightarrow> bool \<Rightarrow> addr" where
  "pack p rl rr = p OR (if rl then RB_RED_L else 0) OR (if rr then RB_RED_R else 0)"

lemma aligned_low_bits:
  assumes "aligned a" and "n < 4"
  shows "\<not> bit a n"
proof -
  have "\<not> bit (a AND 15) n" using assms(1) by (simp add: aligned_def)
  moreover have "bit (15 :: addr) n"
  proof -
    have "n = 0 \<or> n = 1 \<or> n = 2 \<or> n = 3" using assms(2) by auto
    then show ?thesis by (auto simp: bit_numeral_rec(1) bit_1_iff)
  qed
  ultimately show ?thesis by (simp add: bit_and_iff)
qed

lemma aligned_0 [simp]: "aligned 0"
  by (simp add: aligned_def)

lemma bit_RB_RED_L: "bit RB_RED_L n \<longleftrightarrow> n = 0"
  by (simp add: RB_RED_L_def bit_1_iff)

lemma bit_RB_RED_R: "bit RB_RED_R n \<longleftrightarrow> n = 1"
proof -
  have "bit (push_bit 1 1 :: addr) n \<longleftrightarrow> n = 1"
    by (simp only: bit_push_bit_iff bit_1_iff) auto
  then show ?thesis by (simp add: RB_RED_R_def)
qed

lemma bit_RB_RED_MASK: "bit RB_RED_MASK n \<longleftrightarrow> n = 0 \<or> n = 1"
proof -
  have "RB_RED_MASK = RB_RED_L OR RB_RED_R"
    by (simp add: RB_RED_MASK_def RB_RED_L_def RB_RED_R_def)
  then show ?thesis by (metis bit_or_iff bit_RB_RED_L bit_RB_RED_R)
qed

lemmas bit_pack = pack_def bit_or_iff bit_and_iff bit_not_iff bit_xor_iff
  bit_RB_RED_L bit_RB_RED_R bit_RB_RED_MASK

lemma aligned_bit_ge:
  assumes "aligned a" and "bit a n"
  shows "0 < n \<and> n \<noteq> Suc 0"
  using aligned_low_bits [OF assms(1), of n] assms(2) by (auto intro: gr0I)

lemma pack_parent: "aligned p \<Longrightarrow> pack p rl rr AND NOT RB_RED_MASK = p"
  by (rule bit_eqI) (auto simp: bit_pack dest: aligned_bit_ge)

lemma pack_mask: "aligned p \<Longrightarrow> pack p rl rr AND RB_RED_MASK = pack 0 rl rr"
  by (rule bit_eqI) (auto simp: bit_pack dest: aligned_bit_ge)

lemma pack_none: "pack p False False = p"
  by (simp add: pack_def)

lemma pack_or: "pack 0 rl rr OR p = pack p rl rr"
  by (rule bit_eqI) (auto simp: bit_pack dest: aligned_bit_ge)

lemma pack_both: "pack p rl rr OR RB_RED_MASK = pack p True True"
  by (rule bit_eqI) (auto simp: bit_pack dest: aligned_bit_ge)

lemma pack_flip_left: "aligned p \<Longrightarrow> pack p rl rr XOR RB_RED_L = pack p (\<not> rl) rr"
  by (rule bit_eqI) (auto simp: bit_pack dest: aligned_bit_ge)

lemma pack_flip_right: "aligned p \<Longrightarrow> pack p rl rr XOR RB_RED_R = pack p rl (\<not> rr)"
  by (rule bit_eqI) (auto simp: bit_pack dest: aligned_bit_ge)

lemma pack_red_left: "aligned p \<Longrightarrow> pack p rl rr AND RB_RED_L \<noteq> 0 \<longleftrightarrow> rl"
proof -
  assume "aligned p"
  then have "pack p rl rr AND RB_RED_L = (if rl then RB_RED_L else 0)"
    by (intro bit_eqI) (auto simp: bit_pack dest: aligned_bit_ge)
  then show ?thesis by (simp add: RB_RED_L_def)
qed

lemma pack_red_right: "aligned p \<Longrightarrow> pack p rl rr AND RB_RED_R \<noteq> 0 \<longleftrightarrow> rr"
proof -
  assume "aligned p"
  then have "pack p rl rr AND RB_RED_R = (if rr then RB_RED_R else 0)"
    by (intro bit_eqI) (auto simp: bit_pack dest: aligned_bit_ge)
  then show ?thesis by (simp add: RB_RED_R_def)
qed

lemma pack_all_red: "aligned p \<Longrightarrow> NOT (pack p rl rr) AND RB_RED_MASK = 0 \<longleftrightarrow> rl \<and> rr"
proof -
  assume a: "aligned p"
  have "NOT (pack p rl rr) AND RB_RED_MASK = pack 0 (\<not> rl) (\<not> rr)"
    using a by (intro bit_eqI) (auto simp: bit_pack dest: aligned_bit_ge)
  moreover have "pack 0 (\<not> rl) (\<not> rr) = 0 \<longleftrightarrow> rl \<and> rr"
    by (simp add: pack_def RB_RED_L_def RB_RED_R_def)
  ultimately show ?thesis by simp
qed

lemmas pack_simps = pack_parent pack_mask pack_or pack_both pack_flip_left pack_flip_right
  pack_red_left pack_red_right pack_all_red

section \<open>Nodes in the order of their keys\<close>

text \<open>The ends of a sequence of nodes, as the tree macros return them: \<open>NULL\<close> when it is empty.\<close>

definition first_or_null :: "addr list \<Rightarrow> addr" where
  "first_or_null as = (case as of [] \<Rightarrow> NULL | a # _ \<Rightarrow> a)"

definition last_or_null :: "addr list \<Rightarrow> addr" where
  "last_or_null as = (if as = [] then NULL else last as)"

lemma first_or_null_simps [simp]:
  "first_or_null [] = NULL" "first_or_null (a # as) = a"
  "as \<noteq> [] \<Longrightarrow> first_or_null (as @ bs) = first_or_null as"
  by (auto simp: first_or_null_def split: list.split)

lemma last_or_null_simps [simp]:
  "last_or_null [] = NULL" "last_or_null (as @ [a]) = a"
  "bs \<noteq> [] \<Longrightarrow> last_or_null (as @ bs) = last_or_null bs"
  by (auto simp: last_or_null_def)

lemma insort_between:
  assumes "\<forall>x \<in> set xs. f x < f a" and "\<forall>y \<in> set ys. f a < f y"
  shows "insort_key f a (xs @ ys) = xs @ a # ys"
proof -
  have "insort_key f a ys = a # ys" using assms(2) by (intro insort_is_Cons) (auto simp: less_imp_le)
  then show ?thesis using assms(1) by (induction xs) (auto simp: not_le)
qed

lemma find_append: "find P (xs @ ys) = (case find P xs of None \<Rightarrow> find P ys | Some x \<Rightarrow> Some x)"
  by (induction xs) simp_all

end
