(* ===== verification/Status.thy ===== *)
theory Status
  imports Prelude
begin

text \<open>
  The status codes of \<^verbatim>\<open>libplctag.h\<close>, the events of the callbacks, and
  \<open>plc_tag_decode_error\<close> of \<^verbatim>\<open>src/plcstub.c\<close>, which names a code.
\<close>

section \<open>The codes of the header\<close>

text \<open>The macros \<open>PLCTAG_STATUS_*\<close> and \<open>PLCTAG_ERR_*\<close>, name and value, in the order of the header.\<close>

definition plctag_codes :: "(string \<times> c_int) list" where
  "plctag_codes = [
    (''PLCTAG_STATUS_PENDING'', 1),
    (''PLCTAG_STATUS_OK'', 0),
    (''PLCTAG_ERR_ABORT'', - 1),
    (''PLCTAG_ERR_BAD_CONFIG'', - 2),
    (''PLCTAG_ERR_BAD_CONNECTION'', - 3),
    (''PLCTAG_ERR_BAD_DATA'', - 4),
    (''PLCTAG_ERR_BAD_DEVICE'', - 5),
    (''PLCTAG_ERR_BAD_GATEWAY'', - 6),
    (''PLCTAG_ERR_BAD_PARAM'', - 7),
    (''PLCTAG_ERR_BAD_REPLY'', - 8),
    (''PLCTAG_ERR_BAD_STATUS'', - 9),
    (''PLCTAG_ERR_CLOSE'', - 10),
    (''PLCTAG_ERR_CREATE'', - 11),
    (''PLCTAG_ERR_DUPLICATE'', - 12),
    (''PLCTAG_ERR_ENCODE'', - 13),
    (''PLCTAG_ERR_MUTEX_DESTROY'', - 14),
    (''PLCTAG_ERR_MUTEX_INIT'', - 15),
    (''PLCTAG_ERR_MUTEX_LOCK'', - 16),
    (''PLCTAG_ERR_MUTEX_UNLOCK'', - 17),
    (''PLCTAG_ERR_NOT_ALLOWED'', - 18),
    (''PLCTAG_ERR_NOT_FOUND'', - 19),
    (''PLCTAG_ERR_NOT_IMPLEMENTED'', - 20),
    (''PLCTAG_ERR_NO_DATA'', - 21),
    (''PLCTAG_ERR_NO_MATCH'', - 22),
    (''PLCTAG_ERR_NO_MEM'', - 23),
    (''PLCTAG_ERR_NO_RESOURCES'', - 24),
    (''PLCTAG_ERR_NULL_PTR'', - 25),
    (''PLCTAG_ERR_OPEN'', - 26),
    (''PLCTAG_ERR_OUT_OF_BOUNDS'', - 27),
    (''PLCTAG_ERR_READ'', - 28),
    (''PLCTAG_ERR_REMOTE_ERR'', - 29),
    (''PLCTAG_ERR_THREAD_CREATE'', - 30),
    (''PLCTAG_ERR_THREAD_JOIN'', - 31),
    (''PLCTAG_ERR_TIMEOUT'', - 32),
    (''PLCTAG_ERR_TOO_LARGE'', - 33),
    (''PLCTAG_ERR_TOO_SMALL'', - 34),
    (''PLCTAG_ERR_UNSUPPORTED'', - 35),
    (''PLCTAG_ERR_WINSOCK'', - 36),
    (''PLCTAG_ERR_WRITE'', - 37),
    (''PLCTAG_ERR_PARTIAL'', - 38),
    (''PLCTAG_ERR_BUSY'', - 39)]"

text \<open>The ones the library's own code returns.\<close>

definition PLCTAG_STATUS_OK :: c_int where
  "PLCTAG_STATUS_OK = 0"

definition PLCTAG_ERR_BAD_PARAM :: c_int where
  "PLCTAG_ERR_BAD_PARAM = - 7"

definition PLCTAG_ERR_NOT_FOUND :: c_int where
  "PLCTAG_ERR_NOT_FOUND = - 19"

text \<open>The events a tag's callback is given.\<close>

definition PLCTAG_EVENT_READ_STARTED :: c_int where
  "PLCTAG_EVENT_READ_STARTED = 1"

definition PLCTAG_EVENT_READ_COMPLETED :: c_int where
  "PLCTAG_EVENT_READ_COMPLETED = 2"

definition PLCTAG_EVENT_WRITE_STARTED :: c_int where
  "PLCTAG_EVENT_WRITE_STARTED = 3"

definition PLCTAG_EVENT_WRITE_COMPLETED :: c_int where
  "PLCTAG_EVENT_WRITE_COMPLETED = 4"

definition PLCTAG_EVENT_ABORTED :: c_int where
  "PLCTAG_EVENT_ABORTED = 5"

lemmas status_defs = PLCTAG_STATUS_OK_def PLCTAG_ERR_BAD_PARAM_def PLCTAG_ERR_NOT_FOUND_def

section \<open>Naming a code\<close>

text \<open>The cases of the \<open>switch\<close>, in its order: the constant and the string returned.\<close>

definition decode_cases :: "(c_int \<times> string) list" where
  "decode_cases = [
    (1, ''PLCTAG_STATUS_PENDING''),
    (0, ''PLCTAG_STATUS_OK''),
    (- 1, ''PLCTAG_ERR_ABORT''),
    (- 2, ''PLCTAG_ERR_BAD_CONFIG''),
    (- 3, ''PLCTAG_ERR_BAD_CONNECTION''),
    (- 4, ''PLCTAG_ERR_BAD_DATA''),
    (- 5, ''PLCTAG_ERR_BAD_DEVICE''),
    (- 6, ''PLCTAG_ERR_BAD_GATEWAY''),
    (- 7, ''PLCTAG_ERR_BAD_PARAM''),
    (- 8, ''PLCTAG_ERR_BAD_REPLY''),
    (- 9, ''PLCTAG_ERR_BAD_STATUS''),
    (- 10, ''PLCTAG_ERR_CLOSE''),
    (- 11, ''PLCTAG_ERR_CREATE''),
    (- 12, ''PLCTAG_ERR_DUPLICATE''),
    (- 13, ''PLCTAG_ERR_ENCODE''),
    (- 14, ''PLCTAG_ERR_MUTEX_DESTROY''),
    (- 15, ''PLCTAG_ERR_MUTEX_INIT''),
    (- 16, ''PLCTAG_ERR_MUTEX_LOCK''),
    (- 17, ''PLCTAG_ERR_MUTEX_UNLOCK''),
    (- 18, ''PLCTAG_ERR_NOT_ALLOWED''),
    (- 19, ''PLCTAG_ERR_NOT_FOUND''),
    (- 20, ''PLCTAG_ERR_NOT_IMPLEMENTED''),
    (- 21, ''PLCTAG_ERR_NO_DATA''),
    (- 22, ''PLCTAG_ERR_NO_MATCH''),
    (- 23, ''PLCTAG_ERR_NO_MEM''),
    (- 24, ''PLCTAG_ERR_NO_RESOURCES''),
    (- 25, ''PLCTAG_ERR_NULL_PTR''),
    (- 26, ''PLCTAG_ERR_OPEN''),
    (- 27, ''PLCTAG_ERR_OUT_OF_BOUNDS''),
    (- 28, ''PLCTAG_ERR_READ''),
    (- 29, ''PLCTAG_ERR_REMOTE_ERR''),
    (- 30, ''PLCTAG_ERR_THREAD_CREATE''),
    (- 31, ''PLCTAG_ERR_THREAD_JOIN''),
    (- 32, ''PLCTAG_ERR_TIMEOUT''),
    (- 33, ''PLCTAG_ERR_TOO_LARGE''),
    (- 34, ''PLCTAG_ERR_TOO_SMALL''),
    (- 35, ''PLCTAG_ERR_UNSUPPORTED''),
    (- 36, ''PLCTAG_ERR_WINSOCK''),
    (- 37, ''PLCTAG_ERR_WRITE''),
    (- 38, ''PLCTAG_ERR_PARTIAL''),
    (- 39, ''PLCTAG_ERR_BUSY'')]"

definition plc_tag_decode_error :: "c_int \<Rightarrow> string" where
  "plc_tag_decode_error rc =
     (case map_of decode_cases rc of Some name \<Rightarrow> name | None \<Rightarrow> ''Unknown error.'')"

lemma cases_of_codes: "decode_cases = map prod.swap plctag_codes"
  by (simp add: decode_cases_def plctag_codes_def)

lemma names_distinct: "distinct (map fst plctag_codes)"
  by (simp add: plctag_codes_def)

lemma no_unknown_row: "''Unknown error.'' \<notin> snd ` set decode_cases"
  by (simp add: decode_cases_def)

text \<open>The codes are an interval.\<close>

lemma decode_keys_listed: "map fst decode_cases = map word_of_int (rev [- 39 .. 1])"
  by (simp add: decode_cases_def upto_rec1)

lemma decode_keys: "map_of decode_cases rc \<noteq> None \<longleftrightarrow> rc \<in> word_of_int ` {- 39 .. 1}"
proof -
  have "fst ` set decode_cases = set (map fst decode_cases)" by simp
  then show ?thesis by (simp add: decode_keys_listed map_of_eq_None_iff)
qed

lemma sint_small: "- 39 \<le> i \<Longrightarrow> i \<le> 1 \<Longrightarrow> sint (word_of_int i :: c_int) = i"
  by (simp add: sint_sbintrunc' signed_take_bit_int_eq_self)

lemma small_code: "rc \<in> word_of_int ` {- 39 .. 1} \<longleftrightarrow> - 39 \<le> sint rc \<and> sint rc \<le> 1" for rc :: c_int
proof
  assume "rc \<in> word_of_int ` {- 39 .. 1}"
  then obtain i where "rc = word_of_int i" "- 39 \<le> i" "i \<le> 1" by auto
  then show "- 39 \<le> sint rc \<and> sint rc \<le> 1" by (simp add: sint_small)
next
  assume "- 39 \<le> sint rc \<and> sint rc \<le> 1"
  then show "rc \<in> word_of_int ` {- 39 .. 1}" by (intro image_eqI [where x = "sint rc"]) auto
qed

lemma word_of_int_codes_inj: "inj_on (word_of_int :: int \<Rightarrow> c_int) {- 39 .. 1}"
proof (rule inj_onI)
  fix i j :: int
  assume "i \<in> {- 39 .. 1}" "j \<in> {- 39 .. 1}" "(word_of_int i :: c_int) = word_of_int j"
  then show "i = j" by (metis atLeastAtMost_iff sint_small)
qed

lemma codes_distinct: "distinct (map snd plctag_codes)"
proof -
  have "map snd plctag_codes = map word_of_int (rev [- 39 .. 1])"
    using decode_keys_listed by (simp add: cases_of_codes comp_def)
  then show ?thesis using word_of_int_codes_inj by (simp add: distinct_map)
qed

lemma decode_rows: "list_all (\<lambda>(name, code). plc_tag_decode_error code = name) plctag_codes"
proof -
  have "plc_tag_decode_error code = name" if "(name, code) \<in> set plctag_codes" for name code
  proof -
    have "(code, name) \<in> set decode_cases" using that by (force simp: cases_of_codes)
    moreover have "distinct (map fst decode_cases)" using codes_distinct by (simp add: cases_of_codes comp_def)
    ultimately show ?thesis by (simp add: plc_tag_decode_error_def)
  qed
  then show ?thesis by (auto simp: list_all_iff)
qed

text \<open>\<open>plc_tag_decode_error\<close> returns, for every status and error code the
  header defines, the name of its macro; no two codes share a value or a name, so the name
  determines the code.\<close>

lemma decode_error_names:
  "list_all (\<lambda>(name, code). plc_tag_decode_error code = name) plctag_codes
   \<and> distinct (map snd plctag_codes) \<and> distinct (map fst plctag_codes)"
  using decode_rows codes_distinct names_distinct by blast

text \<open>Exactly the integers outside the range of the header, \<open>-39 .. 1\<close>, are
  named \<open>"Unknown error."\<close>.\<close>

lemma decode_error_unknown:
  "plc_tag_decode_error rc = ''Unknown error.'' \<longleftrightarrow> \<not> (- 39 \<le> sint rc \<and> sint rc \<le> 1)"
proof -
  have "plc_tag_decode_error rc = ''Unknown error.'' \<longleftrightarrow> map_of decode_cases rc = None"
    using no_unknown_row by (force simp: plc_tag_decode_error_def dest: map_of_SomeD split: option.split)
  then show ?thesis using decode_keys [of rc] small_code [of rc] by auto
qed

end
