(* ===== verification/Debug.thy ===== *)
theory Debug
  imports Prelude "HOL-Library.Sublist"
begin

text \<open>
  The log of \<^verbatim>\<open>src/debug.c\<close> and the \<open>pdebug\<close> macro of \<^verbatim>\<open>include/debug.h\<close>: the level, the
  mutex of the stream, and the stream itself as the text written to it. The
  format directives of a message are the caller's; a message here is the text they produce. The functions as one thread
  runs them come first, and then the steps of threads that write to the log and set its level at the same time: no line is torn apart.
\<close>

section \<open>Levels and the state of the log\<close>

definition PLCTAG_DEBUG_NONE :: c_int where
  "PLCTAG_DEBUG_NONE = 0"

definition PLCTAG_DEBUG_ERROR :: c_int where
  "PLCTAG_DEBUG_ERROR = 1"

definition PLCTAG_DEBUG_WARN :: c_int where
  "PLCTAG_DEBUG_WARN = 2"

definition PLCTAG_DEBUG_INFO :: c_int where
  "PLCTAG_DEBUG_INFO = 3"

definition PLCTAG_DEBUG_DETAIL :: c_int where
  "PLCTAG_DEBUG_DETAIL = 4"

definition PLCTAG_DEBUG_SPEW :: c_int where
  "PLCTAG_DEBUG_SPEW = 5"

lemmas level_defs = PLCTAG_DEBUG_NONE_def PLCTAG_DEBUG_ERROR_def PLCTAG_DEBUG_WARN_def
  PLCTAG_DEBUG_INFO_def PLCTAG_DEBUG_DETAIL_def PLCTAG_DEBUG_SPEW_def

text \<open>\<open>caller\<close> is the thread that runs; \<open>debug_mtx\<close> is the thread that holds the mutex.\<close>

record debug_state =
  debug_level :: c_int
  debug_mtx :: "nat option"
  caller :: nat
  stderr_text :: string

text \<open>The static initialisers; the level depends on whether \<open>DEBUG\<close> is defined.\<close>

definition debug_start :: "bool \<Rightarrow> debug_state" where
  "debug_start is_debug_build =
     \<lparr>debug_level = (if is_debug_build then PLCTAG_DEBUG_SPEW else PLCTAG_DEBUG_INFO),
      debug_mtx = None, caller = 0, stderr_text = []\<rparr>"

section \<open>Operations\<close>

definition debug_level_str :: "c_int \<Rightarrow> string" where
  "debug_level_str level =
     (if level = PLCTAG_DEBUG_NONE then ''<none>''
      else if level = PLCTAG_DEBUG_ERROR then ''ERROR''
      else if level = PLCTAG_DEBUG_WARN then ''WARN''
      else if level = PLCTAG_DEBUG_INFO then ''INFO''
      else if level = PLCTAG_DEBUG_DETAIL then ''DETAIL''
      else if level = PLCTAG_DEBUG_SPEW then ''SPEW''
      else ''???'')"

text \<open>\<open>pthread_mutex_lock(&debug_mtx)\<close> and \<open>pthread_mutex_unlock(&debug_mtx)\<close>: a mutex that is held makes the caller wait, its
  holder included; unlocking it without holding it is undefined.\<close>

definition debug_lock :: "debug_state \<Rightarrow> stop + debug_state" where
  "debug_lock d = (if debug_mtx d = None then Inr (d\<lparr>debug_mtx := Some (caller d)\<rparr>) else Inl Blocked)"

definition debug_unlock :: "debug_state \<Rightarrow> stop + debug_state" where
  "debug_unlock d = (if debug_mtx d = Some (caller d) then Inr (d\<lparr>debug_mtx := None\<rparr>) else Inl (Undef BadUnlock))"

text \<open>One call of \<open>fprintf\<close> or \<open>vfprintf\<close> on \<open>stderr\<close>, which other calls on the stream do not interrupt.\<close>

definition print :: "string \<Rightarrow> debug_state \<Rightarrow> debug_state" where
  "print x d = d\<lparr>stderr_text := stderr_text d @ x\<rparr>"

text \<open>What comes before the message: \<open>fn\<close>, \<open>file\<close> and \<open>line\<close> are the call site, \<open>line\<close> already in decimal.\<close>

definition heading :: "string \<Rightarrow> string \<Rightarrow> string \<Rightarrow> c_int \<Rightarrow> string" where
  "heading fn file line level =
     ''plcstub ['' @ debug_level_str level @ '']: '' @ file @ '':'' @ line @ '' '' @ fn @ '': ''"

definition newline :: string where
  "newline = [CHR 0x0A]"

definition pdebug_impl :: "string \<Rightarrow> string \<Rightarrow> string \<Rightarrow> c_int \<Rightarrow> string \<Rightarrow> debug_state
    \<Rightarrow> stop + debug_state" where
  "pdebug_impl fn file line level msg d =
     bindE (debug_lock d) (\<lambda>d.
     let d = print (heading fn file line level) d;
         d = print msg d;
         d = print newline d
     in debug_unlock d)"

definition debug_get_level :: "debug_state \<Rightarrow> c_int" where
  "debug_get_level d = debug_level d"

definition debug_set_level :: "c_int \<Rightarrow> debug_state \<Rightarrow> stop + debug_state" where
  "debug_set_level level d =
     (if level <s PLCTAG_DEBUG_NONE \<or> PLCTAG_DEBUG_SPEW <s level then Inl Exit
      else Inr (d\<lparr>debug_level := level\<rparr>))"

definition pdebug :: "string \<Rightarrow> string \<Rightarrow> string \<Rightarrow> c_int \<Rightarrow> string \<Rightarrow> debug_state
    \<Rightarrow> stop + debug_state" where
  "pdebug fn file line level msg d =
     (if level \<le>s debug_get_level d then pdebug_impl fn file line level msg d else Inr d)"

section \<open>One thread\<close>

text \<open>The invariant of the log: a level of the header, and a free mutex between calls.\<close>

definition debug_ok :: "debug_state \<Rightarrow> bool" where
  "debug_ok d \<longleftrightarrow> 0 \<le> sint (debug_level d) \<and> sint (debug_level d) \<le> 5 \<and> debug_mtx d = None"

lemma debug_start_ok [simp]: "debug_ok (debug_start b)"
  by (simp add: debug_ok_def debug_start_def level_defs)

lemma debug_set_level_iff:
  "debug_set_level l d = (if 0 \<le> sint l \<and> sint l \<le> 5 then Inr (d\<lparr>debug_level := l\<rparr>) else Inl Exit)"
  by (auto simp: debug_set_level_def level_defs word_sless_alt)

lemma debug_set_level_ok: "debug_ok d \<Longrightarrow> debug_set_level l d = Inr d' \<Longrightarrow> debug_ok d'"
  by (auto simp: debug_set_level_iff debug_ok_def split: if_splits)

lemma mutex_free: "debug_mtx d = None \<Longrightarrow> d\<lparr>debug_mtx := None\<rparr> = d" for d :: debug_state
  by (cases d) simp

text \<open>In a state between calls, a message is written exactly when its level is at
  most the current one, as one line that carries the name of its level, and the mutex is free again.\<close>

lemma message_filter:
  "debug_ok d \<Longrightarrow> pdebug fn file line l msg d = Inr (d\<lparr>stderr_text := stderr_text d @
     (if sint l \<le> sint (debug_get_level d) then heading fn file line l @ msg @ newline else [])\<rparr>)"
  using mutex_free [of d]
  by (cases d) (auto simp: pdebug_def pdebug_impl_def debug_lock_def debug_unlock_def print_def debug_ok_def word_sle_eq)

lemma message_filter_witness:
  "pdebug ''main'' ''t.c'' ''3'' 2 ''hi'' (debug_start False)
     = Inr ((debug_start False)\<lparr>stderr_text := ''plcstub [WARN]: t.c:3 main: hi'' @ newline\<rparr>)"
  using message_filter [OF debug_start_ok, of "''main''" "''t.c''" "''3''" 2 "''hi''" False]
  by (simp add: debug_start_def debug_get_level_def debug_level_str_def heading_def level_defs)

section \<open>Many threads\<close>

text \<open>What the threads call, in the order of their programs.\<close>

datatype message = Message (msg_fn: string) (msg_file: string) (msg_line: string) (msg_level: c_int) (msg_text: string)
datatype log_call = Set_level c_int | Log message

text \<open>Where a thread is: between calls, waiting for the mutex, and with the mutex before each of the three calls that print and
  before it gives the mutex back.\<close>

datatype log_pc = At_rest | Locking message | Heading message | Texting message | Ending message | Unlocking message

definition msg_head :: "message \<Rightarrow> string" where
  "msg_head m = heading (msg_fn m) (msg_file m) (msg_line m) (msg_level m)"

definition whole_line :: "message \<Rightarrow> string" where
  "whole_line m = msg_head m @ msg_text m @ newline"

text \<open>The macro reads the level once and compares.\<close>

definition log_begin :: "message \<Rightarrow> debug_state \<Rightarrow> log_pc" where
  "log_begin m d = (if msg_level m \<le>s debug_get_level d then Locking m else At_rest)"

fun log_advance :: "log_pc \<Rightarrow> debug_state \<Rightarrow> stop + log_pc \<times> debug_state" where
  "log_advance At_rest d = Inl Blocked"
| "log_advance (Locking m) d = bindE (debug_lock d) (\<lambda>d. Inr (Heading m, d))"
| "log_advance (Heading m) d = Inr (Texting m, print (msg_head m) d)"
| "log_advance (Texting m) d = Inr (Ending m, print (msg_text m) d)"
| "log_advance (Ending m) d = Inr (Unlocking m, print newline d)"
| "log_advance (Unlocking m) d = bindE (debug_unlock d) (\<lambda>d. Inr (At_rest, d))"

text \<open>The steps of one thread alone are the function.\<close>

fun log_finish :: "nat \<Rightarrow> log_pc \<Rightarrow> debug_state \<Rightarrow> stop + debug_state" where
  "log_finish k At_rest d = Inr d"
| "log_finish 0 q d = Inl Blocked"
| "log_finish (Suc k) q d = bindE (log_advance q d) (\<lambda>(q, d). log_finish k q d)"

lemma log_steps_alone:
  "log_finish 5 (log_begin (Message fn file line l msg) d) d = pdebug fn file line l msg d"
proof -
  have "bindE c Inr = c" for c :: "stop + debug_state" by (cases c) auto
  then show ?thesis
    by (simp add: pdebug_def pdebug_impl_def log_begin_def msg_head_def eval_nat_numeral bindE_assoc)
qed

type_synonym loggers = "(nat \<Rightarrow> log_call list) \<times> (nat \<Rightarrow> log_pc) \<times> debug_state"

text \<open>A level that is not known ends the process: there is no step.\<close>

inductive log_step :: "loggers \<Rightarrow> loggers \<Rightarrow> bool" where
  set_level: "p t = At_rest \<Longrightarrow> todo t = Set_level l # cs \<Longrightarrow> debug_set_level l d = Inr d' \<Longrightarrow>
     log_step (todo, p, d) (todo(t := cs), p, d')"
| check_level: "p t = At_rest \<Longrightarrow> todo t = Log m # cs \<Longrightarrow>
     log_step (todo, p, d) (todo(t := cs), p(t := log_begin m d), d)"
| go_on: "log_advance (p t) (d\<lparr>caller := t\<rparr>) = Inr (q, d') \<Longrightarrow> log_step (todo, p, d) (todo, p(t := q), d')"

inductive_cases log_stepE: "log_step (todo, p, d) y"

definition log_start :: "(nat \<Rightarrow> log_call list) \<Rightarrow> debug_state \<Rightarrow> loggers" where
  "log_start scripts d = (scripts, \<lambda>_. At_rest, d)"

text \<open>All programs have ended, or a thread is about to end the process.\<close>

fun log_over :: "loggers \<Rightarrow> bool" where
  "log_over (todo, p, d) \<longleftrightarrow> (\<forall>t. todo t = [] \<and> p t = At_rest)
     \<or> (\<exists>t l cs. p t = At_rest \<and> todo t = Set_level l # cs \<and> debug_set_level l d = Inl Exit)"

section \<open>Lines are not torn apart\<close>

text \<open>The part of its line that a thread has written, and the message it has not finished.\<close>

fun part_of_line :: "log_pc \<Rightarrow> string" where
  "part_of_line (Texting m) = msg_head m"
| "part_of_line (Ending m) = msg_head m @ msg_text m"
| "part_of_line (Unlocking m) = whole_line m"
| "part_of_line _ = []"

fun under_way :: "log_pc \<Rightarrow> message list" where
  "under_way At_rest = []"
| "under_way (Locking m) = [m]"
| "under_way (Heading m) = [m]"
| "under_way (Texting m) = [m]"
| "under_way (Ending m) = [m]"
| "under_way (Unlocking m) = [m]"

fun has_mutex :: "log_pc \<Rightarrow> bool" where
  "has_mutex At_rest = False"
| "has_mutex (Locking m) = False"
| "has_mutex _ = True"

text \<open>The text of the lines written so far, each by a thread; and the messages of one thread among them.\<close>

definition lines :: "(nat \<times> message) list \<Rightarrow> string" where
  "lines log = concat (map (\<lambda>(t, m). whole_line m) log)"

definition said :: "nat \<Rightarrow> (nat \<times> message) list \<Rightarrow> message list" where
  "said t log = map snd (filter (\<lambda>(u, m). u = t) log)"

fun messages :: "log_call list \<Rightarrow> message list" where
  "messages [] = []"
| "messages (Set_level l # cs) = messages cs"
| "messages (Log m # cs) = m # messages cs"

lemma messages_append: "messages (cs @ cs') = messages cs @ messages cs'"
  by (induction cs rule: messages.induct) simp_all

lemma lines_simps [simp]: "lines [] = []" "lines (log @ [(t, m)]) = lines log @ whole_line m"
  by (simp_all add: lines_def)

lemma said_simps [simp]: "said t [] = []" "said t (log @ [(u, m)]) = said t log @ (if u = t then [m] else [])"
  by (simp_all add: said_def)

text \<open>No program sets the level.\<close>

definition level_fixed :: "(nat \<Rightarrow> log_call list) \<Rightarrow> bool" where
  "level_fixed scripts \<longleftrightarrow> (\<forall>t l. Set_level l \<notin> set (scripts t))"

text \<open>What a thread has made of the calls it has begun: its messages, in their order, but for those above the level.\<close>

definition kept_messages :: "bool \<Rightarrow> c_int \<Rightarrow> message list \<Rightarrow> message list \<Rightarrow> bool" where
  "kept_messages fixed l ms out \<longleftrightarrow> subseq out ms \<and> (fixed \<longrightarrow> out = filter (\<lambda>m. msg_level m \<le>s l) ms)"

definition log_text :: "(nat \<Rightarrow> log_call list) \<Rightarrow> debug_state \<Rightarrow> (nat \<times> message) list \<Rightarrow> loggers \<Rightarrow> bool" where
  "log_text scripts d0 log = (\<lambda>(todo, p, d).
     stderr_text d = stderr_text d0 @ lines log @ (case debug_mtx d of None \<Rightarrow> [] | Some t \<Rightarrow> part_of_line (p t))
     \<and> (\<forall>t. \<exists>past. scripts t = past @ todo t
         \<and> kept_messages (level_fixed scripts) (debug_level d0) (messages past) (said t log @ under_way (p t))))"

definition log_inv :: "(nat \<Rightarrow> log_call list) \<Rightarrow> debug_state \<Rightarrow> loggers \<Rightarrow> bool" where
  "log_inv scripts d0 x \<longleftrightarrow> finite {t. scripts t \<noteq> []} \<and> (\<exists>log. log_text scripts d0 log x) \<and> (case x of (todo, p, d) \<Rightarrow>
     (\<forall>t. has_mutex (p t) \<longleftrightarrow> debug_mtx d = Some t)
     \<and> (\<forall>t. scripts t = [] \<longrightarrow> todo t = [] \<and> p t = At_rest)
     \<and> (level_fixed scripts \<longrightarrow> debug_level d = debug_level d0))"

lemma kept_more:
  assumes "kept_messages fixed l ms out" and "fixed \<Longrightarrow> b = (msg_level m \<le>s l)"
  shows "kept_messages fixed l (ms @ [m]) (out @ (if b then [m] else []))"
proof -
  have "subseq (if b then [m] else []) [m]" by simp
  then have "subseq (out @ (if b then [m] else [])) (ms @ [m])"
    using assms(1) by (intro list_emb_append_mono) (simp_all add: kept_messages_def)
  then show ?thesis using assms by (auto simp: kept_messages_def)
qed

lemma under_way_begin: "under_way (log_begin m d) = (if msg_level m \<le>s debug_level d then [m] else [])"
  by (simp add: log_begin_def debug_get_level_def)

lemma log_inv_begin:
  assumes inv: "log_inv scripts d0 (todo, p, d)" and p: "p t = At_rest" and todo: "todo t = c # cs"
    and q: "case c of Set_level l \<Rightarrow> q = At_rest \<and> d' = d\<lparr>debug_level := l\<rparr> | Log m \<Rightarrow> q = log_begin m d \<and> d' = d"
  shows "log_inv scripts d0 (todo(t := cs), p(t := q), d')"
proof -
  obtain log where log: "log_text scripts d0 log (todo, p, d)" using inv by (auto simp: log_inv_def)
  obtain past where past: "scripts t = past @ c # cs"
    "kept_messages (level_fixed scripts) (debug_level d0) (messages past) (said t log)"
    using log p todo by (auto simp: log_text_def dest!: spec [of _ t])
  have new: "scripts t = (past @ [c]) @ cs" using past(1) by simp
  have level: "debug_level d' = debug_level d" if "level_fixed scripts"
  proof (cases c)
    case (Set_level l)
    then have "Set_level l \<in> set (scripts t)" using past(1) by simp
    then show ?thesis using that by (auto simp: level_fixed_def)
  qed (use q in simp)
  have mtx: "debug_mtx d' = debug_mtx d" "stderr_text d' = stderr_text d" "has_mutex q = has_mutex (p t)"
    "part_of_line q = part_of_line (p t)" using q p by (auto simp: log_begin_def split: log_call.splits)
  have "kept_messages (level_fixed scripts) (debug_level d0) (messages (past @ [c])) (said t log @ under_way q)"
  proof (cases c)
    case (Set_level l)
    then show ?thesis using past(2) q by (simp add: messages_append)
  next
    case (Log m)
    have "debug_level d = debug_level d0" if "level_fixed scripts" using inv that by (simp add: log_inv_def)
    then show ?thesis using kept_more [OF past(2), of "msg_level m \<le>s debug_level d" m] Log q
      by (simp add: messages_append under_way_begin)
  qed
  with new have "\<exists>past. scripts t = past @ cs
     \<and> kept_messages (level_fixed scripts) (debug_level d0) (messages past) (said t log @ under_way q)" by blast
  then have "log_text scripts d0 log (todo(t := cs), p(t := q), d')" using log mtx p
    by (auto simp: log_text_def split: option.splits)
  moreover have "scripts t \<noteq> []" using past(1) by simp
  ultimately show ?thesis using inv level mtx by (auto simp: log_inv_def)
qed

lemma log_inv_move:
  assumes inv: "log_inv scripts d0 (todo, p, d)" and step: "log_advance (p t) (d\<lparr>caller := t\<rparr>) = Inr (q, d')"
  shows "log_inv scripts d0 (todo, p(t := q), d')"
proof -
  obtain log where log: "log_text scripts d0 log (todo, p, d)" using inv by (auto simp: log_inv_def)
  have own: "has_mutex (p u) \<longleftrightarrow> debug_mtx d = Some u" for u using inv by (simp add: log_inv_def)
  have level: "debug_level d' = debug_level d" using step
    by (cases "p t") (auto simp: bindE_Inr_iff debug_lock_def debug_unlock_def print_def split: if_splits)
  have "scripts t \<noteq> []" using inv step by (auto simp: log_inv_def)
  moreover have "has_mutex ((p(t := q)) u) \<longleftrightarrow> debug_mtx d' = Some u" for u
    using step own [of t] own [of u]
    by (cases "p t") (auto simp: bindE_Inr_iff debug_lock_def debug_unlock_def print_def split: if_splits)
  moreover have "\<exists>log. log_text scripts d0 log (todo, p(t := q), d')"
  proof (cases "\<exists>m. p t = Unlocking m")
    case True
    then obtain m where m: "p t = Unlocking m" by blast
    have said: "said u (log @ [(t, m)]) @ under_way ((p(t := q)) u) = said u log @ under_way (p u)" for u
      using step m by (auto simp: bindE_Inr_iff)
    have "log_text scripts d0 (log @ [(t, m)]) (todo, p(t := q), d')"
      using log step own [of t] m unfolding log_text_def prod.case said
      by (auto simp: bindE_Inr_iff debug_unlock_def split: if_splits)
    then show ?thesis by blast
  next
    case False
    have said: "said u log @ under_way ((p(t := q)) u) = said u log @ under_way (p u)" for u
      using step False by (cases "p t") (auto simp: bindE_Inr_iff)
    have "log_text scripts d0 log (todo, p(t := q), d')"
      using log step own [of t] False unfolding log_text_def prod.case said
      by (cases "p t") (auto simp: bindE_Inr_iff debug_lock_def print_def whole_line_def split: if_splits option.splits)
    then show ?thesis by blast
  qed
  ultimately show ?thesis using inv level by (auto simp: log_inv_def)
qed

lemma log_inv_step: "log_inv scripts d0 x \<Longrightarrow> log_step x y \<Longrightarrow> log_inv scripts d0 y"
proof -
  assume inv: "log_inv scripts d0 x" and step: "log_step x y"
  obtain todo p d where x: "x = (todo, p, d)" by (cases x)
  from step [unfolded x] inv [unfolded x] show "log_inv scripts d0 y"
  proof (cases rule: log_stepE [consumes 1, case_names set_level check_level go_on])
    case (set_level t l cs d')
    have "p(t := At_rest) = p" using set_level(2) by auto
    then show ?thesis using log_inv_begin [OF inv [unfolded x] set_level(2,3), of At_rest d'] set_level
      by (simp add: debug_set_level_iff split: if_splits)
  qed (use log_inv_begin log_inv_move in \<open>simp_all add: x\<close>)
qed

text \<open>The steps still to make: six for a message, one for a level.\<close>

fun log_steps_left :: "log_pc \<Rightarrow> nat" where
  "log_steps_left At_rest = 0"
| "log_steps_left (Locking m) = 5"
| "log_steps_left (Heading m) = 4"
| "log_steps_left (Texting m) = 3"
| "log_steps_left (Ending m) = 2"
| "log_steps_left (Unlocking m) = 1"

definition log_work :: "nat set \<Rightarrow> loggers \<Rightarrow> nat" where
  "log_work A = (\<lambda>(todo, p, d). \<Sum>t \<in> A. 6 * length (todo t) + log_steps_left (p t))"

lemma log_work_less:
  assumes "finite A" and "t \<in> A" and "6 * length cs + log_steps_left q < 6 * length (todo t) + log_steps_left (p t)"
  shows "log_work A (todo(t := cs), p(t := q), d') < log_work A (todo, p, d)"
  unfolding log_work_def prod.case
proof (rule sum_strict_mono_ex1)
  show "\<exists>u \<in> A. 6 * length ((todo(t := cs)) u) + log_steps_left ((p(t := q)) u) < 6 * length (todo u) + log_steps_left (p u)"
    using assms by (intro bexI [of _ t]) simp_all
qed (use assms in auto)

lemma log_work_step:
  assumes inv: "log_inv scripts d0 x" and step: "log_step x y"
  shows "log_work {t. scripts t \<noteq> []} y < log_work {t. scripts t \<noteq> []} x"
proof -
  have fin: "finite {t. scripts t \<noteq> []}" using inv by (simp add: log_inv_def)
  obtain todo p d where x: "x = (todo, p, d)" by (cases x)
  have busy: "t \<in> {t. scripts t \<noteq> []}" if "todo t \<noteq> [] \<or> p t \<noteq> At_rest" for t
    using inv that by (auto simp: log_inv_def x)
  from step [unfolded x] show ?thesis
  proof (cases rule: log_stepE [consumes 1, case_names set_level check_level go_on])
    case (set_level t l cs d')
    have "p(t := At_rest) = p" using set_level(2) by auto
    then show ?thesis using log_work_less [OF fin busy, of t cs At_rest todo p d' d] set_level x by simp
  next
    case (check_level t m cs)
    then show ?thesis using log_work_less [OF fin busy, of t cs "log_begin m d" todo p d d] x by (simp add: log_begin_def)
  next
    case (go_on t q d')
    have "log_steps_left q < log_steps_left (p t)" "p t \<noteq> At_rest" using go_on(2)
      by (cases "p t"; auto simp: bindE_Inr_iff)+
    moreover have "todo(t := todo t) = todo" by simp
    ultimately show ?thesis using log_work_less [OF fin busy, of t "todo t" q todo p d' d] go_on(1) x by simp
  qed
qed

lemma log_live:
  assumes inv: "log_inv scripts d0 x" and more: "\<not> log_over x"
  shows "\<exists>y. log_step x y"
proof -
  obtain todo p d where x: "x = (todo, p, d)" by (cases x)
  have own: "has_mutex (p u) \<longleftrightarrow> debug_mtx d = Some u" for u using inv by (simp add: log_inv_def x)
  show ?thesis
  proof (cases "debug_mtx d")
    case (Some t)
    then have "\<exists>z. log_advance (p t) (d\<lparr>caller := t\<rparr>) = Inr z" using own [of t] by (cases "p t") (simp_all add: debug_unlock_def)
    then show ?thesis unfolding x by (auto intro: go_on)
  next
    case None
    then have place: "p u = At_rest \<or> (\<exists>m. p u = Locking m)" for u using own [of u] by (cases "p u") simp_all
    obtain t where t: "todo t \<noteq> [] \<or> p t \<noteq> At_rest" using more x by auto
    show ?thesis
    proof (cases "p t = At_rest")
      case False
      then obtain m where "p t = Locking m" using place by blast
      then have "log_advance (p t) (d\<lparr>caller := t\<rparr>) = Inr (Heading m, d\<lparr>caller := t, debug_mtx := Some t\<rparr>)"
        using None by (simp add: debug_lock_def)
      then show ?thesis unfolding x by (blast intro: go_on)
    next
      case True
      then obtain c cs where c: "todo t = c # cs" using t by (cases "todo t") auto
      show ?thesis
      proof (cases c)
        case (Set_level l)
        then obtain d' where "debug_set_level l d = Inr d'" using more True c x
          by (cases "debug_set_level l d") (auto simp: debug_set_level_iff split: if_splits)
        then show ?thesis using set_level [of p t todo l cs d] True c Set_level x by blast
      next
        case (Log m)
        then show ?thesis using check_level [of p t todo m cs d] True c x by blast
      qed
    qed
  qed
qed

interpretation logging: winding_down log_step "log_inv scripts d0" log_over "log_work {t. scripts t \<noteq> []}"
  for scripts d0
  by unfold_locales (use log_inv_step log_work_step log_live in blast)+

text \<open>C32: any number of threads that write messages to the log and set its level, in every interleaving, from a state in which
  the mutex of the stream is free: the stream is what was there before, then whole lines, one after the other and none
  torn apart, and then what the thread that holds the mutex has written of its line; the lines of each thread are messages of its program in their
  order, and where no program sets the level, exactly those at or below the level; and unless all programs have ended, or a
  thread is about to set a level that is not the header's, which ends the process, some thread can go on; six steps for each
  call are all that can be made.\<close>

theorem log_lines_whole:
  assumes fin: "finite {t. scripts t \<noteq> []}" and free: "debug_mtx d = None"
    and run: "(log_step ^^ n) (log_start scripts d) (todo, p, d')"
  shows "(\<exists>log. stderr_text d' = stderr_text d @ concat (map (\<lambda>(t, m). whole_line m) log)
         @ (case debug_mtx d' of None \<Rightarrow> [] | Some t \<Rightarrow> part_of_line (p t))
       \<and> (\<forall>t. \<exists>past out. scripts t = past @ todo t \<and> out = map snd (filter (\<lambda>(u, m). u = t) log) @ under_way (p t)
           \<and> subseq out (messages past)
           \<and> (level_fixed scripts \<longrightarrow> out = filter (\<lambda>m. msg_level m \<le>s debug_level d) (messages past))))
    \<and> (\<forall>t. has_mutex (p t) \<longleftrightarrow> debug_mtx d' = Some t)
    \<and> (log_over (todo, p, d') \<or> (\<exists>y. log_step (todo, p, d') y))
    \<and> n \<le> 6 * (\<Sum>t | scripts t \<noteq> []. length (scripts t))"
proof -
  have "log_text scripts d [] (log_start scripts d)"
    using free by (simp add: log_text_def log_start_def kept_messages_def)
  then have start: "log_inv scripts d (log_start scripts d)" using free fin by (auto simp: log_inv_def log_start_def)
  have cost: "log_work {t. scripts t \<noteq> []} (log_start scripts d) = 6 * (\<Sum>t | scripts t \<noteq> []. length (scripts t))"
    by (simp add: log_work_def log_start_def sum_distrib_left)
  have inv: "log_inv scripts d (todo, p, d')" and n: "n \<le> 6 * (\<Sum>t | scripts t \<noteq> []. length (scripts t))"
    using logging.run_inv [OF run start] by (simp_all add: cost)
  then obtain log where "log_text scripts d log (todo, p, d')" by (auto simp: log_inv_def)
  then have stream: "stderr_text d' = stderr_text d @ concat (map (\<lambda>(t, m). whole_line m) log)
      @ (case debug_mtx d' of None \<Rightarrow> [] | Some t \<Rightarrow> part_of_line (p t))"
    and each: "\<exists>past. scripts t = past @ todo t \<and> kept_messages (level_fixed scripts) (debug_level d) (messages past)
      (map snd (filter (\<lambda>(u, m). u = t) log) @ under_way (p t))" for t
    by (simp_all add: log_text_def lines_def said_def)
  have "\<forall>t. \<exists>past out. scripts t = past @ todo t \<and> out = map snd (filter (\<lambda>(u, m). u = t) log) @ under_way (p t)
      \<and> subseq out (messages past) \<and> (level_fixed scripts \<longrightarrow> out = filter (\<lambda>m. msg_level m \<le>s debug_level d) (messages past))"
    using each unfolding kept_messages_def by blast
  moreover have "\<forall>t. has_mutex (p t) \<longleftrightarrow> debug_mtx d' = Some t" using inv by (simp add: log_inv_def)
  ultimately show ?thesis using stream n logging.live [OF inv] by blast
qed

lemma two_messages:
  fixes a b :: message
  assumes "\<And>t. map snd (filter (\<lambda>(u, m). u = t) log) = (if t = 0 then [a] else if t = Suc 0 then [b] else [])"
  shows "log = [(0, a), (Suc 0, b)] \<or> log = [(Suc 0, b), (0, a)]"
proof -
  have empty: "xs = []" if "\<And>t. filter (\<lambda>(u, m). u = t) xs = []" for xs :: "(nat \<times> message) list"
  proof (cases xs)
    case (Cons x ys)
    then show ?thesis using that [of "fst x"] by (simp add: split_beta)
  qed
  obtain u m xs where log: "log = (u, m) # xs" using assms [of 0] by (cases log) auto
  then have u: "u = 0 \<and> m = a \<or> u = Suc 0 \<and> m = b" using assms [of u] by (auto split: if_splits)
  then obtain v k ys where xs: "xs = (v, k) # ys" using assms [of 0] assms [of "Suc 0"] log by (cases xs) auto
  have "filter (\<lambda>(u, m). u = t) ys = []" for t
    using assms [of t] assms [of u] assms [of v] u log xs by (auto split: if_splits)
  then have "ys = []" using empty [of ys] by blast
  then show ?thesis using assms [of 0] assms [of "Suc 0"] u log xs by (auto split: if_splits)
qed

text \<open>Two threads with one message each: the run ends, and the lines are there in one order or the other.\<close>

theorem log_lines_whole_witness:
  "\<exists>n todo p d. (log_step ^^ n) (log_start (\<lambda>t. if t = 0 then [Log (Message ''f'' ''a.c'' ''1'' 2 ''one'')]
        else if t = 1 then [Log (Message ''g'' ''b.c'' ''2'' 3 ''two'')] else []) (debug_start False)) (todo, p, d)
     \<and> log_over (todo, p, d) \<and> n \<le> 12
     \<and> stderr_text d \<in> {''plcstub [WARN]: a.c:1 f: one'' @ newline @ ''plcstub [INFO]: b.c:2 g: two'' @ newline,
          ''plcstub [INFO]: b.c:2 g: two'' @ newline @ ''plcstub [WARN]: a.c:1 f: one'' @ newline}"
proof -
  let ?a = "Message ''f'' ''a.c'' ''1'' 2 ''one''" and ?b = "Message ''g'' ''b.c'' ''2'' 3 ''two''"
  define scripts where "scripts = (\<lambda>t :: nat. if t = 0 then [Log ?a] else if t = 1 then [Log ?b] else [])"
  have A: "{t. scripts t \<noteq> []} = {0, 1}" by (auto simp: scripts_def)
  then have fin: "finite {t. scripts t \<noteq> []}" by simp
  have free: "debug_mtx (debug_start False) = None" by (simp add: debug_start_def)
  have fixed: "level_fixed scripts" by (auto simp: level_fixed_def scripts_def)
  have "log_text scripts (debug_start False) [] (log_start scripts (debug_start False))"
    using free by (simp add: log_text_def log_start_def kept_messages_def)
  then have "log_inv scripts (debug_start False) (log_start scripts (debug_start False))"
    using free fin by (auto simp: log_inv_def log_start_def)
  from logging.run_end [OF this] obtain n todo p d where run: "(log_step ^^ n) (log_start scripts (debug_start False)) (todo, p, d)"
    and over: "log_over (todo, p, d)" using prod_cases3 by metis
  note whole = log_lines_whole [OF fin free run]
  have own: "\<forall>t. has_mutex (p t) \<longleftrightarrow> debug_mtx d = Some t" using conjunct1 [OF conjunct2 [OF whole]] .
  have n: "n \<le> 12" using conjunct2 [OF conjunct2 [OF conjunct2 [OF whole]]] unfolding A by (simp add: scripts_def)
  obtain log where log: "stderr_text d = stderr_text (debug_start False) @ concat (map (\<lambda>(t, m). whole_line m) log)
         @ (case debug_mtx d of None \<Rightarrow> [] | Some t \<Rightarrow> part_of_line (p t))"
      "\<forall>t. \<exists>past out. scripts t = past @ todo t \<and> out = map snd (filter (\<lambda>(u, m). u = t) log) @ under_way (p t)
           \<and> subseq out (messages past)
           \<and> (level_fixed scripts \<longrightarrow> out = filter (\<lambda>m. msg_level m \<le>s debug_level (debug_start False)) (messages past))"
    using conjunct1 [OF whole] by (elim exE conjE)
  have each: "\<exists>past. scripts t = past @ todo t \<and> map snd (filter (\<lambda>(u, m). u = t) log) @ under_way (p t)
      = filter (\<lambda>m. msg_level m \<le>s 3) (messages past)" for t
    using log(2) [rule_format, of t] fixed by (auto simp: debug_start_def level_defs)
  have "Set_level l # cs \<noteq> todo t" for t l cs
  proof
    assume "Set_level l # cs = todo t"
    moreover obtain past where "scripts t = past @ todo t" using each by blast
    ultimately have "Set_level l \<in> set (scripts t)" by (metis in_set_conv_decomp)
    then show False using fixed by (auto simp: level_fixed_def)
  qed
  then have ended: "todo t = []" "p t = At_rest" for t using over unfolding log_over.simps by metis+
  have "map snd (filter (\<lambda>(u, m). u = t) log) = (if t = 0 then [?a] else if t = Suc 0 then [?b] else [])" for t
    using each [of t] ended [of t] by (auto simp: scripts_def word_sle_eq)
  note two_messages [OF this]
  moreover have "debug_mtx d = None" using own ended by (cases "debug_mtx d") force+
  ultimately have "stderr_text d \<in> {whole_line ?a @ whole_line ?b, whole_line ?b @ whole_line ?a}"
    using log(1) by (auto simp: debug_start_def)
  then show ?thesis using run over n unfolding scripts_def
    by (intro exI [of _ n] exI [of _ todo] exI [of _ p] exI [of _ d])
      (simp add: whole_line_def msg_head_def heading_def debug_level_str_def level_defs)
qed

end
