(* ===== verification/Rb_Heap.thy ===== *)
theory Rb_Heap
  imports Prelude
begin

text \<open>
  The rank-balanced tree macros of \<^verbatim>\<open>include/sys/tree.h\<close>, as programs on a heap. A node is
  any record that extends \<open>rb_entry\<close>, as a C structure embeds \<open>RB_ENTRY\<close>; the heap maps
  the addresses of live nodes to nodes; the head of the tree is its \<open>rbh_root\<close> pointer,
  carried beside the heap. A read or a write through \<open>NULL\<close> or through the address of no
  live node makes the whole operation \<open>None\<close>, and so does a loop that does not end. The
  two colour bits are the low bits of the parent pointer, as in the source.

  \<open>RB_AUGMENT\<close> is not defined by the library, so it is the header's default, \<open>break\<close>: it
  ends the \<open>do .. while (0)\<close> of a rotation after its last statement and the closing loops of
  \<open>RB_INSERT\<close> and \<open>RB_REMOVE\<close> in their first round, and leaves no trace here.
\<close>

section \<open>Nodes, heaps and the field macros\<close>

record rb_entry =
  rbe_left :: addr
  rbe_right :: addr
  rbe_parent :: addr

type_synonym 'a heap = "addr \<rightharpoonup> 'a rb_entry_scheme"
type_synonym 'a rb_state = "addr \<times> 'a heap"

definition rd :: "'a heap \<Rightarrow> addr \<Rightarrow> 'a rb_entry_scheme option" where
  "rd h a = (if a = NULL then None else h a)"

definition wr :: "'a heap \<Rightarrow> addr \<Rightarrow> ('a rb_entry_scheme \<Rightarrow> 'a rb_entry_scheme) \<Rightarrow> 'a heap option"
  where "wr h a f = do { n \<leftarrow> rd h a; Some (h(a \<mapsto> f n)) }"

definition RB_LEFT :: "'a heap \<Rightarrow> addr \<Rightarrow> addr option" where
  "RB_LEFT h elm = map_option rbe_left (rd h elm)"

definition RB_RIGHT :: "'a heap \<Rightarrow> addr \<Rightarrow> addr option" where
  "RB_RIGHT h elm = map_option rbe_right (rd h elm)"

definition RB_BITS :: "'a heap \<Rightarrow> addr \<Rightarrow> addr option" where
  "RB_BITS h elm = map_option rbe_parent (rd h elm)"

definition RB_SET_LEFT :: "'a heap \<Rightarrow> addr \<Rightarrow> addr \<Rightarrow> 'a heap option" where
  "RB_SET_LEFT h elm v = wr h elm (\<lambda>n. n\<lparr>rbe_left := v\<rparr>)"

definition RB_SET_RIGHT :: "'a heap \<Rightarrow> addr \<Rightarrow> addr \<Rightarrow> 'a heap option" where
  "RB_SET_RIGHT h elm v = wr h elm (\<lambda>n. n\<lparr>rbe_right := v\<rparr>)"

definition RB_FLIP_LEFT :: "'a heap \<Rightarrow> addr \<Rightarrow> 'a heap option" where
  "RB_FLIP_LEFT h elm = wr h elm (\<lambda>n. n\<lparr>rbe_parent := rbe_parent n XOR RB_RED_L\<rparr>)"

definition RB_FLIP_RIGHT :: "'a heap \<Rightarrow> addr \<Rightarrow> 'a heap option" where
  "RB_FLIP_RIGHT h elm = wr h elm (\<lambda>n. n\<lparr>rbe_parent := rbe_parent n XOR RB_RED_R\<rparr>)"

definition RB_RED_LEFT :: "'a heap \<Rightarrow> addr \<Rightarrow> bool option" where
  "RB_RED_LEFT h elm = map_option (\<lambda>b. b AND RB_RED_L \<noteq> 0) (RB_BITS h elm)"

definition RB_RED_RIGHT :: "'a heap \<Rightarrow> addr \<Rightarrow> bool option" where
  "RB_RED_RIGHT h elm = map_option (\<lambda>b. b AND RB_RED_R \<noteq> 0) (RB_BITS h elm)"

definition RB_PARENT :: "'a heap \<Rightarrow> addr \<Rightarrow> addr option" where
  "RB_PARENT h elm = map_option (\<lambda>b. b AND NOT RB_RED_MASK) (RB_BITS h elm)"

text \<open>\<open>RB_BITS(elm) &= ~RB_RED_MASK\<close>, \<open>RB_BITS(elm) |= RB_RED_MASK\<close> and the test
  \<open>(~RB_BITS(elm) & RB_RED_MASK) == 0\<close>, which the source writes out where it needs them.\<close>

definition RB_CLEAR_RED :: "'a heap \<Rightarrow> addr \<Rightarrow> 'a heap option" where
  "RB_CLEAR_RED h elm = wr h elm (\<lambda>n. n\<lparr>rbe_parent := rbe_parent n AND NOT RB_RED_MASK\<rparr>)"

definition RB_SET_RED :: "'a heap \<Rightarrow> addr \<Rightarrow> 'a heap option" where
  "RB_SET_RED h elm = wr h elm (\<lambda>n. n\<lparr>rbe_parent := rbe_parent n OR RB_RED_MASK\<rparr>)"

definition RB_BOTH_RED :: "'a heap \<Rightarrow> addr \<Rightarrow> bool option" where
  "RB_BOTH_RED h elm = map_option (\<lambda>b. NOT b AND RB_RED_MASK = 0) (RB_BITS h elm)"

definition RB_SET_PARENT :: "'a heap \<Rightarrow> addr \<Rightarrow> addr \<Rightarrow> 'a heap option" where
  "RB_SET_PARENT h dst src =
     wr h dst (\<lambda>n. n\<lparr>rbe_parent := (rbe_parent n AND RB_RED_MASK) OR src\<rparr>)"

definition RB_SET :: "'a heap \<Rightarrow> addr \<Rightarrow> addr \<Rightarrow> 'a heap option" where
  "RB_SET h elm parent =
     wr h elm (\<lambda>n. n\<lparr>rbe_left := NULL, rbe_right := NULL, rbe_parent := parent\<rparr>)"

definition RB_SWAP_CHILD :: "'a rb_state \<Rightarrow> addr \<Rightarrow> addr \<Rightarrow> 'a rb_state option" where
  "RB_SWAP_CHILD = (\<lambda>(root, h) out new. do {
     p \<leftarrow> RB_PARENT h out;
     if p = NULL then Some (new, h)
     else do {
       l \<leftarrow> RB_LEFT h p;
       h \<leftarrow> (if out = l then RB_SET_LEFT h p new else RB_SET_RIGHT h p new);
       Some (root, h)
     }
   })"

text \<open>A rotation returns the new state and the value it leaves in its \<open>tmp\<close> argument.\<close>

definition RB_ROTATE_LEFT :: "'a rb_state \<Rightarrow> addr \<Rightarrow> ('a rb_state \<times> addr) option" where
  "RB_ROTATE_LEFT = (\<lambda>(root, h) elm. do {
     tmp \<leftarrow> RB_RIGHT h elm;
     b \<leftarrow> RB_LEFT h tmp;
     h \<leftarrow> RB_SET_RIGHT h elm b;
     h \<leftarrow> (if b \<noteq> NULL then RB_SET_PARENT h b elm else Some h);
     p \<leftarrow> RB_PARENT h elm;
     h \<leftarrow> RB_SET_PARENT h tmp p;
     (root, h) \<leftarrow> RB_SWAP_CHILD (root, h) elm tmp;
     h \<leftarrow> RB_SET_LEFT h tmp elm;
     h \<leftarrow> RB_SET_PARENT h elm tmp;
     Some ((root, h), tmp)
   })"

definition RB_ROTATE_RIGHT :: "'a rb_state \<Rightarrow> addr \<Rightarrow> ('a rb_state \<times> addr) option" where
  "RB_ROTATE_RIGHT = (\<lambda>(root, h) elm. do {
     tmp \<leftarrow> RB_LEFT h elm;
     b \<leftarrow> RB_RIGHT h tmp;
     h \<leftarrow> RB_SET_LEFT h elm b;
     h \<leftarrow> (if b \<noteq> NULL then RB_SET_PARENT h b elm else Some h);
     p \<leftarrow> RB_PARENT h elm;
     h \<leftarrow> RB_SET_PARENT h tmp p;
     (root, h) \<leftarrow> RB_SWAP_CHILD (root, h) elm tmp;
     h \<leftarrow> RB_SET_RIGHT h tmp elm;
     h \<leftarrow> RB_SET_PARENT h elm tmp;
     Some ((root, h), tmp)
   })"

section \<open>Rebalancing after an insertion\<close>

text \<open>
  One round of the loop of \<open>RB_INSERT_COLOR\<close>, for each side. \<open>Inl\<close> is a \<open>return\<close> or
  the closing \<open>break\<close>, \<open>Inr\<close> a \<open>continue\<close> with the new \<open>elm\<close>.
\<close>

definition insert_color_left ::
  "'a rb_state \<Rightarrow> addr \<Rightarrow> addr \<Rightarrow> ('a rb_state + 'a rb_state \<times> addr) option" where
  "insert_color_left = (\<lambda>(root, h) parent elm. do {
     rl \<leftarrow> RB_RED_LEFT h parent;
     if rl then do { h \<leftarrow> RB_FLIP_LEFT h parent; Some (Inl (root, h)) }
     else do {
       h \<leftarrow> RB_FLIP_RIGHT h parent;
       rr \<leftarrow> RB_RED_RIGHT h parent;
       if rr then Some (Inr ((root, h), parent))
       else do {
         er \<leftarrow> RB_RED_RIGHT h elm;
         ((root, h), elm) \<leftarrow>
           (if \<not> er then do {
              h \<leftarrow> RB_FLIP_LEFT h elm;
              ((root, h), child) \<leftarrow> RB_ROTATE_LEFT (root, h) elm;
              cl \<leftarrow> RB_RED_LEFT h child;
              cr \<leftarrow> RB_RED_RIGHT h child;
              h \<leftarrow> (if cl then RB_FLIP_RIGHT h elm
                   else if cr then RB_FLIP_LEFT h parent else Some h);
              Some ((root, h), child)
            } else Some ((root, h), elm));
         ((root, h), elm) \<leftarrow> RB_ROTATE_RIGHT (root, h) parent;
         h \<leftarrow> RB_CLEAR_RED h elm;
         Some (Inl (root, h))
       }
     }
   })"

definition insert_color_right ::
  "'a rb_state \<Rightarrow> addr \<Rightarrow> addr \<Rightarrow> ('a rb_state + 'a rb_state \<times> addr) option" where
  "insert_color_right = (\<lambda>(root, h) parent elm. do {
     rr \<leftarrow> RB_RED_RIGHT h parent;
     if rr then do { h \<leftarrow> RB_FLIP_RIGHT h parent; Some (Inl (root, h)) }
     else do {
       h \<leftarrow> RB_FLIP_LEFT h parent;
       rl \<leftarrow> RB_RED_LEFT h parent;
       if rl then Some (Inr ((root, h), parent))
       else do {
         el \<leftarrow> RB_RED_LEFT h elm;
         ((root, h), elm) \<leftarrow>
           (if \<not> el then do {
              h \<leftarrow> RB_FLIP_RIGHT h elm;
              ((root, h), child) \<leftarrow> RB_ROTATE_RIGHT (root, h) elm;
              cr \<leftarrow> RB_RED_RIGHT h child;
              cl \<leftarrow> RB_RED_LEFT h child;
              h \<leftarrow> (if cr then RB_FLIP_LEFT h elm
                   else if cl then RB_FLIP_RIGHT h parent else Some h);
              Some ((root, h), child)
            } else Some ((root, h), elm));
         ((root, h), elm) \<leftarrow> RB_ROTATE_LEFT (root, h) parent;
         h \<leftarrow> RB_CLEAR_RED h elm;
         Some (Inl (root, h))
       }
     }
   })"

partial_function (option) RB_INSERT_COLOR :: "'a rb_state \<Rightarrow> addr \<Rightarrow> 'a rb_state option" where
  "RB_INSERT_COLOR s elm = do {
     parent \<leftarrow> RB_PARENT (snd s) elm;
     if parent = NULL then Some s
     else do {
       l \<leftarrow> RB_LEFT (snd s) parent;
       r \<leftarrow> (if l = elm then insert_color_left s parent elm else insert_color_right s parent elm);
       (case r of Inl s' \<Rightarrow> Some s' | Inr (s', elm') \<Rightarrow> RB_INSERT_COLOR s' elm')
     }
   }"

section \<open>Rebalancing after a removal\<close>

definition remove_color_left ::
  "'a rb_state \<Rightarrow> addr \<Rightarrow> addr \<Rightarrow> ('a rb_state + 'a rb_state \<times> addr) option" where
  "remove_color_left = (\<lambda>(root, h) parent elm. do {
     rl \<leftarrow> RB_RED_LEFT h parent;
     if \<not> rl then do { h \<leftarrow> RB_FLIP_LEFT h parent; Some (Inl (root, h)) }
     else do {
       rr \<leftarrow> RB_RED_RIGHT h parent;
       if rr then do { h \<leftarrow> RB_FLIP_RIGHT h parent; Some (Inr ((root, h), parent)) }
       else do {
         sib \<leftarrow> RB_RIGHT h parent;
         both \<leftarrow> RB_BOTH_RED h sib;
         if both then do { h \<leftarrow> RB_CLEAR_RED h sib; Some (Inr ((root, h), parent)) }
         else do {
           h \<leftarrow> RB_FLIP_RIGHT h sib;
           sl \<leftarrow> RB_RED_LEFT h sib;
           sr \<leftarrow> RB_RED_RIGHT h sib;
           ((root, h), sib) \<leftarrow>
             (if sl then do { h \<leftarrow> RB_FLIP_LEFT h parent; Some ((root, h), sib) }
              else if \<not> sr then do {
                h \<leftarrow> RB_FLIP_LEFT h parent;
                ((root, h), elm) \<leftarrow> RB_ROTATE_RIGHT (root, h) sib;
                er \<leftarrow> RB_RED_RIGHT h elm;
                h \<leftarrow> (if er then RB_FLIP_LEFT h sib else Some h);
                el \<leftarrow> RB_RED_LEFT h elm;
                h \<leftarrow> (if el then RB_FLIP_RIGHT h parent else Some h);
                h \<leftarrow> RB_SET_RED h elm;
                Some ((root, h), elm)
              } else Some ((root, h), sib));
           ((root, h), sib) \<leftarrow> RB_ROTATE_LEFT (root, h) parent;
           Some (Inl (root, h))
         }
       }
     }
   })"

definition remove_color_right ::
  "'a rb_state \<Rightarrow> addr \<Rightarrow> addr \<Rightarrow> ('a rb_state + 'a rb_state \<times> addr) option" where
  "remove_color_right = (\<lambda>(root, h) parent elm. do {
     rr \<leftarrow> RB_RED_RIGHT h parent;
     if \<not> rr then do { h \<leftarrow> RB_FLIP_RIGHT h parent; Some (Inl (root, h)) }
     else do {
       rl \<leftarrow> RB_RED_LEFT h parent;
       if rl then do { h \<leftarrow> RB_FLIP_LEFT h parent; Some (Inr ((root, h), parent)) }
       else do {
         sib \<leftarrow> RB_LEFT h parent;
         both \<leftarrow> RB_BOTH_RED h sib;
         if both then do { h \<leftarrow> RB_CLEAR_RED h sib; Some (Inr ((root, h), parent)) }
         else do {
           h \<leftarrow> RB_FLIP_LEFT h sib;
           sr \<leftarrow> RB_RED_RIGHT h sib;
           sl \<leftarrow> RB_RED_LEFT h sib;
           ((root, h), sib) \<leftarrow>
             (if sr then do { h \<leftarrow> RB_FLIP_RIGHT h parent; Some ((root, h), sib) }
              else if \<not> sl then do {
                h \<leftarrow> RB_FLIP_RIGHT h parent;
                ((root, h), elm) \<leftarrow> RB_ROTATE_LEFT (root, h) sib;
                el \<leftarrow> RB_RED_LEFT h elm;
                h \<leftarrow> (if el then RB_FLIP_RIGHT h sib else Some h);
                er \<leftarrow> RB_RED_RIGHT h elm;
                h \<leftarrow> (if er then RB_FLIP_LEFT h parent else Some h);
                h \<leftarrow> RB_SET_RED h elm;
                Some ((root, h), elm)
              } else Some ((root, h), sib));
           ((root, h), sib) \<leftarrow> RB_ROTATE_RIGHT (root, h) parent;
           Some (Inl (root, h))
         }
       }
     }
   })"

text \<open>The \<open>do .. while\<close> loop, whose \<open>continue\<close> goes to the test of the new parent.\<close>

partial_function (option) remove_color_loop ::
  "'a rb_state \<Rightarrow> addr \<Rightarrow> addr \<Rightarrow> 'a rb_state option" where
  "remove_color_loop s parent elm = do {
     l \<leftarrow> RB_LEFT (snd s) parent;
     r \<leftarrow> (if l = elm then remove_color_left s parent elm else remove_color_right s parent elm);
     (case r of
        Inl s' \<Rightarrow> Some s'
      | Inr (s', elm') \<Rightarrow> do {
          parent' \<leftarrow> RB_PARENT (snd s') elm';
          if parent' = NULL then Some s' else remove_color_loop s' parent' elm'
        })
   }"

definition RB_REMOVE_COLOR :: "'a rb_state \<Rightarrow> addr \<Rightarrow> addr \<Rightarrow> 'a rb_state option" where
  "RB_REMOVE_COLOR = (\<lambda>(root, h) parent elm. do {
     l \<leftarrow> RB_LEFT h parent;
     r \<leftarrow> RB_RIGHT h parent;
     if l = elm \<and> r = elm then do {
       h \<leftarrow> RB_CLEAR_RED h parent;
       let elm = parent;
       parent \<leftarrow> RB_PARENT h elm;
       if parent = NULL then Some (root, h) else remove_color_loop (root, h) parent elm
     }
     else remove_color_loop (root, h) parent elm
   })"

section \<open>Searching and walking\<close>

text \<open>\<open>cmp\<close> is the comparison the macros are given; the search key is a node of the
  caller's own, not one of the heap.\<close>

type_synonym 'a cmp = "'a rb_entry_scheme \<Rightarrow> 'a rb_entry_scheme \<Rightarrow> int"

partial_function (option) rb_find_loop ::
  "'a cmp \<Rightarrow> 'a heap \<Rightarrow> 'a rb_entry_scheme \<Rightarrow> addr \<Rightarrow> addr option" where
  "rb_find_loop cmp h elm tmp = (if tmp = NULL then Some NULL else do {
     n \<leftarrow> rd h tmp;
     if cmp elm n < 0 then rb_find_loop cmp h elm (rbe_left n)
     else if cmp elm n > 0 then rb_find_loop cmp h elm (rbe_right n)
     else Some tmp
   })"

definition RB_FIND :: "'a cmp \<Rightarrow> 'a rb_state \<Rightarrow> 'a rb_entry_scheme \<Rightarrow> addr option" where
  "RB_FIND cmp s elm = rb_find_loop cmp (snd s) elm (fst s)"

partial_function (option) rb_nfind_loop ::
  "'a cmp \<Rightarrow> 'a heap \<Rightarrow> 'a rb_entry_scheme \<Rightarrow> addr \<Rightarrow> addr \<Rightarrow> addr option" where
  "rb_nfind_loop cmp h elm tmp res = (if tmp = NULL then Some res else do {
     n \<leftarrow> rd h tmp;
     if cmp elm n < 0 then rb_nfind_loop cmp h elm (rbe_left n) tmp
     else if cmp elm n > 0 then rb_nfind_loop cmp h elm (rbe_right n) res
     else Some tmp
   })"

definition RB_NFIND :: "'a cmp \<Rightarrow> 'a rb_state \<Rightarrow> 'a rb_entry_scheme \<Rightarrow> addr option" where
  "RB_NFIND cmp s elm = rb_nfind_loop cmp (snd s) elm (fst s) NULL"

text \<open>\<open>while (RB_LEFT(elm)) elm = RB_LEFT(elm)\<close> and its mirror image.\<close>

partial_function (option) rb_leftmost :: "'a heap \<Rightarrow> addr \<Rightarrow> addr option" where
  "rb_leftmost h elm = do {
     l \<leftarrow> RB_LEFT h elm;
     if l = NULL then Some elm else rb_leftmost h l
   }"

partial_function (option) rb_rightmost :: "'a heap \<Rightarrow> addr \<Rightarrow> addr option" where
  "rb_rightmost h elm = do {
     r \<leftarrow> RB_RIGHT h elm;
     if r = NULL then Some elm else rb_rightmost h r
   }"

text \<open>\<open>while (RB_PARENT(elm) && elm == RB_RIGHT(RB_PARENT(elm))) elm = RB_PARENT(elm)\<close>,
  and the one for the left side.\<close>

partial_function (option) rb_up_right :: "'a heap \<Rightarrow> addr \<Rightarrow> addr option" where
  "rb_up_right h elm = do {
     p \<leftarrow> RB_PARENT h elm;
     if p = NULL then Some elm
     else do {
       r \<leftarrow> RB_RIGHT h p;
       if elm = r then rb_up_right h p else Some elm
     }
   }"

partial_function (option) rb_up_left :: "'a heap \<Rightarrow> addr \<Rightarrow> addr option" where
  "rb_up_left h elm = do {
     p \<leftarrow> RB_PARENT h elm;
     if p = NULL then Some elm
     else do {
       l \<leftarrow> RB_LEFT h p;
       if elm = l then rb_up_left h p else Some elm
     }
   }"

definition RB_NEXT :: "'a heap \<Rightarrow> addr \<Rightarrow> addr option" where
  "RB_NEXT h elm = do {
     r \<leftarrow> RB_RIGHT h elm;
     if r \<noteq> NULL then rb_leftmost h r
     else do {
       p \<leftarrow> RB_PARENT h elm;
       is_left \<leftarrow> (if p = NULL then Some False else map_option (\<lambda>l. elm = l) (RB_LEFT h p));
       if is_left then Some p
       else do { top \<leftarrow> rb_up_right h elm; RB_PARENT h top }
     }
   }"

definition RB_PREV :: "'a heap \<Rightarrow> addr \<Rightarrow> addr option" where
  "RB_PREV h elm = do {
     l \<leftarrow> RB_LEFT h elm;
     if l \<noteq> NULL then rb_rightmost h l
     else do {
       p \<leftarrow> RB_PARENT h elm;
       is_right \<leftarrow> (if p = NULL then Some False else map_option (\<lambda>r. elm = r) (RB_RIGHT h p));
       if is_right then Some p
       else do { top \<leftarrow> rb_up_left h elm; RB_PARENT h top }
     }
   }"

partial_function (option) rb_minmax_loop ::
  "'a heap \<Rightarrow> int \<Rightarrow> addr \<Rightarrow> addr \<Rightarrow> addr option" where
  "rb_minmax_loop h val tmp parent = (if tmp = NULL then Some parent else do {
     tmp' \<leftarrow> (if val < 0 then RB_LEFT h tmp else RB_RIGHT h tmp);
     rb_minmax_loop h val tmp' tmp
   })"

definition RB_MINMAX :: "'a rb_state \<Rightarrow> int \<Rightarrow> addr option" where
  "RB_MINMAX s val = rb_minmax_loop (snd s) val (fst s) NULL"

definition RB_MIN :: "'a rb_state \<Rightarrow> addr option" where
  "RB_MIN s = RB_MINMAX s (- 1)"

definition RB_MAX :: "'a rb_state \<Rightarrow> addr option" where
  "RB_MAX s = RB_MINMAX s 1"

text \<open>The nodes \<open>RB_FOREACH\<close> visits, in its order, while the body leaves the tree alone.\<close>

partial_function (option) rb_foreach_from :: "'a heap \<Rightarrow> addr \<Rightarrow> addr list option" where
  "rb_foreach_from h x = (if x = NULL then Some [] else do {
     y \<leftarrow> RB_NEXT h x;
     ys \<leftarrow> rb_foreach_from h y;
     Some (x # ys)
   })"

definition RB_FOREACH :: "'a rb_state \<Rightarrow> addr list option" where
  "RB_FOREACH s = do { x \<leftarrow> RB_MIN s; rb_foreach_from (snd s) x }"

partial_function (option) rb_foreach_reverse_from :: "'a heap \<Rightarrow> addr \<Rightarrow> addr list option" where
  "rb_foreach_reverse_from h x = (if x = NULL then Some [] else do {
     y \<leftarrow> RB_PREV h x;
     ys \<leftarrow> rb_foreach_reverse_from h y;
     Some (x # ys)
   })"

definition RB_FOREACH_REVERSE :: "'a rb_state \<Rightarrow> addr list option" where
  "RB_FOREACH_REVERSE s = do { x \<leftarrow> RB_MAX s; rb_foreach_reverse_from (snd s) x }"

section \<open>Insertion and removal\<close>

text \<open>The search of \<open>RB_INSERT\<close>: \<open>Inl\<close> is the node that already has the key, \<open>Inr\<close> the
  last node visited (\<open>NULL\<close> in an empty tree) and the last comparison.\<close>

partial_function (option) rb_insert_search ::
  "'a cmp \<Rightarrow> 'a heap \<Rightarrow> 'a rb_entry_scheme \<Rightarrow> addr \<Rightarrow> addr \<Rightarrow> int \<Rightarrow> (addr + addr \<times> int) option" where
  "rb_insert_search cmp h elm tmp parent cres =
    (if tmp = NULL then Some (Inr (parent, cres)) else do {
       n \<leftarrow> rd h tmp;
       let cres = cmp elm n;
       if cres < 0 then rb_insert_search cmp h elm (rbe_left n) tmp cres
       else if cres > 0 then rb_insert_search cmp h elm (rbe_right n) tmp cres
       else Some (Inl tmp)
     })"

definition RB_INSERT :: "'a cmp \<Rightarrow> 'a rb_state \<Rightarrow> addr \<Rightarrow> ('a rb_state \<times> addr) option" where
  "RB_INSERT cmp = (\<lambda>(root, h) elm. do {
     e \<leftarrow> rd h elm;
     r \<leftarrow> rb_insert_search cmp h e root NULL 0;
     (case r of
        Inl tmp \<Rightarrow> Some ((root, h), tmp)
      | Inr (parent, cres) \<Rightarrow> do {
          h \<leftarrow> RB_SET h elm parent;
          (root, h) \<leftarrow>
            (if parent = NULL then Some (elm, h)
             else if cres < 0 then do { h \<leftarrow> RB_SET_LEFT h parent elm; Some (root, h) }
             else do { h \<leftarrow> RB_SET_RIGHT h parent elm; Some (root, h) });
          s \<leftarrow> RB_INSERT_COLOR (root, h) elm;
          Some (s, NULL)
        })
   })"

text \<open>\<open>elm->field = old->field\<close>\<close>

definition RB_COPY :: "'a heap \<Rightarrow> addr \<Rightarrow> addr \<Rightarrow> 'a heap option" where
  "RB_COPY h elm old = do {
     n \<leftarrow> rd h old;
     wr h elm (\<lambda>e. e\<lparr>rbe_left := rbe_left n, rbe_right := rbe_right n, rbe_parent := rbe_parent n\<rparr>)
   }"

text \<open>The first half of \<open>RB_REMOVE\<close>: unlink \<open>old\<close> by putting one of its children or its
  successor in its place; yields the state, the \<open>parent\<close> where a subtree lost height and
  that subtree, \<open>child\<close>.\<close>

definition rb_unlink :: "'a rb_state \<Rightarrow> addr \<Rightarrow> ('a rb_state \<times> addr \<times> addr) option" where
  "rb_unlink = (\<lambda>(root, h) old. do {
     parent \<leftarrow> RB_PARENT h old;
     right \<leftarrow> RB_RIGHT h old;
     left \<leftarrow> RB_LEFT h old;
     (h, elm, child, parent) \<leftarrow>
       (if left = NULL then Some (h, right, right, parent)
        else if right = NULL then Some (h, left, left, parent)
        else do {
          rleft \<leftarrow> RB_LEFT h right;
          (h, elm, child, parent) \<leftarrow>
            (if rleft = NULL then do {
               child \<leftarrow> RB_RIGHT h right;
               h \<leftarrow> RB_SET_RIGHT h old child;
               Some (h, right, child, right)
             } else do {
               elm \<leftarrow> rb_leftmost h rleft;
               child \<leftarrow> RB_RIGHT h elm;
               parent \<leftarrow> RB_PARENT h elm;
               h \<leftarrow> RB_SET_LEFT h parent child;
               oright \<leftarrow> RB_RIGHT h old;
               h \<leftarrow> RB_SET_PARENT h oright elm;
               Some (h, elm, child, parent)
             });
          oleft \<leftarrow> RB_LEFT h old;
          h \<leftarrow> RB_SET_PARENT h oleft elm;
          h \<leftarrow> RB_COPY h elm old;
          Some (h, elm, child, parent)
        });
     (root, h) \<leftarrow> RB_SWAP_CHILD (root, h) old elm;
     h \<leftarrow> (if child \<noteq> NULL then RB_SET_PARENT h child parent else Some h);
     Some ((root, h), parent, child)
   })"

definition RB_REMOVE :: "'a rb_state \<Rightarrow> addr \<Rightarrow> ('a rb_state \<times> addr) option" where
  "RB_REMOVE s elm = do {
     (s, parent, child) \<leftarrow> rb_unlink s elm;
     s \<leftarrow> (if parent \<noteq> NULL then RB_REMOVE_COLOR s parent child else Some s);
     Some (s, elm)
   }"

definition RB_REINSERT :: "'a cmp \<Rightarrow> 'a rb_state \<Rightarrow> addr \<Rightarrow> ('a rb_state \<times> addr) option" where
  "RB_REINSERT cmp s elm = do {
     e \<leftarrow> rd (snd s) elm;
     p \<leftarrow> RB_PREV (snd s) elm;
     before \<leftarrow> (if p = NULL then Some False
                else map_option (\<lambda>n. cmp n e \<ge> 0) (rd (snd s) p));
     out_of_order \<leftarrow>
       (if before then Some True else do {
          q \<leftarrow> RB_NEXT (snd s) elm;
          if q = NULL then Some False else map_option (\<lambda>n. cmp e n \<ge> 0) (rd (snd s) q)
        });
     if out_of_order then do {
       (s, _) \<leftarrow> RB_REMOVE s elm;
       RB_INSERT cmp s elm
     } else Some (s, NULL)
   }"

text \<open>The loops, executable.\<close>

declare RB_INSERT_COLOR.simps [code]
  remove_color_loop.simps [code]
  rb_find_loop.simps [code]
  rb_nfind_loop.simps [code]
  rb_leftmost.simps [code]
  rb_rightmost.simps [code]
  rb_up_right.simps [code]
  rb_up_left.simps [code]
  rb_minmax_loop.simps [code]
  rb_foreach_from.simps [code]
  rb_foreach_reverse_from.simps [code]
  rb_insert_search.simps [code]

end
