(* ===== verification/Rb_Tree.thy ===== *)
theory Rb_Tree
  imports Prelude
begin

text \<open>
  Rank-balanced trees as values, the specification the pointer programs of \<open>Rb_Heap\<close> are
  proved against: trees with the two colours of each node, a tree seen from one of its
  subtrees (a list of frames, the innermost first, as the parent pointers give it), the
  rebalancing of \<open>RB_INSERT_COLOR\<close> and \<open>RB_REMOVE_COLOR\<close> as functions on them, and the
  weak-AVL rank rule of the header comment with the height bound it claims.
\<close>

section \<open>Trees and contexts\<close>

text \<open>\<open>Nd l rl a rr r\<close>: \<open>rl\<close> and \<open>rr\<close> say that the left and the right edge is red.\<close>

datatype 'a rtree = Tip | Nd "'a rtree" bool 'a bool "'a rtree"

datatype 'a frame = InL bool 'a bool "'a rtree" | InR "'a rtree" bool 'a bool

type_synonym 'a path = "'a frame list"

fun nodes :: "'a rtree \<Rightarrow> 'a list" where
  "nodes Tip = []"
| "nodes (Nd l _ a _ r) = nodes l @ a # nodes r"

fun fill :: "'a frame \<Rightarrow> 'a rtree \<Rightarrow> 'a rtree" where
  "fill (InL rl a rr r) t = Nd t rl a rr r"
| "fill (InR l rl a rr) t = Nd l rl a rr t"

fun plug :: "'a path \<Rightarrow> 'a rtree \<Rightarrow> 'a rtree" where
  "plug [] t = t"
| "plug (f # c) t = plug c (fill f t)"

fun lefts :: "'a path \<Rightarrow> 'a list" where
  "lefts [] = []"
| "lefts (InL _ _ _ _ # c) = lefts c"
| "lefts (InR l _ a _ # c) = lefts c @ nodes l @ [a]"

fun rights :: "'a path \<Rightarrow> 'a list" where
  "rights [] = []"
| "rights (InL _ a _ r # c) = a # nodes r @ rights c"
| "rights (InR _ _ _ _ # c) = rights c"

lemma nodes_plug [simp]: "nodes (plug c t) = lefts c @ nodes t @ rights c"
  by (induction c arbitrary: t rule: lefts.induct) auto

lemma plug_append: "plug (c @ d) t = plug d (plug c t)"
  by (induction c arbitrary: t) auto

lemma nodes_Nil_iff [simp]: "nodes t = [] \<longleftrightarrow> t = Tip" "[] = nodes t \<longleftrightarrow> t = Tip"
  by (cases t; simp)+

section \<open>Rebalancing\<close>

text \<open>
  \<open>fix_insert c t\<close>: the subtree in the hole of \<open>c\<close> has grown by one and is now \<open>t\<close>;
  the loop of \<open>RB_INSERT_COLOR\<close>. \<open>None\<close> is where the code would follow a null pointer.
\<close>

fun rotate_insert_left :: "'a rtree \<Rightarrow> 'a \<Rightarrow> 'a rtree \<Rightarrow> 'a rtree option" where
  "rotate_insert_left (Nd xl el e True xr) a r =
     Some (Nd xl False e False (Nd xr False a False r))"
| "rotate_insert_left (Nd xl el e False (Nd ml cl m cr mr)) a r =
     Some (Nd (Nd xl (\<not> el) e cl ml) False m False (Nd mr (\<not> cl \<and> cr) a False r))"
| "rotate_insert_left _ a r = None"

fun rotate_insert_right :: "'a rtree \<Rightarrow> 'a \<Rightarrow> 'a rtree \<Rightarrow> 'a rtree option" where
  "rotate_insert_right l a (Nd xl True e er xr) =
     Some (Nd (Nd l False a False xl) False e False xr)"
| "rotate_insert_right l a (Nd (Nd ml cl m cr mr) False e er xr) =
     Some (Nd (Nd l False a (\<not> cr \<and> cl) ml) False m False (Nd mr cr e (\<not> er) xr))"
| "rotate_insert_right l a _ = None"

fun fix_insert :: "'a path \<Rightarrow> 'a rtree \<Rightarrow> 'a rtree option" where
  "fix_insert [] t = Some t"
| "fix_insert (InL rl a rr r # c) t =
     (if rl then Some (plug c (Nd t False a rr r))
      else if \<not> rr then fix_insert c (Nd t False a True r)
      else map_option (plug c) (rotate_insert_left t a r))"
| "fix_insert (InR l rl a rr # c) t =
     (if rr then Some (plug c (Nd l rl a False t))
      else if \<not> rl then fix_insert c (Nd l True a False t)
      else map_option (plug c) (rotate_insert_right l a t))"

text \<open>
  \<open>fix_remove c t\<close>: the subtree in the hole has lost one; the loop of \<open>RB_REMOVE_COLOR\<close>.
\<close>

fun rotate_remove_left :: "'a rtree \<Rightarrow> 'a \<Rightarrow> 'a rtree \<Rightarrow> 'a rtree option" where
  "rotate_remove_left t a (Nd sl True s sr sr') =
     Some (Nd (Nd t False a False sl) True s (\<not> sr) sr')"
| "rotate_remove_left t a (Nd (Nd ml cl m cr mr) False s True sr) =
     Some (Nd (Nd t False a cl ml) True m True (Nd mr cr s False sr))"
| "rotate_remove_left t a (Nd sl False s False sr) =
     Some (Nd (Nd t True a False sl) False s True sr)"
| "rotate_remove_left t a _ = None"

fun rotate_remove_right :: "'a rtree \<Rightarrow> 'a \<Rightarrow> 'a rtree \<Rightarrow> 'a rtree option" where
  "rotate_remove_right (Nd sl' sl s True sr) a t =
     Some (Nd sl' (\<not> sl) s True (Nd sr False a False t))"
| "rotate_remove_right (Nd sl True s False (Nd ml cl m cr mr)) a t =
     Some (Nd (Nd sl False s cl ml) True m True (Nd mr cr a False t))"
| "rotate_remove_right (Nd sl False s False sr) a t =
     Some (Nd sl True s False (Nd sr False a True t))"
| "rotate_remove_right _ a t = None"

fun fix_remove :: "'a path \<Rightarrow> 'a rtree \<Rightarrow> 'a rtree option" where
  "fix_remove [] t = Some t"
| "fix_remove (InL rl a rr r # c) t =
     (if \<not> rl then Some (plug c (Nd t True a rr r))
      else if rr then fix_remove c (Nd t True a False r)
      else case r of
        Tip \<Rightarrow> None
      | Nd sl bl s br sr \<Rightarrow>
          if bl \<and> br then fix_remove c (Nd t True a False (Nd sl False s False sr))
          else map_option (plug c) (rotate_remove_left t a r))"
| "fix_remove (InR l rl a rr # c) t =
     (if \<not> rr then Some (plug c (Nd l rl a True t))
      else if rl then fix_remove c (Nd l False a True t)
      else case l of
        Tip \<Rightarrow> None
      | Nd sl bl s br sr \<Rightarrow>
          if bl \<and> br then fix_remove c (Nd (Nd sl False s False sr) False a True t)
          else map_option (plug c) (rotate_remove_right l a t))"

text \<open>The entry of \<open>RB_REMOVE_COLOR\<close>: a node left without children becomes a leaf.\<close>

fun start_remove :: "'a path \<Rightarrow> 'a rtree \<Rightarrow> 'a rtree option" where
  "start_remove (InL rl a rr Tip # c) Tip = fix_remove c (Nd Tip False a False Tip)"
| "start_remove (InR Tip rl a rr # c) Tip = fix_remove c (Nd Tip False a False Tip)"
| "start_remove c t = fix_remove c t"

text \<open>Taking the first node of a tree: the path to it, and its right subtree.\<close>

fun first_path :: "'a rtree \<Rightarrow> ('a path \<times> 'a \<times> 'a rtree) option" where
  "first_path (Nd Tip rl a rr r) = Some ([], a, r)"
| "first_path (Nd l rl a rr r) =
     map_option (\<lambda>(c, m, t). (c @ [InL rl a rr r], m, t)) (first_path l)"
| "first_path Tip = None"

fun remove_at :: "'a path \<Rightarrow> 'a rtree \<Rightarrow> 'a rtree option" where
  "remove_at c (Nd Tip rl a rr r) = start_remove c r"
| "remove_at c (Nd l rl a rr Tip) = start_remove c l"
| "remove_at c (Nd l rl a rr r) =
     (case first_path r of
        None \<Rightarrow> None
      | Some (d, m, t) \<Rightarrow> start_remove (d @ InR l rl m rr # c) t)"
| "remove_at c Tip = None"

section \<open>Rebalancing keeps the order of the nodes\<close>

lemma nodes_rotate_insert_left:
  "rotate_insert_left t a r = Some u \<Longrightarrow> nodes u = nodes t @ a # nodes r"
  by (induction t a r rule: rotate_insert_left.induct) auto

lemma nodes_rotate_insert_right:
  "rotate_insert_right l a t = Some u \<Longrightarrow> nodes u = nodes l @ a # nodes t"
  by (induction l a t rule: rotate_insert_right.induct) auto

lemma nodes_rotate_remove_left:
  "rotate_remove_left t a r = Some u \<Longrightarrow> nodes u = nodes t @ a # nodes r"
  by (induction t a r rule: rotate_remove_left.induct) auto

lemma nodes_rotate_remove_right:
  "rotate_remove_right l a t = Some u \<Longrightarrow> nodes u = nodes l @ a # nodes t"
  by (induction l a t rule: rotate_remove_right.induct) auto

lemmas nodes_rotate = nodes_rotate_insert_left nodes_rotate_insert_right
  nodes_rotate_remove_left nodes_rotate_remove_right

lemma nodes_fix_insert: "fix_insert c t = Some u \<Longrightarrow> nodes u = lefts c @ nodes t @ rights c"
  by (induction c t rule: fix_insert.induct) (auto split: if_splits simp: nodes_rotate)

lemma nodes_fix_remove: "fix_remove c t = Some u \<Longrightarrow> nodes u = lefts c @ nodes t @ rights c"
  by (induction c t rule: fix_remove.induct)
    (auto split: if_splits rtree.splits simp: nodes_rotate)

lemma nodes_start_remove: "start_remove c t = Some u \<Longrightarrow> nodes u = lefts c @ nodes t @ rights c"
  by (induction c t rule: start_remove.induct)
    (auto dest: nodes_fix_remove simp del: fix_remove.simps)

lemma lefts_append: "lefts (c @ d) = lefts d @ lefts c"
  by (induction c rule: lefts.induct) auto

lemma rights_append: "rights (c @ d) = rights c @ rights d"
  by (induction c rule: rights.induct) auto

lemma first_path_nodes:
  "first_path t = Some (d, m, u) \<Longrightarrow> lefts d = [] \<and> nodes t = m # nodes u @ rights d"
  by (induction t arbitrary: d m u rule: first_path.induct)
    (auto simp: lefts_append rights_append)

lemma nodes_remove_at:
  "remove_at c (Nd l rl a rr r) = Some u \<Longrightarrow> nodes u = lefts c @ nodes l @ nodes r @ rights c"
  by (cases l; cases r)
    (auto dest!: nodes_start_remove nodes_fix_remove first_path_nodes split: option.splits
      simp: lefts_append rights_append simp del: fix_remove.simps)

section \<open>The rank rule\<close>

text \<open>
  The header comment's weak-AVL rule: an edge drops one rank, a red edge two, every path to
  null gives a node the same rank, the null node has rank -1 and a leaf rank 0 (the comment
  says 1; with -1 for null and black edges the code's leaves have rank 0).
\<close>

definition gap :: "bool \<Rightarrow> int" where
  "gap red = (if red then 2 else 1)"

fun rank :: "'a rtree \<Rightarrow> int" where
  "rank Tip = - 1"
| "rank (Nd l rl a rr r) = rank l + gap rl"

fun ranked :: "'a rtree \<Rightarrow> bool" where
  "ranked Tip = True"
| "ranked (Nd l rl a rr r) \<longleftrightarrow> ranked l \<and> ranked r \<and> rank l + gap rl = rank r + gap rr
     \<and> (l = Tip \<and> r = Tip \<longrightarrow> \<not> rl \<and> \<not> rr)"

fun ranked_path :: "'a path \<Rightarrow> int \<Rightarrow> bool" where
  "ranked_path [] k = True"
| "ranked_path (InL rl a rr r # c) k \<longleftrightarrow> ranked r \<and> k + gap rl = rank r + gap rr
     \<and> (k = - 1 \<and> r = Tip \<longrightarrow> \<not> rl \<and> \<not> rr) \<and> ranked_path c (k + gap rl)"
| "ranked_path (InR l rl a rr # c) k \<longleftrightarrow> ranked l \<and> rank l + gap rl = k + gap rr
     \<and> (k = - 1 \<and> l = Tip \<longrightarrow> \<not> rl \<and> \<not> rr) \<and> ranked_path c (k + gap rr)"

lemma gap_simps [simp]: "gap True = 2" "gap False = 1"
  by (simp_all add: gap_def)

lemma gap_pos: "1 \<le> gap b" "gap b \<le> 2"
  by (simp_all add: gap_def)

lemma rank_ge: "ranked t \<Longrightarrow> - 1 \<le> rank t"
  by (induction t) (auto simp: gap_def)

lemma rank_Nd: "ranked (Nd l rl a rr r) \<Longrightarrow> 0 \<le> rank (Nd l rl a rr r)"
  using rank_ge [of l] gap_pos(1) [of rl] by simp

lemma rank_Tip_iff: "ranked t \<Longrightarrow> rank t = - 1 \<longleftrightarrow> t = Tip"
  by (cases t) (auto dest: rank_ge simp: gap_def)

lemma ranked_plug: "ranked (plug c t) \<longleftrightarrow> ranked t \<and> ranked_path c (rank t)"
proof (induction c arbitrary: t rule: lefts.induct)
  case 1
  then show ?case by simp
next
  case (2 rl a rr r c)
  have "ranked t \<Longrightarrow> rank t = - 1 \<longleftrightarrow> t = Tip" by (rule rank_Tip_iff)
  then show ?case unfolding plug.simps fill.simps "2" by auto
next
  case (3 l rl a rr c)
  have "ranked t \<Longrightarrow> rank t = - 1 \<longleftrightarrow> t = Tip" by (rule rank_Tip_iff)
  then show ?case unfolding plug.simps fill.simps "3" by auto
qed

lemma ranked_plug_same_rank:
  "ranked_path c (rank t) \<Longrightarrow> ranked t \<Longrightarrow> ranked (plug c t)"
  by (simp add: ranked_plug)

section \<open>Insertion keeps the rank rule\<close>

text \<open>
  A subtree that has just grown to rank \<open>k + 1\<close>: a new leaf, or a node with one red edge
  whose black edge leads to a subtree that grew before it, so one without two red edges.
  The code relies on the latter: in a double rotation it turns at most one edge red.
\<close>

fun two_red :: "'a rtree \<Rightarrow> bool" where
  "two_red Tip = False"
| "two_red (Nd l rl a rr r) \<longleftrightarrow> rl \<and> rr"

fun grown :: "int \<Rightarrow> 'a rtree \<Rightarrow> bool" where
  "grown k Tip = False"
| "grown k (Nd l rl a rr r) \<longleftrightarrow>
     k = - 1 \<or> rl \<noteq> rr \<and> (rl \<or> \<not> two_red l) \<and> (rr \<or> \<not> two_red r)"

lemma grown_rank: "grown k t \<Longrightarrow> ranked t \<Longrightarrow> 0 \<le> rank t"
  using rank_Tip_iff [of t] rank_ge [of t] by (cases t) auto

lemma grown_not_two_red:
  assumes "grown k t" and "ranked t" and "rank t = k + 1"
  shows "\<not> two_red t"
proof (cases t)
  case (Nd l rl a rr r)
  with assms rank_ge [of l] rank_ge [of r] show ?thesis by (auto simp: gap_def split: if_splits)
qed simp

lemma rotate_insert_left_ranked:
  assumes "ranked t" "ranked r" "rank t = k + 1" "k + 1 = rank r + 2" "grown k t"
  shows "\<exists>u. rotate_insert_left t a r = Some u \<and> ranked u \<and> rank u = k + 1"
  using assms rank_ge [of r]
  by (cases "(t, a, r)" rule: rotate_insert_left.cases) (auto simp: gap_def split: if_splits)

lemma rotate_insert_right_ranked:
  assumes "ranked t" "ranked l" "rank t = k + 1" "k + 1 = rank l + 2" "grown k t"
  shows "\<exists>u. rotate_insert_right l a t = Some u \<and> ranked u \<and> rank u = k + 1"
  using assms rank_ge [of l]
  by (cases "(l, a, t)" rule: rotate_insert_right.cases) (auto simp: gap_def split: if_splits)

lemma fix_insert_ranked:
  assumes "ranked_path c k" "ranked t" "rank t = k + 1" "grown k t"
  shows "\<exists>u. fix_insert c t = Some u \<and> ranked u"
  using assms
proof (induction c t arbitrary: k rule: fix_insert.induct)
  case (1 t)
  then show ?case by simp
next
  case (2 rl a rr r c t)
  note t2 = grown_not_two_red [OF "2.prems"(4,2,3)]
  from "2.prems" have k: "- 1 \<le> k" using grown_rank [of k t] by simp
  consider "rl" | "\<not> rl" "\<not> rr" | "\<not> rl" "rr" by blast
  then show ?case
  proof cases
    case 1
    with "2.prems" k show ?thesis by (auto simp: ranked_plug algebra_simps)
  next
    case 2
    with "2.prems" k t2 have "\<exists>u. fix_insert c (Nd t False a True r) = Some u \<and> ranked u"
      by (intro "2.IH" [where k = "k + 1"]) (auto simp: rank_Tip_iff)
    with 2 show ?thesis by simp
  next
    case 3
    with "2.prems" obtain u where "rotate_insert_left t a r = Some u" "ranked u" "rank u = k + 1"
      using rotate_insert_left_ranked [of t r k a] by auto
    with "2.prems" 3 show ?thesis by (auto simp: ranked_plug algebra_simps)
  qed
next
  case (3 l rl a rr c t)
  note t2 = grown_not_two_red [OF "3.prems"(4,2,3)]
  from "3.prems" have k: "- 1 \<le> k" using grown_rank [of k t] by simp
  consider "rr" | "\<not> rr" "\<not> rl" | "\<not> rr" "rl" by blast
  then show ?case
  proof cases
    case 1
    with "3.prems" k show ?thesis by (auto simp: ranked_plug algebra_simps)
  next
    case 2
    with "3.prems" k t2 have "\<exists>u. fix_insert c (Nd l True a False t) = Some u \<and> ranked u"
      by (intro "3.IH" [where k = "k + 1"]) (auto simp: rank_Tip_iff)
    with 2 show ?thesis by simp
  next
    case 3
    with "3.prems" obtain u where "rotate_insert_right l a t = Some u" "ranked u" "rank u = k + 1"
      using rotate_insert_right_ranked [of t l k a] by auto
    with "3.prems" 3 show ?thesis by (auto simp: ranked_plug algebra_simps)
  qed
qed

section \<open>Removal keeps the rank rule\<close>

lemma rotate_remove_left_ranked:
  assumes "ranked t" "ranked r" "rank t + 2 = rank r" "r \<noteq> Tip" "\<not> two_red r"
  shows "\<exists>u. rotate_remove_left t a r = Some u \<and> ranked u \<and> rank u = rank r + 1"
  using assms rank_ge [of t]
  by (cases "(t, a, r)" rule: rotate_remove_left.cases) (auto simp: gap_def split: if_splits)

lemma rotate_remove_right_ranked:
  assumes "ranked t" "ranked l" "rank t + 2 = rank l" "l \<noteq> Tip" "\<not> two_red l"
  shows "\<exists>u. rotate_remove_right l a t = Some u \<and> ranked u \<and> rank u = rank l + 1"
  using assms rank_ge [of t]
  by (cases "(l, a, t)" rule: rotate_remove_right.cases) (auto simp: gap_def split: if_splits)

text \<open>The loop never sees a node with two null children: \<open>start_remove\<close> deals with it.\<close>

fun has_sibling :: "'a path \<Rightarrow> bool" where
  "has_sibling [] = True"
| "has_sibling (InL _ _ _ r # c) \<longleftrightarrow> r \<noteq> Tip"
| "has_sibling (InR l _ _ _ # c) \<longleftrightarrow> l \<noteq> Tip"

lemma fix_remove_ranked:
  assumes "ranked_path c k" "ranked t" "rank t = k - 1" "t = Tip \<longrightarrow> has_sibling c"
  shows "\<exists>u. fix_remove c t = Some u \<and> ranked u"
  using assms
proof (induction c t arbitrary: k rule: fix_remove.induct)
  case (1 t)
  then show ?case by simp
next
  case (2 rl a rr r c t)
  have kt: "- 1 \<le> rank t" and kr: "- 1 \<le> rank r" and tip: "rank r = - 1 \<longleftrightarrow> r = Tip"
    using "2.prems" rank_ge [of t] rank_ge [of r] rank_Tip_iff [of r] by auto
  consider "\<not> rl" | "rl" "rr" | "rl" "\<not> rr" "two_red r" | "rl" "\<not> rr" "\<not> two_red r" by blast
  then show ?case
  proof cases
    case 1
    with "2.prems" have up: "rank t + 2 = k + gap rl" by simp
    have "ranked_path c (rank t + 2)" using "2.prems"(1) unfolding up ranked_path.simps by blast
    with "2.prems" 1 show ?thesis by (auto simp: ranked_plug)
  next
    case 2
    with "2.prems" kt have "\<exists>u. fix_remove c (Nd t True a False r) = Some u \<and> ranked u"
      by (intro "2.IH"(1) [where k = "k + 2"]) (auto simp: algebra_simps)
    with 2 show ?thesis by simp
  next
    case 3
    then obtain sl s sr where r: "r = Nd sl True s True sr" by (cases r) auto
    with "2.prems" 3 kt
    have "\<exists>u. fix_remove c (Nd t True a False (Nd sl False s False sr)) = Some u \<and> ranked u"
      by (intro "2.IH"(2) [where k = "k + 2", OF _ _ r]) (auto simp: algebra_simps)
    with 3 r show ?thesis by simp
  next
    case 4
    with "2.prems" kt tip have ne: "r \<noteq> Tip" and rr: "rank r = rank t + 2" by auto
    with "2.prems" 4 obtain u where "rotate_remove_left t a r = Some u" "ranked u" "rank u = rank r + 1"
      using rotate_remove_left_ranked [of t r a] by auto
    with "2.prems" 4 ne rr show ?thesis by (cases r) (auto simp: ranked_plug algebra_simps)
  qed
next
  case (3 l rl a rr c t)
  have kt: "- 1 \<le> rank t" and kr: "- 1 \<le> rank l" and tip: "rank l = - 1 \<longleftrightarrow> l = Tip"
    using "3.prems" rank_ge [of t] rank_ge [of l] rank_Tip_iff [of l] by auto
  consider "\<not> rr" | "rr" "rl" | "rr" "\<not> rl" "two_red l" | "rr" "\<not> rl" "\<not> two_red l" by blast
  then show ?case
  proof cases
    case 1
    with "3.prems" have up: "rank t + 2 = k + gap rr" by simp
    have "ranked_path c (rank t + 2)" using "3.prems"(1) unfolding up ranked_path.simps by blast
    with "3.prems" 1 show ?thesis by (auto simp: ranked_plug)
  next
    case 2
    with "3.prems" kt have "\<exists>u. fix_remove c (Nd l False a True t) = Some u \<and> ranked u"
      by (intro "3.IH"(1) [where k = "k + 2"]) (auto simp: algebra_simps)
    with 2 show ?thesis by simp
  next
    case 3
    then obtain sl s sr where l: "l = Nd sl True s True sr" by (cases l) auto
    with "3.prems" 3 kt
    have "\<exists>u. fix_remove c (Nd (Nd sl False s False sr) False a True t) = Some u \<and> ranked u"
      by (intro "3.IH"(2) [where k = "k + 2", OF _ _ l]) (auto simp: algebra_simps)
    with 3 l show ?thesis by simp
  next
    case 4
    with "3.prems" kt tip have ne: "l \<noteq> Tip" and rr: "rank l = rank t + 2" by auto
    with "3.prems" 4 obtain u where "rotate_remove_right l a t = Some u" "ranked u" "rank u = rank l + 1"
      using rotate_remove_right_ranked [of t l a] by auto
    with "3.prems" 4 ne rr show ?thesis by (cases l) (auto simp: ranked_plug algebra_simps)
  qed
qed

lemma start_remove_ranked:
  assumes "ranked_path c k" "ranked t" "rank t = k - 1"
  shows "\<exists>u. start_remove c t = Some u \<and> ranked u"
proof (cases "t = Tip \<and> \<not> has_sibling c")
  case True
  with assms have k: "k = 0" by simp
  from True obtain rl a rr c' where c: "c = InL rl a rr Tip # c' \<or> c = InR Tip rl a rr # c'"
    by (cases c rule: has_sibling.cases) auto
  with assms k have "ranked_path c' 1" by (auto simp: gap_def split: if_splits)
  then have "\<exists>u. fix_remove c' (Nd Tip False a False Tip) = Some u \<and> ranked u"
    by (rule fix_remove_ranked) auto
  with True c show ?thesis by auto
next
  case False
  then have "start_remove c t = fix_remove c t" by (cases "(c, t)" rule: start_remove.cases) auto
  with False show ?thesis using fix_remove_ranked [OF assms] by simp
qed

lemma ranked_path_relabel:
  "ranked_path (d @ InR l rl a rr # c) k \<longleftrightarrow> ranked_path (d @ InR l rl b rr # c) k"
  by (induction d arbitrary: k rule: lefts.induct) auto

lemma first_path_plug:
  "first_path t = Some (d, m, u) \<Longrightarrow> \<exists>bl br. t = plug d (Nd Tip bl m br u)"
  by (induction t arbitrary: d m u rule: first_path.induct) (auto simp: plug_append)

lemma first_path_total: "t \<noteq> Tip \<Longrightarrow> \<exists>d m u. first_path t = Some (d, m, u)"
  by (induction t rule: first_path.induct) auto

lemma ranked_right_child:
  assumes "ranked (Nd Tip rl a rr r)"
  shows "ranked r \<and> rank r = rank (Nd Tip rl a rr r) - 1"
  using assms rank_ge [of r] rank_Tip_iff [of r] by (cases "r = Tip") (auto simp: gap_def split: if_splits)

lemma ranked_left_child:
  assumes "ranked (Nd l rl a rr Tip)"
  shows "ranked l \<and> rank l = rank (Nd l rl a rr Tip) - 1"
  using assms rank_ge [of l] rank_Tip_iff [of l] by (cases "l = Tip") (auto simp: gap_def split: if_splits)

lemma remove_at_ranked:
  assumes "ranked (plug c (Nd l rl a rr r))"
  shows "\<exists>u. remove_at c (Nd l rl a rr r) = Some u \<and> ranked u"
proof -
  have path: "ranked_path c (rank (Nd l rl a rr r))" and t: "ranked (Nd l rl a rr r)"
    using assms by (simp_all only: ranked_plug)
  consider "l = Tip" | "l \<noteq> Tip" "r = Tip" | "l \<noteq> Tip" "r \<noteq> Tip" by blast
  then show ?thesis
  proof cases
    case 1
    have "ranked r" "rank r = rank (Nd l rl a rr r) - 1"
      using t unfolding 1 by (blast dest: ranked_right_child)+
    from start_remove_ranked [OF path this] 1 show ?thesis by simp
  next
    case 2
    have "ranked l" "rank l = rank (Nd l rl a rr r) - 1"
      using t unfolding 2(2) by (blast dest: ranked_left_child)+
    from start_remove_ranked [OF path this] 2 show ?thesis by (cases l) simp_all
  next
    case 3
    obtain d m u where fp: "first_path r = Some (d, m, u)" using first_path_total 3 by blast
    obtain bl br where r: "r = plug d (Nd Tip bl m br u)" using first_path_plug [OF fp] by blast
    let ?c = "d @ InR l rl m rr # c"
    from assms have "ranked (plug (d @ InR l rl a rr # c) (Nd Tip bl m br u))"
      by (simp add: plug_append r)
    then have "ranked_path ?c (rank (Nd Tip bl m br u))" and u: "ranked (Nd Tip bl m br u)"
      unfolding ranked_plug by (blast intro: ranked_path_relabel [THEN iffD1])+
    then have "\<exists>v. start_remove ?c u = Some v \<and> ranked v"
      using start_remove_ranked ranked_right_child [OF u] by blast
    then show ?thesis using 3 fp by (cases l; cases r) simp_all
  qed
qed

section \<open>The height bound\<close>

fun height :: "'a rtree \<Rightarrow> nat" where
  "height Tip = 0"
| "height (Nd l _ _ _ r) = Suc (max (height l) (height r))"

lemma height_le_rank: "ranked t \<Longrightarrow> int (height t) \<le> rank t + 1"
  by (induction t) (auto simp: gap_def split: if_splits)

lemma rank_le_size: "ranked t \<Longrightarrow> 2 ^ nat (rank t + 1) \<le> (length (nodes t) + 1)\<^sup>2"
proof (induction t)
  case Tip
  then show ?case by simp
next
  case (Nd l rl a rr r)
  let ?k = "rank (Nd l rl a rr r)" and ?m = "nat (rank (Nd l rl a rr r) - 1)"
  let ?nl = "length (nodes l) + 1" and ?nr = "length (nodes r) + 1"
  have k: "0 \<le> ?k" using Nd.prems by (rule rank_Nd)
  from Nd.prems have l: "?m \<le> nat (rank l + 1)" and r: "?m \<le> nat (rank r + 1)"
    using gap_pos [of rl] gap_pos [of rr] by auto
  have "(2::nat) ^ ?m \<le> ?nl\<^sup>2"
    using Nd l by (meson order_trans one_le_numeral power_increasing ranked.simps(2))
  moreover have "(2::nat) ^ ?m \<le> ?nr\<^sup>2"
    using Nd r by (meson order_trans one_le_numeral power_increasing ranked.simps(2))
  ultimately have small: "(2::nat) ^ ?m \<le> (min ?nl ?nr)\<^sup>2" by (simp add: min_def)
  have "(2::nat) ^ nat (?k + 1) \<le> 4 * 2 ^ ?m"
  proof (cases "?k = 0")
    case True
    then show ?thesis by simp
  next
    case False
    with k have "nat (?k + 1) = Suc (Suc ?m)" by auto
    then show ?thesis by simp
  qed
  also have "\<dots> \<le> (2 * min ?nl ?nr)\<^sup>2" using small unfolding power_mult_distrib by simp
  also have "\<dots> \<le> (?nl + ?nr)\<^sup>2" by (rule power_mono) (auto simp: min_def)
  finally show ?case by (simp add: add.assoc)
qed

text \<open>\<open>height \<le> 2 lg (n + 1)\<close>, without logarithms.\<close>

lemma ranked_height:
  assumes "ranked t"
  shows "2 ^ height t \<le> (length (nodes t) + 1)\<^sup>2"
proof -
  have "height t \<le> nat (rank t + 1)" using height_le_rank [OF assms] by simp
  then have "(2::nat) ^ height t \<le> 2 ^ nat (rank t + 1)" by (simp add: power_increasing)
  also have "\<dots> \<le> (length (nodes t) + 1)\<^sup>2" by (rule rank_le_size [OF assms])
  finally show ?thesis .
qed

end
