(* ===== verification/Rb_Refine.thy ===== *)
theory Rb_Refine
  imports Rb_Heap Rb_Tree
begin

text \<open>
  The pointer programs of \<open>Rb_Heap\<close> do to the heap what the functions of \<open>Rb_Tree\<close> do to
  trees. A tree of addresses is laid out in a heap when every node's three link fields are
  what the tree says; the rest of each node, its payload, is never touched.
\<close>

section \<open>Links and payload of a heap\<close>

type_synonym links = "addr \<times> addr \<times> addr"

definition lk :: "'a heap \<Rightarrow> addr \<rightharpoonup> links" where
  "lk h a = map_option (\<lambda>n. (rbe_left n, rbe_right n, rbe_parent n)) (h a)"

definition pay :: "'a heap \<Rightarrow> addr \<rightharpoonup> 'a" where
  "pay h a = map_option rb_entry.more (h a)"

definition put :: "'a heap \<Rightarrow> addr \<Rightarrow> links \<Rightarrow> 'a heap" where
  "put h a x = (case h a of None \<Rightarrow> h
     | Some n \<Rightarrow> h(a \<mapsto> n\<lparr>rbe_left := fst x, rbe_right := fst (snd x), rbe_parent := snd (snd x)\<rparr>))"

lemma lk_put [simp]: "lk h a \<noteq> None \<Longrightarrow> lk (put h a x) = (lk h)(a \<mapsto> x)"
  by (auto simp: lk_def put_def fun_eq_iff)

lemma pay_put [simp]: "pay (put h a x) = pay h"
  by (auto simp: pay_def put_def fun_eq_iff split: option.split)

lemma heap_eqI: "lk h a = lk h' a \<Longrightarrow> pay h a = pay h' a \<Longrightarrow> h a = h' a"
  by (cases "h a"; cases "h' a") (auto simp: lk_def pay_def)

lemma dom_lk: "lk h a = None \<longleftrightarrow> h a = None"
  by (simp add: lk_def)

lemma dom_pay: "pay h a = None \<longleftrightarrow> h a = None"
  by (simp add: pay_def)

text \<open>The primitives on a node whose links are known.\<close>

lemma prim_read [heap_simps]:
  assumes "lk h a = Some (l, r, p)" and "a \<noteq> NULL"
  shows "RB_LEFT h a = Some l" and "RB_RIGHT h a = Some r" and "RB_BITS h a = Some p"
    and "RB_PARENT h a = Some (p AND NOT RB_RED_MASK)"
    and "RB_RED_LEFT h a = Some (p AND RB_RED_L \<noteq> 0)"
    and "RB_RED_RIGHT h a = Some (p AND RB_RED_R \<noteq> 0)"
    and "RB_BOTH_RED h a = Some (NOT p AND RB_RED_MASK = 0)"
  using assms by (auto simp: lk_def rd_def RB_LEFT_def RB_RIGHT_def RB_BITS_def RB_PARENT_def
      RB_RED_LEFT_def RB_RED_RIGHT_def RB_BOTH_RED_def)

lemma prim_write [heap_simps]:
  assumes "lk h a = Some (l, r, p)" and "a \<noteq> NULL"
  shows "RB_SET_LEFT h a v = Some (put h a (v, r, p))"
    and "RB_SET_RIGHT h a v = Some (put h a (l, v, p))"
    and "RB_FLIP_LEFT h a = Some (put h a (l, r, p XOR RB_RED_L))"
    and "RB_FLIP_RIGHT h a = Some (put h a (l, r, p XOR RB_RED_R))"
    and "RB_CLEAR_RED h a = Some (put h a (l, r, p AND NOT RB_RED_MASK))"
    and "RB_SET_RED h a = Some (put h a (l, r, p OR RB_RED_MASK))"
    and "RB_SET_PARENT h a v = Some (put h a (l, r, (p AND RB_RED_MASK) OR v))"
    and "RB_SET h a v = Some (put h a (NULL, NULL, v))"
  using assms by (auto simp: lk_def rd_def wr_def put_def RB_SET_LEFT_def RB_SET_RIGHT_def
      RB_FLIP_LEFT_def RB_FLIP_RIGHT_def RB_CLEAR_RED_def RB_SET_RED_def RB_SET_PARENT_def RB_SET_def)

lemma prim_copy [heap_simps]:
  assumes "lk h b = Some (l, r, p)" and "b \<noteq> NULL" and "lk h a = Some y" and "a \<noteq> NULL"
  shows "RB_COPY h a b = Some (put h a (l, r, p))"
  using assms by (auto simp: lk_def rd_def wr_def put_def RB_COPY_def)

section \<open>A tree in a heap\<close>

fun rootp :: "addr rtree \<Rightarrow> addr" where
  "rootp Tip = NULL"
| "rootp (Nd l rl a rr r) = a"

fun holep :: "addr path \<Rightarrow> addr" where
  "holep [] = NULL"
| "holep (InL rl a rr r # c) = a"
| "holep (InR l rl a rr # c) = a"

fun repr :: "(addr \<rightharpoonup> links) \<Rightarrow> addr \<Rightarrow> addr rtree \<Rightarrow> bool" where
  "repr m p Tip \<longleftrightarrow> True"
| "repr m p (Nd l rl a rr r) \<longleftrightarrow> a \<noteq> NULL \<and> aligned a
     \<and> m a = Some (rootp l, rootp r, pack p rl rr) \<and> repr m a l \<and> repr m a r"

fun repr_path :: "(addr \<rightharpoonup> links) \<Rightarrow> addr path \<Rightarrow> addr \<Rightarrow> addr \<Rightarrow> bool" where
  "repr_path m [] q rt \<longleftrightarrow> rt = q"
| "repr_path m (InL rl a rr r # c) q rt \<longleftrightarrow> a \<noteq> NULL \<and> aligned a
     \<and> m a = Some (q, rootp r, pack (holep c) rl rr) \<and> repr m a r \<and> repr_path m c a rt"
| "repr_path m (InR l rl a rr # c) q rt \<longleftrightarrow> a \<noteq> NULL \<and> aligned a
     \<and> m a = Some (rootp l, q, pack (holep c) rl rr) \<and> repr m a l \<and> repr_path m c a rt"

definition rb_rep :: "'a heap \<Rightarrow> 'a heap \<Rightarrow> addr \<Rightarrow> addr rtree \<Rightarrow> bool" where
  "rb_rep H h rt t \<longleftrightarrow> rt = rootp t \<and> repr (lk h) NULL t \<and> distinct (nodes t)
     \<and> pay h = pay H \<and> (\<forall>b. b \<notin> set (nodes t) \<longrightarrow> lk h b = lk H b)"

lemma repr_frame [simp]: "a \<notin> set (nodes t) \<Longrightarrow> repr (m(a \<mapsto> x)) p t = repr m p t"
  by (induction t arbitrary: p) auto

lemma repr_path_frame [simp]:
  "a \<notin> set (lefts c) \<Longrightarrow> a \<notin> set (rights c) \<Longrightarrow> repr_path (m(a \<mapsto> x)) c q rt = repr_path m c q rt"
  by (induction c arbitrary: q rule: lefts.induct) auto

lemma repr_plug:
  "repr m NULL (plug c t) \<and> rt = rootp (plug c t)
     \<longleftrightarrow> repr_path m c (rootp t) rt \<and> repr m (holep c) t"
  by (induction c arbitrary: t rule: lefts.induct) auto

lemma rb_rep_plug:
  "rb_rep H h rt (plug c t) \<longleftrightarrow> repr_path (lk h) c (rootp t) rt \<and> repr (lk h) (holep c) t
     \<and> distinct (lefts c @ nodes t @ rights c) \<and> pay h = pay H
     \<and> (\<forall>b. b \<notin> set (lefts c @ nodes t @ rights c) \<longrightarrow> lk h b = lk H b)"
  using repr_plug [of "lk h" c t rt] by (auto simp: rb_rep_def)

lemma rootp_neq: "a \<notin> set (nodes t) \<Longrightarrow> a \<noteq> NULL \<Longrightarrow> rootp t \<noteq> a" "a \<notin> set (nodes t) \<Longrightarrow> a \<noteq> NULL \<Longrightarrow> a \<noteq> rootp t"
  by (cases t; auto)+

lemma repr_rootp: "repr m p t \<Longrightarrow> rootp t = NULL \<longleftrightarrow> t = Tip"
  by (cases t) auto

lemma repr_path_aligned [simp]: "repr_path m c q rt \<Longrightarrow> aligned (holep c)"
  by (cases c rule: holep.cases) auto

section \<open>Rotations\<close>

lemma rotate_right:
  assumes "rb_rep H h rt (plug c (Nd (Nd A x e y B) rl a rr C))"
  shows "\<exists>h' rt'. RB_ROTATE_RIGHT (rt, h) a = Some ((rt', h'), e)
     \<and> rb_rep H h' rt' (plug c (Nd A x e y (Nd B rl a rr C)))"
  using assms unfolding rb_rep_plug
  by (cases c rule: holep.cases; cases B)
    (auto simp: RB_ROTATE_RIGHT_def RB_SWAP_CHILD_def heap_simps pack_simps rootp_neq)

lemma rotate_left:
  assumes "rb_rep H h rt (plug c (Nd A rl a rr (Nd B x e y C)))"
  shows "\<exists>h' rt'. RB_ROTATE_LEFT (rt, h) a = Some ((rt', h'), e)
     \<and> rb_rep H h' rt' (plug c (Nd (Nd A rl a rr B) x e y C))"
  using assms unfolding rb_rep_plug
  by (cases c rule: holep.cases; cases B)
    (auto simp: RB_ROTATE_LEFT_def RB_SWAP_CHILD_def heap_simps pack_simps rootp_neq)

section \<open>Reading and writing the node in focus\<close>

lemma focus_cell:
  assumes "rb_rep H h rt (plug c (Nd l rl a rr r))"
  shows "a \<noteq> NULL" and "lk h a = Some (rootp l, rootp r, pack (holep c) rl rr)"
    and "aligned a" and "aligned (holep c)"
  using assms by (auto simp: rb_rep_plug)

lemma focus_read:
  assumes "rb_rep H h rt (plug c (Nd l rl a rr r))"
  shows "RB_LEFT h a = Some (rootp l)" and "RB_RIGHT h a = Some (rootp r)"
    and "RB_PARENT h a = Some (holep c)" and "RB_RED_LEFT h a = Some rl"
    and "RB_RED_RIGHT h a = Some rr" and "RB_BOTH_RED h a = Some (rl \<and> rr)"
  using focus_cell [OF assms] by (simp_all add: heap_simps pack_simps)

lemma focus_put:
  assumes "rb_rep H h rt (plug c (Nd l rl a rr r))"
  shows "rb_rep H (put h a (rootp l, rootp r, pack (holep c) rl' rr')) rt (plug c (Nd l rl' a rr' r))"
  using assms focus_cell [OF assms] by (auto simp: rb_rep_plug)

lemma focus_write:
  assumes "rb_rep H h rt (plug c (Nd l rl a rr r))"
  shows "\<exists>h'. RB_FLIP_LEFT h a = Some h' \<and> rb_rep H h' rt (plug c (Nd l (\<not> rl) a rr r))"
    and "\<exists>h'. RB_FLIP_RIGHT h a = Some h' \<and> rb_rep H h' rt (plug c (Nd l rl a (\<not> rr) r))"
    and "\<exists>h'. RB_CLEAR_RED h a = Some h' \<and> rb_rep H h' rt (plug c (Nd l False a False r))"
    and "\<exists>h'. RB_SET_RED h a = Some h' \<and> rb_rep H h' rt (plug c (Nd l True a True r))"
  using focus_cell [OF assms] focus_put [OF assms] focus_put [OF assms, of False False, unfolded pack_none]
  by (simp_all add: heap_simps pack_simps)

section \<open>The insertion loop\<close>

text \<open>The first and the last round of a side, then the rotating one.\<close>

lemma insert_left_done:
  assumes "rb_rep H h rt (plug c (Nd t True a rr r))"
  shows "\<exists>h'. insert_color_left (rt, h) a e = Some (Inl (rt, h'))
     \<and> rb_rep H h' rt (plug c (Nd t False a rr r))"
  using focus_read [OF assms] focus_write(1) [OF assms] by (auto simp: insert_color_left_def)

lemma insert_left_up:
  assumes "rb_rep H h rt (plug c (Nd t False a False r))"
  shows "\<exists>h'. insert_color_left (rt, h) a e = Some (Inr ((rt, h'), a))
     \<and> rb_rep H h' rt (plug c (Nd t False a True r))"
  using focus_read [OF assms] focus_write(2) [OF assms]
  by (auto simp: insert_color_left_def focus_read)

lemma insert_left_single:
  assumes "rb_rep H h rt (plug c (Nd (Nd xl el e True xr) False a True r))"
  shows "\<exists>h' rt'. insert_color_left (rt, h) a e = Some (Inl (rt', h'))
     \<and> rb_rep H h' rt' (plug c (Nd xl False e False (Nd xr False a False r)))"
proof -
  obtain h1 where h1: "RB_FLIP_RIGHT h a = Some h1"
      "rb_rep H h1 rt (plug c (Nd (Nd xl el e True xr) False a False r))"
    using focus_write(2) [OF assms] by auto
  have e: "RB_RED_RIGHT h1 e = Some True"
    using focus_read(5) [of H h1 rt "InL False a False r # c"] h1(2) by simp
  obtain h2 rt2 where h2: "RB_ROTATE_RIGHT (rt, h1) a = Some ((rt2, h2), e)"
      "rb_rep H h2 rt2 (plug c (Nd xl el e True (Nd xr False a False r)))"
    using rotate_right [OF h1(2)] by auto
  obtain h3 where h3: "RB_CLEAR_RED h2 e = Some h3"
      "rb_rep H h3 rt2 (plug c (Nd xl False e False (Nd xr False a False r)))"
    using focus_write(3) [OF h2(2)] by auto
  show ?thesis using focus_read [OF assms] focus_read [OF h1(2)] h1 e h2 h3
    by (simp add: insert_color_left_def)
qed

lemma insert_left_double:
  assumes "rb_rep H h rt (plug c (Nd (Nd xl el e False (Nd ml cl m cr mr)) False a True r))"
  shows "\<exists>h' rt'. insert_color_left (rt, h) a e = Some (Inl (rt', h'))
     \<and> rb_rep H h' rt' (plug c (Nd (Nd xl (\<not> el) e cl ml) False m False
                                  (Nd mr (\<not> cl \<and> cr) a False r)))"
proof -
  let ?c = "\<lambda>x. InL x a False r # c"
  obtain h1 where h1: "RB_FLIP_RIGHT h a = Some h1"
      "rb_rep H h1 rt (plug (?c False) (Nd xl el e False (Nd ml cl m cr mr)))"
    using focus_write(2) [OF assms] by auto
  obtain h2 where h2: "RB_FLIP_LEFT h1 e = Some h2"
      "rb_rep H h2 rt (plug (?c False) (Nd xl (\<not> el) e False (Nd ml cl m cr mr)))"
    using focus_write(1) [OF h1(2)] by auto
  obtain h3 rt3 where h3: "RB_ROTATE_LEFT (rt, h2) e = Some ((rt3, h3), m)"
      "rb_rep H h3 rt3 (plug (?c False) (Nd (Nd xl (\<not> el) e False ml) cl m cr mr))"
    using rotate_left [OF h2(2)] by auto
  have "\<exists>h4. (if cl then RB_FLIP_RIGHT h3 e else if cr then RB_FLIP_LEFT h3 a else Some h3) = Some h4
     \<and> rb_rep H h4 rt3 (plug c (Nd (Nd (Nd xl (\<not> el) e cl ml) cl m cr mr) (\<not> cl \<and> cr) a False r))"
    using focus_write(2) [of H h3 rt3 "InL cl m cr mr # ?c False" xl "\<not> el" e False ml] h3(2)
      focus_write(1) [of H h3 rt3 c "Nd (Nd xl (\<not> el) e False ml) cl m cr mr" False a False r]
    by (cases cl; cases cr) auto
  then obtain h4 where h4:
      "(if cl then RB_FLIP_RIGHT h3 e else if cr then RB_FLIP_LEFT h3 a else Some h3) = Some h4"
      "rb_rep H h4 rt3 (plug c (Nd (Nd (Nd xl (\<not> el) e cl ml) cl m cr mr) (\<not> cl \<and> cr) a False r))"
    by blast
  obtain h5 rt5 where h5: "RB_ROTATE_RIGHT (rt3, h4) a = Some ((rt5, h5), m)"
      "rb_rep H h5 rt5 (plug c (Nd (Nd xl (\<not> el) e cl ml) cl m cr (Nd mr (\<not> cl \<and> cr) a False r)))"
    using rotate_right [OF h4(2)] by auto
  obtain h6 where h6: "RB_CLEAR_RED h5 m = Some h6"
      "rb_rep H h6 rt5 (plug c (Nd (Nd xl (\<not> el) e cl ml) False m False (Nd mr (\<not> cl \<and> cr) a False r)))"
    using focus_write(3) [OF h5(2)] by auto
  show ?thesis using focus_read [OF assms] focus_read(5) [of H h1 rt c] focus_read [OF h1(2)]
      focus_read [OF h3(2)] h1 h2(1) h3(1) h4(1) h5(1) h6
    by (simp add: insert_color_left_def)
qed

lemma insert_right_done:
  assumes "rb_rep H h rt (plug c (Nd l rl a True t))"
  shows "\<exists>h'. insert_color_right (rt, h) a e = Some (Inl (rt, h'))
     \<and> rb_rep H h' rt (plug c (Nd l rl a False t))"
  using focus_read [OF assms] focus_write(2) [OF assms] by (auto simp: insert_color_right_def)

lemma insert_right_up:
  assumes "rb_rep H h rt (plug c (Nd l False a False t))"
  shows "\<exists>h'. insert_color_right (rt, h) a e = Some (Inr ((rt, h'), a))
     \<and> rb_rep H h' rt (plug c (Nd l True a False t))"
  using focus_read [OF assms] focus_write(1) [OF assms]
  by (auto simp: insert_color_right_def focus_read)

lemma insert_right_single:
  assumes "rb_rep H h rt (plug c (Nd l True a False (Nd xl True e er xr)))"
  shows "\<exists>h' rt'. insert_color_right (rt, h) a e = Some (Inl (rt', h'))
     \<and> rb_rep H h' rt' (plug c (Nd (Nd l False a False xl) False e False xr))"
proof -
  obtain h1 where h1: "RB_FLIP_LEFT h a = Some h1"
      "rb_rep H h1 rt (plug c (Nd l False a False (Nd xl True e er xr)))"
    using focus_write(1) [OF assms] by auto
  have e: "RB_RED_LEFT h1 e = Some True"
    using focus_read(4) [of H h1 rt "InR l False a False # c"] h1(2) by simp
  obtain h2 rt2 where h2: "RB_ROTATE_LEFT (rt, h1) a = Some ((rt2, h2), e)"
      "rb_rep H h2 rt2 (plug c (Nd (Nd l False a False xl) True e er xr))"
    using rotate_left [OF h1(2)] by auto
  obtain h3 where h3: "RB_CLEAR_RED h2 e = Some h3"
      "rb_rep H h3 rt2 (plug c (Nd (Nd l False a False xl) False e False xr))"
    using focus_write(3) [OF h2(2)] by auto
  show ?thesis using focus_read [OF assms] focus_read [OF h1(2)] h1 e h2 h3
    by (simp add: insert_color_right_def)
qed

lemma insert_right_double:
  assumes "rb_rep H h rt (plug c (Nd l True a False (Nd (Nd ml cl m cr mr) False e er xr)))"
  shows "\<exists>h' rt'. insert_color_right (rt, h) a e = Some (Inl (rt', h'))
     \<and> rb_rep H h' rt' (plug c (Nd (Nd l False a (\<not> cr \<and> cl) ml) False m False
                                  (Nd mr cr e (\<not> er) xr)))"
proof -
  let ?c = "\<lambda>x. InR l False a x # c"
  obtain h1 where h1: "RB_FLIP_LEFT h a = Some h1"
      "rb_rep H h1 rt (plug (?c False) (Nd (Nd ml cl m cr mr) False e er xr))"
    using focus_write(1) [OF assms] by auto
  obtain h2 where h2: "RB_FLIP_RIGHT h1 e = Some h2"
      "rb_rep H h2 rt (plug (?c False) (Nd (Nd ml cl m cr mr) False e (\<not> er) xr))"
    using focus_write(2) [OF h1(2)] by auto
  obtain h3 rt3 where h3: "RB_ROTATE_RIGHT (rt, h2) e = Some ((rt3, h3), m)"
      "rb_rep H h3 rt3 (plug (?c False) (Nd ml cl m cr (Nd mr False e (\<not> er) xr)))"
    using rotate_right [OF h2(2)] by auto
  have "\<exists>h4. (if cr then RB_FLIP_LEFT h3 e else if cl then RB_FLIP_RIGHT h3 a else Some h3) = Some h4
     \<and> rb_rep H h4 rt3 (plug c (Nd l False a (\<not> cr \<and> cl) (Nd ml cl m cr (Nd mr cr e (\<not> er) xr))))"
    using focus_write(1) [of H h3 rt3 "InR ml cl m cr # ?c False" mr False e "\<not> er" xr] h3(2)
      focus_write(2) [of H h3 rt3 c l False a False "Nd ml cl m cr (Nd mr False e (\<not> er) xr)"]
    by (cases cl; cases cr) auto
  then obtain h4 where h4:
      "(if cr then RB_FLIP_LEFT h3 e else if cl then RB_FLIP_RIGHT h3 a else Some h3) = Some h4"
      "rb_rep H h4 rt3 (plug c (Nd l False a (\<not> cr \<and> cl) (Nd ml cl m cr (Nd mr cr e (\<not> er) xr))))"
    by blast
  obtain h5 rt5 where h5: "RB_ROTATE_LEFT (rt3, h4) a = Some ((rt5, h5), m)"
      "rb_rep H h5 rt5 (plug c (Nd (Nd l False a (\<not> cr \<and> cl) ml) cl m cr (Nd mr cr e (\<not> er) xr)))"
    using rotate_left [OF h4(2)] by auto
  obtain h6 where h6: "RB_CLEAR_RED h5 m = Some h6"
      "rb_rep H h6 rt5 (plug c (Nd (Nd l False a (\<not> cr \<and> cl) ml) False m False (Nd mr cr e (\<not> er) xr)))"
    using focus_write(3) [OF h5(2)] by auto
  show ?thesis using focus_read [OF assms] focus_read(4) [of H h1 rt c] focus_read [OF h1(2)]
      focus_read [OF h3(2)] h1 h2(1) h3(1) h4(1) h5(1) h6
    by (simp add: insert_color_right_def)
qed

lemma child_read:
  assumes "rb_rep H h rt (plug (f # c) t)" and "t \<noteq> Tip"
  shows "RB_PARENT h (rootp t) = Some (holep (f # c))"
  using assms focus_read(3) [of H h rt "f # c"] by (cases t) auto

lemma right_child_differs:
  assumes "rb_rep H h rt (plug c (Nd l rl a rr t))" and "l \<noteq> Tip \<or> t \<noteq> Tip"
  shows "rootp l \<noteq> rootp t"
  using assms by (cases l; cases t) (auto simp: rb_rep_plug)

lemma rotate_insert_left_cases:
  assumes "rotate_insert_left t a r = Some u"
  shows "(\<exists>xl el e xr. t = Nd xl el e True xr \<and> u = Nd xl False e False (Nd xr False a False r))
    \<or> (\<exists>xl el e ml cl m cr mr. t = Nd xl el e False (Nd ml cl m cr mr)
         \<and> u = Nd (Nd xl (\<not> el) e cl ml) False m False (Nd mr (\<not> cl \<and> cr) a False r))"
  using assms by (cases "(t, a, r)" rule: rotate_insert_left.cases) auto

lemma rotate_insert_right_cases:
  assumes "rotate_insert_right l a t = Some u"
  shows "(\<exists>xl e er xr. t = Nd xl True e er xr \<and> u = Nd (Nd l False a False xl) False e False xr)
    \<or> (\<exists>ml cl m cr mr e er xr. t = Nd (Nd ml cl m cr mr) False e er xr
         \<and> u = Nd (Nd l False a (\<not> cr \<and> cl) ml) False m False (Nd mr cr e (\<not> er) xr))"
  using assms by (cases "(l, a, t)" rule: rotate_insert_right.cases) auto

lemma insert_color_refine:
  assumes "rb_rep H h rt (plug c t)" "t \<noteq> Tip" "fix_insert c t = Some u"
  shows "\<exists>h' rt'. RB_INSERT_COLOR (rt, h) (rootp t) = Some (rt', h') \<and> rb_rep H h' rt' u"
  using assms
proof (induction c t arbitrary: h rule: fix_insert.induct)
  case (1 t)
  then obtain l rl a rr r where t: "t = Nd l rl a rr r" by (cases t) auto
  have "rb_rep H h rt (plug [] (Nd l rl a rr r))" using "1.prems" t by simp
  from focus_read(3) [OF this] show ?case using "1.prems" unfolding t
    by (subst RB_INSERT_COLOR.simps) auto
next
  case (2 rl a rr r c t)
  let ?t = "Nd t rl a rr r"
  have rep: "rb_rep H h rt (plug c ?t)" using "2.prems" by simp
  note a = focus_cell(1) [OF rep] focus_read(1) [OF rep]
  have p: "RB_PARENT h (rootp t) = Some a" using child_read [OF "2.prems"(1,2)] by simp
  consider "rl" | "\<not> rl" "\<not> rr" | "\<not> rl" "rr" by blast
  then show ?case
  proof cases
    case 1
    with "2.prems" a p insert_left_done [of H h rt c t a rr r "rootp t"] show ?thesis
      by (subst RB_INSERT_COLOR.simps) auto
  next
    case 2
    with rep obtain h' where step: "insert_color_left (rt, h) a (rootp t) = Some (Inr ((rt, h'), a))"
        "rb_rep H h' rt (plug c (Nd t False a True r))"
      using insert_left_up [of H h rt c t a r "rootp t"] by auto
    with 2 "2.prems" "2.IH" obtain h'' rt' where
      "RB_INSERT_COLOR (rt, h') a = Some (rt', h'')" "rb_rep H h'' rt' u" by fastforce
    with a p step(1) show ?thesis by (subst RB_INSERT_COLOR.simps) simp
  next
    case 3
    with "2.prems" obtain v where v: "rotate_insert_left t a r = Some v" "u = plug c v" by auto
    with 3 rep have "\<exists>h' rt'. insert_color_left (rt, h) a (rootp t) = Some (Inl (rt', h'))
        \<and> rb_rep H h' rt' u"
      using rotate_insert_left_cases [OF v(1)] insert_left_single [of H h rt c]
        insert_left_double [of H h rt c] by fastforce
    with a p show ?thesis by (subst RB_INSERT_COLOR.simps) auto
  qed
next
  case (3 l rl a rr c t)
  let ?t = "Nd l rl a rr t"
  have rep: "rb_rep H h rt (plug c ?t)" using "3.prems" by simp
  note a = focus_cell(1) [OF rep] focus_read(1) [OF rep]
  have p: "RB_PARENT h (rootp t) = Some a" using child_read [OF "3.prems"(1,2)] by simp
  have ne: "rootp l \<noteq> rootp t" using right_child_differs [OF rep] "3.prems"(2) by simp
  consider "rr" | "\<not> rr" "\<not> rl" | "\<not> rr" "rl" by blast
  then show ?case
  proof cases
    case 1
    with "3.prems" a p ne insert_right_done [of H h rt c l rl a t "rootp t"] show ?thesis
      by (subst RB_INSERT_COLOR.simps) auto
  next
    case 2
    with rep obtain h' where step: "insert_color_right (rt, h) a (rootp t) = Some (Inr ((rt, h'), a))"
        "rb_rep H h' rt (plug c (Nd l True a False t))"
      using insert_right_up [of H h rt c l a t "rootp t"] by auto
    with 2 "3.prems" "3.IH" obtain h'' rt' where
      "RB_INSERT_COLOR (rt, h') a = Some (rt', h'')" "rb_rep H h'' rt' u" by fastforce
    with a p ne step(1) show ?thesis by (subst RB_INSERT_COLOR.simps) simp
  next
    case 3
    with "3.prems" obtain v where v: "rotate_insert_right l a t = Some v" "u = plug c v" by auto
    with 3 rep have "\<exists>h' rt'. insert_color_right (rt, h) a (rootp t) = Some (Inl (rt', h'))
        \<and> rb_rep H h' rt' u"
      using rotate_insert_right_cases [OF v(1)] insert_right_single [of H h rt c]
        insert_right_double [of H h rt c] by fastforce
    with a p ne show ?thesis by (subst RB_INSERT_COLOR.simps) auto
  qed
qed

section \<open>The removal loop\<close>

lemma remove_left_done:
  assumes "rb_rep H h rt (plug c (Nd t False a rr r))"
  shows "\<exists>h'. remove_color_left (rt, h) a e = Some (Inl (rt, h'))
     \<and> rb_rep H h' rt (plug c (Nd t True a rr r))"
  using focus_read [OF assms] focus_write(1) [OF assms] by (auto simp: remove_color_left_def)

lemma remove_left_up:
  assumes "rb_rep H h rt (plug c (Nd t True a True r))"
  shows "\<exists>h'. remove_color_left (rt, h) a e = Some (Inr ((rt, h'), a))
     \<and> rb_rep H h' rt (plug c (Nd t True a False r))"
  using focus_read [OF assms] focus_write(2) [OF assms] by (auto simp: remove_color_left_def)

lemma remove_left_recolour:
  assumes "rb_rep H h rt (plug c (Nd t True a False (Nd sl True s True sr)))"
  shows "\<exists>h'. remove_color_left (rt, h) a e = Some (Inr ((rt, h'), a))
     \<and> rb_rep H h' rt (plug c (Nd t True a False (Nd sl False s False sr)))"
  using focus_read [OF assms] focus_read(6) [of H h rt "InR t True a False # c"]
    focus_write(3) [of H h rt "InR t True a False # c" sl True s True sr] assms
  by (auto simp: remove_color_left_def)

lemma remove_left_outer:
  assumes "rb_rep H h rt (plug c (Nd t True a False (Nd sl True s False sr)))"
  shows "\<exists>h' rt'. remove_color_left (rt, h) a e = Some (Inl (rt', h'))
     \<and> rb_rep H h' rt' (plug c (Nd (Nd t False a False sl) True s True sr))"
proof -
  let ?c = "\<lambda>x. InR t x a False # c"
  have rep: "rb_rep H h rt (plug (?c True) (Nd sl True s False sr))" using assms by simp
  obtain h1 where h1: "RB_FLIP_RIGHT h s = Some h1"
      "rb_rep H h1 rt (plug (?c True) (Nd sl True s True sr))"
    using focus_write(2) [OF rep] by auto
  obtain h2 where h2: "RB_FLIP_LEFT h1 a = Some h2"
      "rb_rep H h2 rt (plug c (Nd t False a False (Nd sl True s True sr)))"
    using focus_write(1) [of H h1 rt c t True a False "Nd sl True s True sr"] h1(2) by auto
  obtain h3 rt3 where h3: "RB_ROTATE_LEFT (rt, h2) a = Some ((rt3, h3), s)"
      "rb_rep H h3 rt3 (plug c (Nd (Nd t False a False sl) True s True sr))"
    using rotate_left [OF h2(2)] by auto
  show ?thesis using focus_read [OF assms] focus_read [OF rep] focus_read [OF h1(2)] h1(1) h2(1) h3
    by (simp add: remove_color_left_def)
qed

lemma remove_left_inner:
  assumes "rb_rep H h rt (plug c (Nd t True a False (Nd sl False s False sr)))"
  shows "\<exists>h' rt'. remove_color_left (rt, h) a e = Some (Inl (rt', h'))
     \<and> rb_rep H h' rt' (plug c (Nd (Nd t True a False sl) False s True sr))"
proof -
  have rep: "rb_rep H h rt (plug (InR t True a False # c) (Nd sl False s False sr))"
    using assms by simp
  obtain h1 where h1: "RB_FLIP_RIGHT h s = Some h1"
      "rb_rep H h1 rt (plug (InR t True a False # c) (Nd sl False s True sr))"
    using focus_write(2) [OF rep] by auto
  obtain h2 rt2 where h2: "RB_ROTATE_LEFT (rt, h1) a = Some ((rt2, h2), s)"
      "rb_rep H h2 rt2 (plug c (Nd (Nd t True a False sl) False s True sr))"
    using rotate_left [of H h1 rt c t True a False sl False s True sr] h1(2) by auto
  show ?thesis using focus_read [OF assms] focus_read [OF rep] focus_read [OF h1(2)] h1(1) h2
    by (simp add: remove_color_left_def)
qed

lemma remove_left_double:
  assumes "rb_rep H h rt (plug c (Nd t True a False (Nd (Nd ml cl m cr mr) False s True sr)))"
  shows "\<exists>h' rt'. remove_color_left (rt, h) a e = Some (Inl (rt', h'))
     \<and> rb_rep H h' rt' (plug c (Nd (Nd t False a cl ml) True m True (Nd mr cr s False sr)))"
proof -
  let ?c = "\<lambda>x y. InR t x a y # c"
  have rep: "rb_rep H h rt (plug (?c True False) (Nd (Nd ml cl m cr mr) False s True sr))"
    using assms by simp
  obtain h1 where h1: "RB_FLIP_RIGHT h s = Some h1"
      "rb_rep H h1 rt (plug (?c True False) (Nd (Nd ml cl m cr mr) False s False sr))"
    using focus_write(2) [OF rep] by auto
  obtain h2 where h2: "RB_FLIP_LEFT h1 a = Some h2"
      "rb_rep H h2 rt (plug (?c False False) (Nd (Nd ml cl m cr mr) False s False sr))"
    using focus_write(1) [of H h1 rt c t True a False "Nd (Nd ml cl m cr mr) False s False sr"] h1(2)
    by auto
  obtain h3 rt3 where h3: "RB_ROTATE_RIGHT (rt, h2) s = Some ((rt3, h3), m)"
      "rb_rep H h3 rt3 (plug (?c False False) (Nd ml cl m cr (Nd mr False s False sr)))"
    using rotate_right [OF h2(2)] by auto
  have "\<exists>h4. (if cr then RB_FLIP_LEFT h3 s else Some h3) = Some h4
     \<and> rb_rep H h4 rt3 (plug (?c False False) (Nd ml cl m cr (Nd mr cr s False sr)))"
    using focus_write(1) [of H h3 rt3 "InR ml cl m cr # ?c False False" mr False s False sr] h3(2)
    by (cases cr) auto
  then obtain h4 where h4: "(if cr then RB_FLIP_LEFT h3 s else Some h3) = Some h4"
     "rb_rep H h4 rt3 (plug (?c False False) (Nd ml cl m cr (Nd mr cr s False sr)))" by blast
  have "\<exists>h5. (if cl then RB_FLIP_RIGHT h4 a else Some h4) = Some h5
     \<and> rb_rep H h5 rt3 (plug (?c False cl) (Nd ml cl m cr (Nd mr cr s False sr)))"
    using focus_write(2) [of H h4 rt3 c t False a False "Nd ml cl m cr (Nd mr cr s False sr)"] h4(2)
    by (cases cl) auto
  then obtain h5 where h5: "(if cl then RB_FLIP_RIGHT h4 a else Some h4) = Some h5"
     "rb_rep H h5 rt3 (plug (?c False cl) (Nd ml cl m cr (Nd mr cr s False sr)))" by blast
  obtain h6 where h6: "RB_SET_RED h5 m = Some h6"
     "rb_rep H h6 rt3 (plug (?c False cl) (Nd ml True m True (Nd mr cr s False sr)))"
    using focus_write(4) [OF h5(2)] by auto
  obtain h7 rt7 where h7: "RB_ROTATE_LEFT (rt3, h6) a = Some ((rt7, h7), m)"
      "rb_rep H h7 rt7 (plug c (Nd (Nd t False a cl ml) True m True (Nd mr cr s False sr)))"
    using rotate_left [of H h6 rt3 c t False a cl ml True m True "Nd mr cr s False sr"] h6(2) by auto
  show ?thesis using focus_read [OF assms] focus_read [OF rep] focus_read [OF h1(2)]
      focus_read [OF h3(2)] focus_read [OF h4(2)] h1(1) h2(1) h3(1) h4(1) h5(1) h6(1) h7
    by (simp add: remove_color_left_def)
qed

lemma remove_right_done:
  assumes "rb_rep H h rt (plug c (Nd r rr a False t))"
  shows "\<exists>h'. remove_color_right (rt, h) a e = Some (Inl (rt, h'))
     \<and> rb_rep H h' rt (plug c (Nd r rr a True t))"
  using focus_read [OF assms] focus_write(2) [OF assms] by (auto simp: remove_color_right_def)

lemma remove_right_up:
  assumes "rb_rep H h rt (plug c (Nd r True a True t))"
  shows "\<exists>h'. remove_color_right (rt, h) a e = Some (Inr ((rt, h'), a))
     \<and> rb_rep H h' rt (plug c (Nd r False a True t))"
  using focus_read [OF assms] focus_write(1) [OF assms] by (auto simp: remove_color_right_def)

lemma remove_right_recolour:
  assumes "rb_rep H h rt (plug c (Nd (Nd sr True s True sl) False a True t))"
  shows "\<exists>h'. remove_color_right (rt, h) a e = Some (Inr ((rt, h'), a))
     \<and> rb_rep H h' rt (plug c (Nd (Nd sr False s False sl) False a True t))"
  using focus_read [OF assms] focus_read(6) [of H h rt "InL False a True t # c"]
    focus_write(3) [of H h rt "InL False a True t # c" sr True s True sl] assms
  by (auto simp: remove_color_right_def)

lemma remove_right_outer:
  assumes "rb_rep H h rt (plug c (Nd (Nd sr False s True sl) False a True t))"
  shows "\<exists>h' rt'. remove_color_right (rt, h) a e = Some (Inl (rt', h'))
     \<and> rb_rep H h' rt' (plug c (Nd sr True s True (Nd sl False a False t)))"
proof -
  let ?c = "\<lambda>x. InL False a x t # c"
  have rep: "rb_rep H h rt (plug (?c True) (Nd sr False s True sl))" using assms by simp
  obtain h1 where h1: "RB_FLIP_LEFT h s = Some h1"
      "rb_rep H h1 rt (plug (?c True) (Nd sr True s True sl))"
    using focus_write(1) [OF rep] by auto
  obtain h2 where h2: "RB_FLIP_RIGHT h1 a = Some h2"
      "rb_rep H h2 rt (plug c (Nd (Nd sr True s True sl) False a False t))"
    using focus_write(2) [of H h1 rt c "Nd sr True s True sl" False a True t] h1(2) by auto
  obtain h3 rt3 where h3: "RB_ROTATE_RIGHT (rt, h2) a = Some ((rt3, h3), s)"
      "rb_rep H h3 rt3 (plug c (Nd sr True s True (Nd sl False a False t)))"
    using rotate_right [OF h2(2)] by auto
  show ?thesis using focus_read [OF assms] focus_read [OF rep] focus_read [OF h1(2)] h1(1) h2(1) h3
    by (simp add: remove_color_right_def)
qed

lemma remove_right_inner:
  assumes "rb_rep H h rt (plug c (Nd (Nd sr False s False sl) False a True t))"
  shows "\<exists>h' rt'. remove_color_right (rt, h) a e = Some (Inl (rt', h'))
     \<and> rb_rep H h' rt' (plug c (Nd sr True s False (Nd sl False a True t)))"
proof -
  have rep: "rb_rep H h rt (plug (InL False a True t # c) (Nd sr False s False sl))"
    using assms by simp
  obtain h1 where h1: "RB_FLIP_LEFT h s = Some h1"
      "rb_rep H h1 rt (plug (InL False a True t # c) (Nd sr True s False sl))"
    using focus_write(1) [OF rep] by auto
  obtain h2 rt2 where h2: "RB_ROTATE_RIGHT (rt, h1) a = Some ((rt2, h2), s)"
      "rb_rep H h2 rt2 (plug c (Nd sr True s False (Nd sl False a True t)))"
    using rotate_right [of H h1 rt c sr True s False sl False a True t] h1(2) by auto
  show ?thesis using focus_read [OF assms] focus_read [OF rep] focus_read [OF h1(2)] h1(1) h2
    by (simp add: remove_color_right_def)
qed

lemma remove_right_double:
  assumes "rb_rep H h rt (plug c (Nd (Nd sr True s False (Nd mr cr m cl ml)) False a True t))"
  shows "\<exists>h' rt'. remove_color_right (rt, h) a e = Some (Inl (rt', h'))
     \<and> rb_rep H h' rt' (plug c (Nd (Nd sr False s cr mr) True m True (Nd ml cl a False t)))"
proof -
  let ?c = "\<lambda>x y. InL y a x t # c"
  have rep: "rb_rep H h rt (plug (?c True False) (Nd sr True s False (Nd mr cr m cl ml)))"
    using assms by simp
  obtain h1 where h1: "RB_FLIP_LEFT h s = Some h1"
      "rb_rep H h1 rt (plug (?c True False) (Nd sr False s False (Nd mr cr m cl ml)))"
    using focus_write(1) [OF rep] by auto
  obtain h2 where h2: "RB_FLIP_RIGHT h1 a = Some h2"
      "rb_rep H h2 rt (plug (?c False False) (Nd sr False s False (Nd mr cr m cl ml)))"
    using focus_write(2) [of H h1 rt c "Nd sr False s False (Nd mr cr m cl ml)" False a True t] h1(2)
    by auto
  obtain h3 rt3 where h3: "RB_ROTATE_LEFT (rt, h2) s = Some ((rt3, h3), m)"
      "rb_rep H h3 rt3 (plug (?c False False) (Nd (Nd sr False s False mr) cr m cl ml))"
    using rotate_left [OF h2(2)] by auto
  have "\<exists>h4. (if cr then RB_FLIP_RIGHT h3 s else Some h3) = Some h4
     \<and> rb_rep H h4 rt3 (plug (?c False False) (Nd (Nd sr False s cr mr) cr m cl ml))"
    using focus_write(2) [of H h3 rt3 "InL cr m cl ml # ?c False False" sr False s False mr] h3(2)
    by (cases cr) auto
  then obtain h4 where h4: "(if cr then RB_FLIP_RIGHT h3 s else Some h3) = Some h4"
     "rb_rep H h4 rt3 (plug (?c False False) (Nd (Nd sr False s cr mr) cr m cl ml))" by blast
  have "\<exists>h5. (if cl then RB_FLIP_LEFT h4 a else Some h4) = Some h5
     \<and> rb_rep H h5 rt3 (plug (?c False cl) (Nd (Nd sr False s cr mr) cr m cl ml))"
    using focus_write(1) [of H h4 rt3 c "Nd (Nd sr False s cr mr) cr m cl ml" False a False t] h4(2)
    by (cases cl) auto
  then obtain h5 where h5: "(if cl then RB_FLIP_LEFT h4 a else Some h4) = Some h5"
     "rb_rep H h5 rt3 (plug (?c False cl) (Nd (Nd sr False s cr mr) cr m cl ml))" by blast
  obtain h6 where h6: "RB_SET_RED h5 m = Some h6"
     "rb_rep H h6 rt3 (plug (?c False cl) (Nd (Nd sr False s cr mr) True m True ml))"
    using focus_write(4) [OF h5(2)] by auto
  obtain h7 rt7 where h7: "RB_ROTATE_RIGHT (rt3, h6) a = Some ((rt7, h7), m)"
      "rb_rep H h7 rt7 (plug c (Nd (Nd sr False s cr mr) True m True (Nd ml cl a False t)))"
    using rotate_right [of H h6 rt3 c "Nd sr False s cr mr" True m True ml cl a False t] h6(2) by auto
  show ?thesis using focus_read [OF assms] focus_read [OF rep] focus_read [OF h1(2)]
      focus_read [OF h3(2)] focus_read [OF h4(2)] h1(1) h2(1) h3(1) h4(1) h5(1) h6(1) h7
    by (simp add: remove_color_right_def)
qed

lemma rotate_remove_left_cases:
  assumes "rotate_remove_left t a r = Some u" and "\<not> two_red r"
  shows "(\<exists>sl s sr. r = Nd sl True s False sr \<and> u = Nd (Nd t False a False sl) True s True sr)
    \<or> (\<exists>ml cl m cr mr s sr. r = Nd (Nd ml cl m cr mr) False s True sr
         \<and> u = Nd (Nd t False a cl ml) True m True (Nd mr cr s False sr))
    \<or> (\<exists>sl s sr. r = Nd sl False s False sr \<and> u = Nd (Nd t True a False sl) False s True sr)"
  using assms by (cases "(t, a, r)" rule: rotate_remove_left.cases) auto

lemma rotate_remove_right_cases:
  assumes "rotate_remove_right l a t = Some u" and "\<not> two_red l"
  shows "(\<exists>sl s sr. l = Nd sr False s True sl \<and> u = Nd sr True s True (Nd sl False a False t))
    \<or> (\<exists>ml cl m cr mr s sr. l = Nd sr True s False (Nd mr cr m cl ml)
         \<and> u = Nd (Nd sr False s cr mr) True m True (Nd ml cl a False t))
    \<or> (\<exists>sl s sr. l = Nd sr False s False sl \<and> u = Nd sr True s False (Nd sl False a True t))"
  using assms by (cases "(l, a, t)" rule: rotate_remove_right.cases) auto

lemma holep_NULL: "rb_rep H h rt (plug c t) \<Longrightarrow> holep c = NULL \<longleftrightarrow> c = []"
  by (cases c rule: holep.cases) (auto simp: rb_rep_plug)

text \<open>One round that goes on to the parent, then the rest of the loop.\<close>

lemma remove_loop_up:
  assumes rep: "rb_rep H h rt (plug c t)"
    and "t = Nd l rl a rr r"
    and rest: "c \<noteq> [] \<Longrightarrow> \<exists>h' rt'. remove_color_loop (rt, h) (holep c) (rootp t) = Some (rt', h')
                 \<and> rb_rep H h' rt' u"
    and fix_remove: "fix_remove c t = Some u"
  shows "\<exists>h' rt'. (do {
       parent \<leftarrow> RB_PARENT h a;
       if parent = NULL then Some (rt, h) else remove_color_loop (rt, h) parent a
     }) = Some (rt', h') \<and> rb_rep H h' rt' u"
  using assms focus_read(3) [of H h rt c l rl a rr r] holep_NULL [OF rep] by (cases "c = []") auto

lemma remove_color_loop_refine:
  assumes "rb_rep H h rt (plug c t)" "t = Tip \<longrightarrow> has_sibling c" "fix_remove c t = Some u" "c \<noteq> []"
  shows "\<exists>h' rt'. remove_color_loop (rt, h) (holep c) (rootp t) = Some (rt', h') \<and> rb_rep H h' rt' u"
  using assms
proof (induction c t arbitrary: h rule: fix_remove.induct)
  case (1 t)
  then show ?case by simp
next
  case (2 rl a rr r c t)
  have rep: "rb_rep H h rt (plug c (Nd t rl a rr r))" using "2.prems" by simp
  have l: "RB_LEFT h a = Some (rootp t)" using focus_read(1) [OF rep] .
  consider "\<not> rl" | "rl" "rr" | "rl" "\<not> rr" "two_red r" | "rl" "\<not> rr" "\<not> two_red r" by blast
  then show ?case
  proof cases
    case 1
    with "2.prems" l rep remove_left_done [of H h rt c t a rr r "rootp t"] show ?thesis
      by (subst remove_color_loop.simps) auto
  next
    case 2
    with rep obtain h' where step: "remove_color_left (rt, h) a (rootp t) = Some (Inr ((rt, h'), a))"
        and rep': "rb_rep H h' rt (plug c (Nd t True a False r))"
      using remove_left_up [of H h rt c t a r "rootp t"] by auto
    have "fix_remove c (Nd t True a False r) = Some u" using "2.prems"(3) 2 by simp
    from remove_loop_up [OF rep' refl _ this] "2.IH"(1) [of h'] 2 this rep' l step
    show ?thesis by (subst remove_color_loop.simps) auto
  next
    case 3
    then obtain sl s sr where r: "r = Nd sl True s True sr" by (cases r) auto
    with 3 rep obtain h' where step: "remove_color_left (rt, h) a (rootp t) = Some (Inr ((rt, h'), a))"
        and rep': "rb_rep H h' rt (plug c (Nd t True a False (Nd sl False s False sr)))"
      using remove_left_recolour [of H h rt c t a sl s sr "rootp t"] by auto
    have f: "fix_remove c (Nd t True a False (Nd sl False s False sr)) = Some u"
      using "2.prems"(3) 3 r by simp
    from remove_loop_up [OF rep' refl _ f] "2.IH"(2) [OF _ _ r, of h'] 3 f rep' l step
    show ?thesis by (subst remove_color_loop.simps) auto
  next
    case 4
    then obtain v where v: "rotate_remove_left t a r = Some v" "u = plug c v"
      using "2.prems"(3) by (cases r) (auto split: if_splits)
    with 4 rep have "\<exists>h' rt'. remove_color_left (rt, h) a (rootp t) = Some (Inl (rt', h'))
        \<and> rb_rep H h' rt' u"
      using rotate_remove_left_cases [OF v(1) 4(3)] remove_left_outer [of H h rt c]
        remove_left_inner [of H h rt c] remove_left_double [of H h rt c] by fastforce
    with l show ?thesis by (subst remove_color_loop.simps) auto
  qed
next
  case (3 l rl a rr c t)
  have rep: "rb_rep H h rt (plug c (Nd l rl a rr t))" using "3.prems" by simp
  have l: "RB_LEFT h a = Some (rootp l)" using focus_read(1) [OF rep] .
  have ne: "rootp l \<noteq> rootp t" using right_child_differs [OF rep] "3.prems"(2) by auto
  consider "\<not> rr" | "rr" "rl" | "rr" "\<not> rl" "two_red l" | "rr" "\<not> rl" "\<not> two_red l" by blast
  then show ?case
  proof cases
    case 1
    with "3.prems" l ne rep remove_right_done [of H h rt c l rl a t "rootp t"] show ?thesis
      by (subst remove_color_loop.simps) auto
  next
    case 2
    with rep obtain h' where step: "remove_color_right (rt, h) a (rootp t) = Some (Inr ((rt, h'), a))"
        and rep': "rb_rep H h' rt (plug c (Nd l False a True t))"
      using remove_right_up [of H h rt c l a t "rootp t"] by auto
    have "fix_remove c (Nd l False a True t) = Some u" using "3.prems"(3) 2 by simp
    from remove_loop_up [OF rep' refl _ this] "3.IH"(1) [of h'] 2 this rep' l ne step
    show ?thesis by (subst remove_color_loop.simps) auto
  next
    case 3
    then obtain sl s sr where l': "l = Nd sl True s True sr" by (cases l) auto
    with 3 rep obtain h' where step: "remove_color_right (rt, h) a (rootp t) = Some (Inr ((rt, h'), a))"
        and rep': "rb_rep H h' rt (plug c (Nd (Nd sl False s False sr) False a True t))"
      using remove_right_recolour [of H h rt c sl s sr a t "rootp t"] by auto
    have f: "fix_remove c (Nd (Nd sl False s False sr) False a True t) = Some u"
      using "3.prems"(3) 3 l' by simp
    from remove_loop_up [OF rep' refl _ f] "3.IH"(2) [OF _ _ l', of h'] 3 f rep' l ne step
    show ?thesis by (subst remove_color_loop.simps) auto
  next
    case 4
    then obtain v where v: "rotate_remove_right l a t = Some v" "u = plug c v"
      using "3.prems"(3) by (cases l) (auto split: if_splits)
    with 4 rep have "\<exists>h' rt'. remove_color_right (rt, h) a (rootp t) = Some (Inl (rt', h'))
        \<and> rb_rep H h' rt' u"
      using rotate_remove_right_cases [OF v(1) 4(3)] remove_right_outer [of H h rt c]
        remove_right_inner [of H h rt c] remove_right_double [of H h rt c] by fastforce
    with l ne show ?thesis by (subst remove_color_loop.simps) auto
  qed
qed

end
