(* ===== verification/Rb_Remove.thy ===== *)
theory Rb_Remove
  imports Rb_Refine
begin

text \<open>
  \<open>RB_REMOVE\<close> and \<open>RB_INSERT\<close> as a whole: unlinking a node, starting the rebalancing, and
  the two operations against \<open>remove_at\<close> and \<open>fix_insert\<close>.
\<close>

section \<open>Starting the removal loop\<close>

lemma RB_REMOVE_COLOR_refine:
  assumes rep: "rb_rep H h rt (plug c t)" and "c \<noteq> []" and s: "start_remove c t = Some u"
  shows "\<exists>h' rt'. RB_REMOVE_COLOR (rt, h) (holep c) (rootp t) = Some (rt', h') \<and> rb_rep H h' rt' u"
proof (cases "t = Tip \<and> \<not> has_sibling c")
  case True
  then obtain rl a rr c' where c: "c = InL rl a rr Tip # c' \<or> c = InR Tip rl a rr # c'"
    by (cases c rule: has_sibling.cases) auto
  with True rep have node: "rb_rep H h rt (plug c' (Nd Tip rl a rr Tip))" by auto
  obtain h1 where h1: "RB_CLEAR_RED h a = Some h1" "rb_rep H h1 rt (plug c' (Nd Tip False a False Tip))"
    using focus_write(3) [OF node] by auto
  have f: "fix_remove c' (Nd Tip False a False Tip) = Some u" using c True s by auto
  have "\<exists>h' rt'. (do {
       parent \<leftarrow> RB_PARENT h1 a;
       if parent = NULL then Some (rt, h1) else remove_color_loop (rt, h1) parent a
     }) = Some (rt', h') \<and> rb_rep H h' rt' u"
    using remove_loop_up [OF h1(2) refl _ f] remove_color_loop_refine [OF h1(2) _ f] by auto
  with c True focus_read(1,2) [OF node] h1(1) show ?thesis by (auto simp: RB_REMOVE_COLOR_def)
next
  case False
  then have f: "fix_remove c t = Some u"
    using s by (cases "(c, t)" rule: start_remove.cases) auto
  have "\<exists>l r. RB_LEFT h (holep c) = Some l \<and> RB_RIGHT h (holep c) = Some r
      \<and> \<not> (l = rootp t \<and> r = rootp t)"
  proof (cases c rule: holep.cases)
    case (2 rl a rr r c')
    with rep have "rb_rep H h rt (plug c' (Nd t rl a rr r))" by simp
    from focus_read(1,2) [OF this] right_child_differs [OF this] 2 False show ?thesis by auto
  next
    case (3 l rl a rr c')
    with rep have "rb_rep H h rt (plug c' (Nd l rl a rr t))" by simp
    from focus_read(1,2) [OF this] right_child_differs [OF this] 3 False show ?thesis by auto
  qed (use assms in simp)
  with remove_color_loop_refine [OF rep _ f \<open>c \<noteq> []\<close>] False show ?thesis
    by (auto simp: RB_REMOVE_COLOR_def)
qed

section \<open>Unlinking\<close>

text \<open>A path below a node, with the parent pointer of its last frame given.\<close>

fun holep_from :: "addr \<Rightarrow> addr path \<Rightarrow> addr" where
  "holep_from p [] = p"
| "holep_from p (f # d) = holep (f # d)"

fun repr_seg :: "(addr \<rightharpoonup> links) \<Rightarrow> addr \<Rightarrow> addr path \<Rightarrow> addr \<Rightarrow> bool" where
  "repr_seg m p [] q \<longleftrightarrow> True"
| "repr_seg m p (InL rl a rr r # d) q \<longleftrightarrow> a \<noteq> NULL \<and> aligned a
     \<and> m a = Some (q, rootp r, pack (holep_from p d) rl rr) \<and> repr m a r \<and> repr_seg m p d a"
| "repr_seg m p (InR l rl a rr # d) q \<longleftrightarrow> a \<noteq> NULL \<and> aligned a
     \<and> m a = Some (rootp l, q, pack (holep_from p d) rl rr) \<and> repr m a l \<and> repr_seg m p d a"

fun topp :: "addr path \<Rightarrow> addr \<Rightarrow> addr" where
  "topp [] q = q"
| "topp (f # d) q = topp d (holep (f # d))"

lemma repr_seg_frame [simp]:
  "a \<notin> set (lefts c) \<Longrightarrow> a \<notin> set (rights c) \<Longrightarrow> repr_seg (m(a \<mapsto> x)) p c q = repr_seg m p c q"
  by (induction c arbitrary: q rule: lefts.induct) auto

lemma holep_append: "holep (d @ c) = holep_from (holep c) d"
  by (cases d rule: holep.cases) auto

lemma repr_path_append:
  "repr_path m (d @ c) q rt \<longleftrightarrow> repr_seg m (holep c) d q \<and> repr_path m c (topp d q) rt"
  by (induction d arbitrary: q rule: lefts.induct) (auto simp: holep_append)

lemma repr_plug_from:
  "repr m p (plug d t) \<longleftrightarrow> repr_seg m p d (rootp t) \<and> repr m (holep_from p d) t"
  by (induction d arbitrary: t rule: lefts.induct) auto

lemma rootp_plug: "rootp (plug d t) = topp d (rootp t)"
  by (induction d arbitrary: t rule: lefts.induct) auto

lemma leftmost_first:
  "repr (lk h) p t \<Longrightarrow> first_path t = Some (d, m, u) \<Longrightarrow> rb_leftmost h (rootp t) = Some m"
proof (induction t arbitrary: p d m u rule: first_path.induct)
  case (1 rl a rr r)
  then show ?case by (subst rb_leftmost.simps) (auto simp: heap_simps)
next
  case (2 x1 x2 x3 x4 x5 rl a rr r)
  then show ?case by (subst rb_leftmost.simps) (auto simp: heap_simps)
qed simp

text \<open>What unlinking has to establish: the remaining nodes form the new tree.\<close>

definition unlinked :: "'a heap \<Rightarrow> 'a heap \<Rightarrow> addr \<Rightarrow> addr rtree \<Rightarrow> addr list \<Rightarrow> bool" where
  "unlinked h h' rt' t ns \<longleftrightarrow> rb_rep h' h' rt' t \<and> pay h' = pay h
     \<and> (\<forall>b. b \<notin> set ns \<longrightarrow> lk h' b = lk h b)"

lemma unlink_left_null:
  assumes "rb_rep H h rt (plug c (Nd Tip rl a rr r))"
  shows "\<exists>h' rt'. rb_unlink (rt, h) a = Some ((rt', h'), holep c, rootp r)
     \<and> unlinked h h' rt' (plug c r) (nodes (plug c (Nd Tip rl a rr r)))"
  using assms unfolding unlinked_def rb_rep_plug
  by (cases c rule: holep.cases; cases r)
    (auto simp: rb_unlink_def RB_SWAP_CHILD_def heap_simps pack_simps rootp_neq)

lemma unlink_right_null:
  assumes "rb_rep H h rt (plug c (Nd l rl a rr Tip))" and "l \<noteq> Tip"
  shows "\<exists>h' rt'. rb_unlink (rt, h) a = Some ((rt', h'), holep c, rootp l)
     \<and> unlinked h h' rt' (plug c l) (nodes (plug c (Nd l rl a rr Tip)))"
  using assms unfolding unlinked_def rb_rep_plug
  by (cases c rule: holep.cases; cases l)
    (auto simp: rb_unlink_def RB_SWAP_CHILD_def heap_simps pack_simps rootp_neq)

text \<open>The successor of the node is its right child.\<close>

lemma unlink_right_child:
  assumes "rb_rep H h rt (plug c (Nd l rl a rr (Nd Tip bl m br u)))" and "l \<noteq> Tip"
  shows "\<exists>h' rt'. rb_unlink (rt, h) a = Some ((rt', h'), m, rootp u)
     \<and> unlinked h h' rt' (plug (InR l rl m rr # c) u)
          (nodes (plug c (Nd l rl a rr (Nd Tip bl m br u))))"
  using assms unfolding unlinked_def rb_rep_plug
  by (cases c rule: holep.cases; cases l; cases u)
    (auto simp: rb_unlink_def RB_SWAP_CHILD_def heap_simps pack_simps rootp_neq)

text \<open>For the remaining case: a part of the heap whose nodes keep their links.\<close>

lemma repr_agree: "\<forall>b \<in> set (nodes t). m' b = m b \<Longrightarrow> repr m p t \<Longrightarrow> repr m' p t"
  by (induction t arbitrary: p) auto

lemma repr_seg_agree:
  "\<forall>b \<in> set (lefts c @ rights c). m' b = m b \<Longrightarrow> repr_seg m p c q \<Longrightarrow> repr_seg m' p c q"
  by (induction c arbitrary: q rule: lefts.induct) (auto intro: repr_agree)

lemma repr_path_agree:
  "\<forall>b \<in> set (lefts c @ rights c). m' b = m b \<Longrightarrow> repr_path m c q rt \<Longrightarrow> repr_path m' c q rt"
  by (induction c arbitrary: q rule: lefts.induct) (auto intro: repr_agree)

lemma swap_child:
  assumes "repr_path (lk h) c a rt" and "lk h a = Some (x, y, pack (holep c) rl rr)" and "a \<noteq> NULL"
    and "a \<notin> set (lefts c @ rights c)" and "distinct (lefts c @ rights c)"
  shows "\<exists>h' rt'. RB_SWAP_CHILD (rt, h) a e = Some (rt', h') \<and> repr_path (lk h') c e rt'
     \<and> pay h' = pay h \<and> (\<forall>b. b \<notin> set (lefts c @ rights c) \<longrightarrow> lk h' b = lk h b)"
  using assms
  by (cases c rule: holep.cases) (auto simp: RB_SWAP_CHILD_def heap_simps pack_simps rootp_neq)

lemma set_child_parent:
  assumes "repr (lk h) p t" and "aligned p" and "distinct (nodes t)"
  shows "\<exists>h'. (if rootp t \<noteq> NULL then RB_SET_PARENT h (rootp t) p' else Some h) = Some h'
     \<and> repr (lk h') p' t \<and> pay h' = pay h \<and> (\<forall>b. b \<notin> set (nodes t) \<longrightarrow> lk h' b = lk h b)"
  using assms by (cases t) (auto simp: heap_simps pack_simps)

text \<open>The successor is further down, at the end of the left spine of the right child.\<close>

lemma unlink_deep_first:
  assumes rep: "rb_rep H h rt (plug c (Nd l rl a rr (Nd t x b y R)))" and l: "l \<noteq> Tip" and t: "t \<noteq> Tip"
    and fp: "first_path t = Some ([], m, u)"
  shows "\<exists>h' rt'. rb_unlink (rt, h) a = Some ((rt', h'), b, rootp u)
     \<and> unlinked h h' rt' (plug (InL x b y R # InR l rl m rr # c) u)
          (nodes (plug c (Nd l rl a rr (Nd t x b y R))))"
proof -
  obtain bl br where td: "t = Nd Tip bl m br u" using first_path_plug [OF fp] by auto
  have "repr (lk h) b t" using rep by (simp add: rb_rep_plug)
  then have lm: "rb_leftmost h (rootp t) = Some m" using fp by (rule leftmost_first)
  from l obtain l1 l2 k l3 l4 where lk: "l = Nd l1 l2 k l3 l4" by (cases l) auto
  show ?thesis using rep lm unfolding unlinked_def rb_rep_plug td lk
      by (cases c rule: holep.cases; cases u)
        (auto simp: rb_unlink_def RB_SWAP_CHILD_def heap_simps pack_simps rootp_neq)
qed

lemma unlink_deep_spine:
  assumes rep: "rb_rep H h rt (plug c (Nd l rl a rr (Nd t x b y R)))" and l: "l \<noteq> Tip" and t: "t \<noteq> Tip"
    and fp: "first_path t = Some (InL f1 q f2 X # d, m, u)"
  shows "\<exists>h' rt'. rb_unlink (rt, h) a = Some ((rt', h'), q, rootp u)
     \<and> unlinked h h' rt' (plug (InL f1 q f2 X # d @ InL x b y R # InR l rl m rr # c) u)
          (nodes (plug c (Nd l rl a rr (Nd t x b y R))))"
proof -
  obtain bl br where td: "t = plug (InL f1 q f2 X # d) (Nd Tip bl m br u)"
    using first_path_plug [OF fp] by blast
  have "repr (lk h) b t" using rep by (simp add: rb_rep_plug)
  then have lm: "rb_leftmost h (rootp t) = Some m" using fp by (rule leftmost_first)
  have t0: "rootp t \<noteq> NULL" using \<open>repr (lk h) b t\<close> t repr_rootp by blast
  have ld: "lefts d = []" using first_path_nodes [OF fp] by simp
  from l obtain l1 l2 k l3 l4 where lk: "l = Nd l1 l2 k l3 l4" by (cases l) auto
  let ?N = "plug c (Nd l rl a rr (Nd t x b y R))"
  have N: "nodes ?N = lefts c @ nodes l1 @ k # nodes l4 @ a # m # nodes u @ q # nodes X
      @ rights d @ b # nodes R @ rights c" by (simp add: td lk ld)
  have D: "distinct (lefts c @ nodes l1 @ k # nodes l4 @ a # m # nodes u @ q # nodes X
      @ rights d @ b # nodes R @ rights c)" using rep unfolding rb_rep_def N by blast
  have ne: "k \<noteq> a" "k \<noteq> m" "k \<noteq> q" "k \<noteq> b" "a \<noteq> m" "a \<noteq> q" "a \<noteq> b" "m \<noteq> q" "m \<noteq> b" "q \<noteq> b"
    using D by simp_all
  note ne = ne ne [symmetric] and D' = D [simplified]
  have dc: "distinct (lefts c @ rights c)" "a \<notin> set (lefts c @ rights c)" and du: "distinct (nodes u)"
    using D by (simp_all add: Int_Un_distrib)
  have rp: "repr_path (lk h) c a rt" "repr (lk h) (holep c) (Nd l rl a rr (Nd t x b y R))"
    using rep by (simp_all only: rb_rep_plug rootp.simps)
  have cells: "repr_path (lk h) c a rt" "aligned (holep c)" "a \<noteq> NULL" "aligned a"
      "lk h a = Some (k, b, pack (holep c) rl rr)"
      "k \<noteq> NULL" "aligned k" "lk h k = Some (rootp l1, rootp l4, pack a l2 l3)"
      "repr (lk h) k l1" "repr (lk h) k l4"
      "b \<noteq> NULL" "aligned b" "lk h b = Some (rootp t, rootp R, pack a x y)" "repr (lk h) b R"
      "q \<noteq> NULL" "aligned q" "lk h q = Some (m, rootp X, pack (holep_from b d) f1 f2)"
      "repr (lk h) q X" "repr_seg (lk h) b d q"
      "m \<noteq> NULL" "aligned m" "lk h m = Some (NULL, rootp u, pack q bl br)" "repr (lk h) m u"
    using rp repr_path_aligned [OF rp(1)] unfolding td lk by (simp_all add: repr_plug_from)
  define h4 where "h4 = put (put (put (put h q (rootp u, rootp X, pack (holep_from b d) f1 f2))
      b (rootp t, rootp R, pack m x y)) k (rootp l1, rootp l4, pack m l2 l3))
      m (k, b, pack (holep c) rl rr)"
  have h4: "lk h4 = (lk h)(q \<mapsto> (rootp u, rootp X, pack (holep_from b d) f1 f2),
      b \<mapsto> (rootp t, rootp R, pack m x y), k \<mapsto> (rootp l1, rootp l4, pack m l2 l3),
      m \<mapsto> (k, b, pack (holep c) rl rr))" "pay h4 = pay h"
    using D cells by (simp_all add: h4_def)
  have "repr_path (lk h4) c a rt" "lk h4 a = Some (k, b, pack (holep c) rl rr)"
    using ne D' cells by (simp_all add: h4)
  from swap_child [OF this cells(3) dc(2,1), of m] obtain h5 rt5 where
    h5: "RB_SWAP_CHILD (rt, h4) a m = Some (rt5, h5)" "repr_path (lk h5) c m rt5" "pay h5 = pay h4"
      "\<forall>z. z \<notin> set (lefts c @ rights c) \<longrightarrow> lk h5 z = lk h4 z"
    by blast
  have same5: "\<forall>z. z \<notin> set (lefts c @ rights c @ [q, b, k, m]) \<longrightarrow> lk h5 z = lk h z"
    using h5(4) by (simp add: h4)
  have "repr (lk h5) m u" using D by (intro repr_agree [OF _ cells(23)]) (use same5 in auto)
  from set_child_parent [OF this cells(21) du, of q] obtain h6 where
    h6: "(if rootp u \<noteq> NULL then RB_SET_PARENT h5 (rootp u) q else Some h5) = Some h6"
      "repr (lk h6) q u" "pay h6 = pay h5" "\<forall>z. z \<notin> set (nodes u) \<longrightarrow> lk h6 z = lk h5 z"
    by blast
  have same: "\<forall>z. z \<notin> set (lefts c @ rights c @ [q, b, k, m] @ nodes u) \<longrightarrow> lk h6 z = lk h z"
    using h6(4) same5 by simp
  have cells6: "lk h6 q = Some (rootp u, rootp X, pack (holep_from b d) f1 f2)"
     "lk h6 b = Some (rootp t, rootp R, pack m x y)" "lk h6 k = Some (rootp l1, rootp l4, pack m l2 l3)"
     "lk h6 m = Some (k, b, pack (holep c) rl rr)"
    using D' ne h5(4) h6(4) by (simp_all add: h4)
  have "rb_unlink (rt, h) a = Some ((rt5, h6), q, rootp u)"
    using cells ne D' lm t0 h5(1) [unfolded h4_def] h6(1)
    by (simp add: rb_unlink_def td lk heap_simps pack_simps)
  moreover have "rb_rep h6 h6 rt5 (plug (InL f1 q f2 X # d @ InL x b y R # InR l rl m rr # c) u)"
  proof -
    have keep: "\<And>z. z \<in> set (nodes X @ nodes R @ nodes l1 @ nodes l4 @ rights d) \<Longrightarrow> lk h6 z = lk h z"
      using D same by auto
    have "repr (lk h6) q X" "repr (lk h6) b R" "repr (lk h6) k l1" "repr (lk h6) k l4"
      using cells keep by (auto intro: repr_agree)
    moreover have "repr_seg (lk h6) b d q"
      using cells keep ld by (auto intro: repr_seg_agree)
    moreover have "repr_path (lk h6) c m rt5"
      by (rule repr_path_agree [OF _ h5(2)]) (use D h6(4) in auto)
    moreover have "distinct (nodes (plug (InL f1 q f2 X # d @ InL x b y R # InR l rl m rr # c) u))"
      using D ld by (simp add: lk lefts_append rights_append)
    ultimately show ?thesis using cells cells6 h6(2)
      by (simp add: rb_rep_plug repr_path_append holep_append lk rootp_plug td)
  qed
  moreover have "pay h6 = pay h" using h6(3) h5(3) h4(2) by simp
  moreover have "\<forall>z. z \<notin> set (nodes ?N) \<longrightarrow> lk h6 z = lk h z"
    unfolding N using same by simp
  ultimately show ?thesis unfolding unlinked_def by blast
qed

section \<open>\<open>RB_REMOVE\<close> and \<open>RB_INSERT\<close>\<close>

text \<open>The three shapes together: the hole left behind, and what fills it.\<close>

lemma unlink_refine:
  assumes rep: "rb_rep H h rt (plug c (Nd l rl a rr r))" and u: "remove_at c (Nd l rl a rr r) = Some u"
  shows "\<exists>h' rt' c' t'. rb_unlink (rt, h) a = Some ((rt', h'), holep c', rootp t')
     \<and> unlinked h h' rt' (plug c' t') (nodes (plug c (Nd l rl a rr r)))
     \<and> start_remove c' t' = Some u"
proof -
  consider "l = Tip" | "l \<noteq> Tip" "r = Tip" | bl m br v where "l \<noteq> Tip" "r = Nd Tip bl m br v"
    | t x b y R where "l \<noteq> Tip" "r = Nd t x b y R" "t \<noteq> Tip"
    by (cases r rule: first_path.cases) auto
  then show ?thesis
  proof cases
    case 1
    with u have "start_remove c r = Some u" by simp
    with 1 rep unlink_left_null [of H h rt c rl a rr r] show ?thesis by blast
  next
    case 2
    with u have "start_remove c l = Some u" by (cases l) auto
    with 2 rep unlink_right_null [of H h rt c l rl a rr] show ?thesis by blast
  next
    case 3
    with u have s: "start_remove (InR l rl m rr # c) v = Some u" by (cases l) auto
    from unlink_right_child [of H h rt c l rl a rr bl m br v] 3 rep obtain h' rt' where
      "rb_unlink (rt, h) a = Some ((rt', h'), m, rootp v)"
      "unlinked h h' rt' (plug (InR l rl m rr # c) v) (nodes (plug c (Nd l rl a rr r)))" by blast
    with s show ?thesis by (intro exI [of _ h'] exI [of _ rt'] exI [of _ "InR l rl m rr # c"] exI [of _ v]) simp
  next
    case 4
    obtain d m v where fp: "first_path t = Some (d, m, v)" using first_path_total 4(3) by blast
    let ?c = "d @ InL x b y R # InR l rl m rr # c"
    from 4 fp u have s: "start_remove ?c v = Some u" by (cases l; cases t) auto
    have "\<exists>h' rt'. rb_unlink (rt, h) a = Some ((rt', h'), holep ?c, rootp v)
       \<and> unlinked h h' rt' (plug ?c v) (nodes (plug c (Nd l rl a rr r)))"
    proof (cases d rule: lefts.cases)
      case 1
      with 4 rep fp unlink_deep_first [of H h rt c l rl a rr t x b y R m v] show ?thesis by simp
    next
      case (2 f1 q f2 X d')
      with 4 rep fp unlink_deep_spine [of H h rt c l rl a rr t x b y R f1 q f2 X d' m v]
      show ?thesis by simp
    next
      case (3 l' rl' a' rr' d')
      with first_path_nodes [OF fp] show ?thesis by simp
    qed
    with s show ?thesis by blast
  qed
qed

lemma RB_REMOVE_refine:
  assumes rep: "rb_rep H h rt (plug c (Nd l rl a rr r))" and u: "remove_at c (Nd l rl a rr r) = Some u"
  shows "\<exists>h' rt'. RB_REMOVE (rt, h) a = Some ((rt', h'), a)
     \<and> unlinked h h' rt' u (nodes (plug c (Nd l rl a rr r)))"
proof -
  obtain h1 rt1 c' t' where step: "rb_unlink (rt, h) a = Some ((rt1, h1), holep c', rootp t')"
      and un: "unlinked h h1 rt1 (plug c' t') (nodes (plug c (Nd l rl a rr r)))"
      and s: "start_remove c' t' = Some u"
    using unlink_refine [OF assms] by blast
  from un have rep1: "rb_rep h1 h1 rt1 (plug c' t')" by (simp add: unlinked_def)
  have "\<exists>h2 rt2. (if holep c' \<noteq> NULL then RB_REMOVE_COLOR (rt1, h1) (holep c') (rootp t') else Some (rt1, h1))
      = Some (rt2, h2) \<and> rb_rep h1 h2 rt2 u"
  proof (cases "c' = []")
    case True
    with s have "t' = u" by (cases "(c', t')" rule: start_remove.cases) auto
    with True rep1 show ?thesis by simp
  next
    case False
    then show ?thesis using RB_REMOVE_COLOR_refine [OF rep1 False s] holep_NULL [OF rep1] by simp
  qed
  then obtain h2 rt2 where color: "(if holep c' \<noteq> NULL
      then RB_REMOVE_COLOR (rt1, h1) (holep c') (rootp t') else Some (rt1, h1)) = Some (rt2, h2)"
    and rep2: "rb_rep h1 h2 rt2 u" by blast
  have nodes: "set (nodes u) \<subseteq> set (nodes (plug c (Nd l rl a rr r)))"
    using nodes_remove_at [OF u] by auto
  have "lk h2 z = lk h z" if z: "z \<notin> set (nodes (plug c (Nd l rl a rr r)))" for z
  proof -
    from z nodes have "z \<notin> set (nodes u)" by blast
    then have "lk h2 z = lk h1 z" using rep2 unfolding rb_rep_def by blast
    also have "\<dots> = lk h z" using un z unfolding unlinked_def by blast
    finally show ?thesis .
  qed
  moreover have "rb_rep h2 h2 rt2 u" "pay h2 = pay h"
    using rep2 un by (simp_all add: rb_rep_def unlinked_def)
  ultimately show ?thesis using step color by (simp add: RB_REMOVE_def unlinked_def)
qed

text \<open>The place a search ends in, with \<open>f\<close> the comparison of the key with a node.\<close>

fun find_path :: "('a \<Rightarrow> int) \<Rightarrow> 'a path \<Rightarrow> 'a rtree \<Rightarrow> 'a + 'a path" where
  "find_path f c Tip = Inr c"
| "find_path f c (Nd l rl a rr r) =
     (if f a < 0 then find_path f (InL rl a rr r # c) l
      else if f a > 0 then find_path f (InR l rl a rr # c) r
      else Inl a)"

fun side_ok :: "'a path \<Rightarrow> int \<Rightarrow> bool" where
  "side_ok [] i = True"
| "side_ok (InL _ _ _ _ # c) i \<longleftrightarrow> i < 0"
| "side_ok (InR _ _ _ _ # c) i \<longleftrightarrow> i > 0"

lemma find_path_plug: "find_path f c t = Inr d \<Longrightarrow> plug d Tip = plug c t"
  by (induction f c t rule: find_path.induct) (auto split: if_splits)

lemma rb_insert_search_refine:
  assumes "repr (lk h) (holep c) t" and "\<forall>a \<in> set (nodes t). \<exists>n. h a = Some n \<and> f a = cmp e n"
    and "side_ok c i"
  shows "(\<forall>a. find_path f c t = Inl a \<longrightarrow>
            rb_insert_search cmp h e (rootp t) (holep c) i = Some (Inl a))
    \<and> (\<forall>d. find_path f c t = Inr d \<longrightarrow> (\<exists>j. side_ok d j \<and>
            rb_insert_search cmp h e (rootp t) (holep c) i = Some (Inr (holep d, j))))"
  using assms
proof (induction f c t arbitrary: i rule: find_path.induct)
  case (1 f c)
  then show ?case by (auto simp: rb_insert_search.simps)
next
  case (2 f c l rl a rr r)
  then obtain n where n: "h a = Some n" "f a = cmp e n" "a \<noteq> NULL"
      "rbe_left n = rootp l" "rbe_right n = rootp r" by (auto simp: lk_def)
  consider "f a < 0" | "f a > 0" | "f a = 0" by linarith
  then show ?case
  proof cases
    case 1
    with 2 n show ?thesis using "2.IH"(1) [OF 1, of "cmp e n"]
      by (subst (1 2) rb_insert_search.simps) (auto simp: rd_def Let_def)
  next
    case 2
    then show ?thesis using n "2.prems" "2.IH"(2) [of "cmp e n"]
      by (subst (1 2) rb_insert_search.simps) (auto simp: rd_def Let_def)
  next
    case 3
    then show ?thesis using n by (subst (1 2) rb_insert_search.simps) (auto simp: rd_def Let_def)
  qed
qed

lemma link_leaf:
  assumes "rb_rep H h rt (plug c Tip)" and "e \<noteq> NULL" and "aligned e" and "h e \<noteq> None"
    and "e \<notin> set (nodes (plug c Tip))" and "side_ok c j"
  shows "\<exists>h1 h2 rt2. RB_SET h e (holep c) = Some h1
     \<and> (if holep c = NULL then Some (e, h1)
         else if j < 0 then do { h \<leftarrow> RB_SET_LEFT h1 (holep c) e; Some (rt, h) }
         else do { h \<leftarrow> RB_SET_RIGHT h1 (holep c) e; Some (rt, h) }) = Some (rt2, h2)
     \<and> rb_rep H h2 rt2 (plug c (Nd Tip False e False Tip))"
proof -
  obtain x y z where "lk h e = Some (x, y, z)" using assms(4) by (auto simp: lk_def)
  then show ?thesis using assms unfolding rb_rep_plug
    by (cases c rule: holep.cases) (auto simp: heap_simps pack_none)
qed

lemma RB_INSERT_refine:
  assumes rep: "rb_rep H h rt t" and e: "e \<noteq> NULL" "aligned e" "h e = Some n" "e \<notin> set (nodes t)"
    and f: "\<forall>a \<in> set (nodes t). \<exists>m. h a = Some m \<and> f a = cmp n m"
    and c: "find_path f [] t = Inr c" and u: "fix_insert c (Nd Tip False e False Tip) = Some u"
  shows "\<exists>h' rt'. RB_INSERT cmp (rt, h) e = Some ((rt', h'), NULL) \<and> rb_rep H h' rt' u"
proof -
  have t: "plug c Tip = t" using find_path_plug [OF c] by simp
  from rep have "repr (lk h) (holep []) t" and rt: "rt = rootp t" by (simp_all add: rb_rep_def)
  from rb_insert_search_refine [where f = f and cmp = cmp and e = n and c = "[]" and i = 0, OF this(1) f] c obtain j where
    search: "side_ok c j" "rb_insert_search cmp h n rt NULL 0 = Some (Inr (holep c, j))"
    by (auto simp: rt)
  from link_leaf [of H h rt c e j] rep e search(1) t obtain h1 h2 rt2 where
    link: "RB_SET h e (holep c) = Some h1"
      "(if holep c = NULL then Some (e, h1)
         else if j < 0 then do { h \<leftarrow> RB_SET_LEFT h1 (holep c) e; Some (rt, h) }
         else do { h \<leftarrow> RB_SET_RIGHT h1 (holep c) e; Some (rt, h) }) = Some (rt2, h2)"
      "rb_rep H h2 rt2 (plug c (Nd Tip False e False Tip))" by auto
  from insert_color_refine [OF link(3) _ u] obtain h3 rt3 where
    "RB_INSERT_COLOR (rt2, h2) e = Some (rt3, h3)" "rb_rep H h3 rt3 u" by auto
  with search link e show ?thesis by (simp add: RB_INSERT_def rd_def)
qed

lemma RB_INSERT_found:
  assumes rep: "rb_rep H h rt t" and e: "e \<noteq> NULL" "h e = Some n"
    and f: "\<forall>a \<in> set (nodes t). \<exists>m. h a = Some m \<and> f a = cmp n m" and c: "find_path f [] t = Inl a"
  shows "RB_INSERT cmp (rt, h) e = Some ((rt, h), a)"
proof -
  from rep have "repr (lk h) (holep []) t" and rt: "rt = rootp t" by (simp_all add: rb_rep_def)
  from rb_insert_search_refine [where f = f and cmp = cmp and e = n and c = "[]" and i = 0, OF this(1) f] c
  have "rb_insert_search cmp h n rt NULL 0 = Some (Inl a)" by (simp add: rt)
  with e show ?thesis by (simp add: RB_INSERT_def rd_def)
qed

end
