(* ===== verification/Rb_Walk.thy ===== *)
theory Rb_Walk
  imports Rb_Remove
begin

text \<open>
  The reading operations of the tree: \<open>RB_FIND\<close>, \<open>RB_NFIND\<close>, \<open>RB_MIN\<close>, \<open>RB_MAX\<close>,
  \<open>RB_NEXT\<close>, \<open>RB_PREV\<close> and the two \<open>FOREACH\<close> loops, each against the list of nodes of the
  tree in order.
\<close>

section \<open>A node of the tree in focus\<close>

lemma node_focus:
  "a \<in> set (nodes t) \<Longrightarrow> \<exists>c l rl rr r. t = plug c (Nd l rl a rr r)"
proof (induction t)
  case (Nd l rl b rr r)
  consider "a \<in> set (nodes l)" | "a = b" | "a \<in> set (nodes r)" using Nd.prems by auto
  then show ?case
  proof cases
    case 1
    then obtain c l' rl' rr' r' where "l = plug c (Nd l' rl' a rr' r')" using Nd.IH(1) by blast
    then have "Nd l rl b rr r = plug (c @ [InL rl b rr r]) (Nd l' rl' a rr' r')"
      by (simp add: plug_append)
    then show ?thesis by blast
  next
    case 2
    then have "Nd l rl b rr r = plug [] (Nd l rl a rr r)" by simp
    then show ?thesis by blast
  next
    case 3
    then obtain c l' rl' rr' r' where "r = plug c (Nd l' rl' a rr' r')" using Nd.IH(2) by blast
    then have "Nd l rl b rr r = plug (c @ [InR l rl b rr]) (Nd l' rl' a rr' r')"
      by (simp add: plug_append)
    then show ?thesis by blast
  qed
qed simp

section \<open>The ends of the tree\<close>

lemma rb_leftmost_refine:
  "repr (lk h) p t \<Longrightarrow> t \<noteq> Tip \<Longrightarrow> rb_leftmost h (rootp t) = Some (first_or_null (nodes t))"
proof (induction t arbitrary: p)
  case (Nd l rl a rr r)
  then show ?case by (subst rb_leftmost.simps) (cases "l = Tip"; auto simp: heap_simps repr_rootp)
qed simp

lemma rb_rightmost_refine:
  "repr (lk h) p t \<Longrightarrow> t \<noteq> Tip \<Longrightarrow> rb_rightmost h (rootp t) = Some (last_or_null (nodes t))"
proof (induction t arbitrary: p)
  case (Nd l rl a rr r)
  then show ?case by (subst rb_rightmost.simps) (cases r; auto simp: heap_simps last_or_null_def)
qed simp

lemma rb_minmax_loop_refine:
  "repr (lk h) p t \<Longrightarrow> rb_minmax_loop h v (rootp t) q =
     Some (if t = Tip then q else if v < 0 then first_or_null (nodes t) else last_or_null (nodes t))"
proof (induction t arbitrary: p q)
  case Tip
  then show ?case by (simp add: rb_minmax_loop.simps)
next
  case (Nd l rl a rr r)
  then show ?case
    by (subst rb_minmax_loop.simps) (auto simp: heap_simps last_or_null_def)
qed

lemma RB_MINMAX_refine:
  assumes "rb_rep H h rt t"
  shows "RB_MIN (rt, h) = Some (first_or_null (nodes t))"
    and "RB_MAX (rt, h) = Some (last_or_null (nodes t))"
  using assms rb_minmax_loop_refine [of h NULL t]
  by (simp_all add: RB_MIN_def RB_MAX_def RB_MINMAX_def rb_rep_def)

section \<open>Neighbours\<close>

lemma rb_up_right_refine:
  assumes "rb_rep H h rt (plug c t)" and "t \<noteq> Tip"
  shows "\<exists>b. rb_up_right h (rootp t) = Some b \<and> RB_PARENT h b = Some (first_or_null (rights c))"
  using assms
proof (induction c arbitrary: t rule: lefts.induct)
  case (1 t)
  then obtain l rl a rr r where t: "t = Nd l rl a rr r" by (cases t) auto
  have "rb_rep H h rt (plug [] (Nd l rl a rr r))" using "1.prems" t by simp
  from focus_read(3) [OF this] show ?case by (subst rb_up_right.simps) (auto simp: t)
next
  case (2 rl a rr r c)
  then have rep: "rb_rep H h rt (plug c (Nd t rl a rr r))" by simp
  have "RB_PARENT h (rootp t) = Some a" using child_read [OF "2.prems"] by simp
  moreover have "rootp t \<noteq> rootp r" using right_child_differs [OF rep] "2.prems"(2) by simp
  ultimately show ?case using focus_read(2) [OF rep] focus_cell(1) [OF rep]
    by (subst rb_up_right.simps) auto
next
  case (3 l rl a rr c)
  then have rep: "rb_rep H h rt (plug c (Nd l rl a rr t))" by simp
  have "RB_PARENT h (rootp t) = Some a" using child_read [OF "3.prems"] by simp
  moreover obtain b where "rb_up_right h a = Some b" "RB_PARENT h b = Some (first_or_null (rights c))"
    using "3.IH" [OF rep] by auto
  ultimately show ?case using focus_read(2) [OF rep] focus_cell(1) [OF rep]
    by (subst rb_up_right.simps) auto
qed

lemma rb_up_left_refine:
  assumes "rb_rep H h rt (plug c t)" and "t \<noteq> Tip"
  shows "\<exists>b. rb_up_left h (rootp t) = Some b \<and> RB_PARENT h b = Some (last_or_null (lefts c))"
  using assms
proof (induction c arbitrary: t rule: lefts.induct)
  case (1 t)
  then obtain l rl a rr r where t: "t = Nd l rl a rr r" by (cases t) auto
  have "rb_rep H h rt (plug [] (Nd l rl a rr r))" using "1.prems" t by simp
  from focus_read(3) [OF this] show ?case by (subst rb_up_left.simps) (auto simp: t)
next
  case (2 rl a rr r c)
  then have rep: "rb_rep H h rt (plug c (Nd t rl a rr r))" by simp
  have "RB_PARENT h (rootp t) = Some a" using child_read [OF "2.prems"] by simp
  moreover obtain b where "rb_up_left h a = Some b" "RB_PARENT h b = Some (last_or_null (lefts c))"
    using "2.IH" [OF rep] by auto
  ultimately show ?case using focus_read(1) [OF rep] focus_cell(1) [OF rep]
    by (subst rb_up_left.simps) auto
next
  case (3 l rl a rr c)
  then have rep: "rb_rep H h rt (plug c (Nd l rl a rr t))" by simp
  have "RB_PARENT h (rootp t) = Some a" using child_read [OF "3.prems"] by simp
  moreover have "rootp l \<noteq> rootp t" using right_child_differs [OF rep] "3.prems"(2) by simp
  ultimately show ?case using focus_read(1) [OF rep] focus_cell(1) [OF rep]
    by (subst rb_up_left.simps) auto
qed

lemma RB_NEXT_refine:
  assumes rep: "rb_rep H h rt (plug c (Nd l rl a rr r))"
  shows "RB_NEXT h a = Some (first_or_null (nodes r @ rights c))"
proof (cases "r = Tip")
  case False
  have "repr (lk h) a r" using rep by (simp add: rb_rep_plug)
  with False have "rb_leftmost h (rootp r) = Some (first_or_null (nodes r))" "rootp r \<noteq> NULL"
    using rb_leftmost_refine repr_rootp by blast+
  with focus_read(2) [OF rep] False show ?thesis by (simp add: RB_NEXT_def)
next
  case True
  from rb_up_right_refine [OF rep] obtain b where
    b: "rb_up_right h a = Some b" "RB_PARENT h b = Some (first_or_null (rights c))" by auto
  show ?thesis
  proof (cases c rule: holep.cases)
    case 1
    with True b focus_read(2,3) [OF rep] show ?thesis by (simp add: RB_NEXT_def)
  next
    case (2 rl' p rr' r' c')
    with rep have rep': "rb_rep H h rt (plug c' (Nd (Nd l rl a rr r) rl' p rr' r'))" by simp
    from 2 True focus_read(2,3) [OF rep] focus_read(1) [OF rep'] focus_cell(1) [OF rep']
    show ?thesis by (simp add: RB_NEXT_def)
  next
    case (3 l' rl' p rr' c')
    with rep have rep': "rb_rep H h rt (plug c' (Nd l' rl' p rr' (Nd l rl a rr r)))" by simp
    from 3 True b focus_read(2,3) [OF rep] focus_read(1) [OF rep'] focus_cell(1) [OF rep']
      right_child_differs [OF rep'] show ?thesis by (auto simp: RB_NEXT_def)
  qed
qed

lemma RB_PREV_refine:
  assumes rep: "rb_rep H h rt (plug c (Nd l rl a rr r))"
  shows "RB_PREV h a = Some (last_or_null (lefts c @ nodes l))"
proof (cases "l = Tip")
  case False
  have "repr (lk h) a l" using rep by (simp add: rb_rep_plug)
  with False have "rb_rightmost h (rootp l) = Some (last_or_null (nodes l))" "rootp l \<noteq> NULL"
    using rb_rightmost_refine repr_rootp by blast+
  with focus_read(1) [OF rep] False show ?thesis by (simp add: RB_PREV_def)
next
  case True
  from rb_up_left_refine [OF rep] obtain b where
    b: "rb_up_left h a = Some b" "RB_PARENT h b = Some (last_or_null (lefts c))" by auto
  show ?thesis
  proof (cases c rule: holep.cases)
    case 1
    with True b focus_read(1,3) [OF rep] show ?thesis by (simp add: RB_PREV_def)
  next
    case (2 rl' p rr' r' c')
    with rep have rep': "rb_rep H h rt (plug c' (Nd (Nd l rl a rr r) rl' p rr' r'))" by simp
    from 2 True b focus_read(1,3) [OF rep] focus_read(2) [OF rep'] focus_cell(1) [OF rep']
      right_child_differs [OF rep'] show ?thesis by (auto simp: RB_PREV_def)
  next
    case (3 l' rl' p rr' c')
    with rep have rep': "rb_rep H h rt (plug c' (Nd l' rl' p rr' (Nd l rl a rr r)))" by simp
    from 3 True focus_read(1,3) [OF rep] focus_read(2) [OF rep'] focus_cell(1) [OF rep']
    show ?thesis by (simp add: RB_PREV_def last_or_null_def)
  qed
qed

section \<open>The loops over all nodes\<close>

lemma rep_not_null: "rb_rep H h rt t \<Longrightarrow> a \<in> set (nodes t) \<Longrightarrow> a \<noteq> NULL"
  using node_focus [of a t] focus_cell(1) by blast

lemma neighbours:
  assumes rep: "rb_rep H h rt t" and split: "nodes t = xs @ a # ys"
  shows "RB_NEXT h a = Some (first_or_null ys)" and "RB_PREV h a = Some (last_or_null xs)"
proof -
  obtain c l rl rr r where t: "t = plug c (Nd l rl a rr r)" using node_focus [of a t] split by auto
  have "distinct (nodes t)" using rep by (simp add: rb_rep_def)
  moreover have "nodes t = (lefts c @ nodes l) @ a # nodes r @ rights c" by (simp add: t)
  ultimately have "xs = lefts c @ nodes l \<and> ys = nodes r @ rights c"
    using split by (metis append_Cons_eq_iff distinct_append not_distinct_conv_prefix
        distinct.simps(2) Un_iff set_append)
  with RB_NEXT_refine RB_PREV_refine rep t
  show "RB_NEXT h a = Some (first_or_null ys)" and "RB_PREV h a = Some (last_or_null xs)"
    by blast+
qed

lemma rb_foreach_from_refine:
  assumes "rb_rep H h rt t" and "nodes t = xs @ ys"
  shows "rb_foreach_from h (first_or_null ys) = Some ys"
  using assms(2)
proof (induction ys arbitrary: xs)
  case Nil
  then show ?case by (simp add: rb_foreach_from.simps)
next
  case (Cons a ys)
  then have "rb_foreach_from h (first_or_null ys) = Some ys" by (intro Cons.IH [of "xs @ [a]"]) simp
  moreover have "a \<noteq> NULL" using rep_not_null [OF assms(1), of a] Cons.prems by simp
  ultimately show ?case using neighbours(1) [OF assms(1) Cons.prems]
    by (simp add: rb_foreach_from.simps [of h a])
qed

lemma rb_foreach_reverse_from_refine:
  assumes "rb_rep H h rt t" and "nodes t = xs @ ys"
  shows "rb_foreach_reverse_from h (last_or_null xs) = Some (rev xs)"
  using assms(2)
proof (induction xs arbitrary: ys rule: rev_induct)
  case Nil
  then show ?case by (simp add: rb_foreach_reverse_from.simps)
next
  case (snoc a xs)
  then have "rb_foreach_reverse_from h (last_or_null xs) = Some (rev xs)"
    by (intro snoc.IH [of "a # ys"]) simp
  moreover have "a \<noteq> NULL" using rep_not_null [OF assms(1), of a] snoc.prems by simp
  ultimately show ?case using neighbours(2) [OF assms(1), of xs a ys] snoc.prems
    by (simp add: rb_foreach_reverse_from.simps [of h a])
qed

lemma RB_FOREACH_refine:
  assumes "rb_rep H h rt t"
  shows "RB_FOREACH (rt, h) = Some (nodes t)" and "RB_FOREACH_REVERSE (rt, h) = Some (rev (nodes t))"
  using RB_MINMAX_refine [OF assms] rb_foreach_from_refine [OF assms, of "[]"]
    rb_foreach_reverse_from_refine [OF assms, of _ "[]"]
  by (simp_all add: RB_FOREACH_def RB_FOREACH_REVERSE_def)

section \<open>Searching\<close>

lemma rb_find_loop_refine:
  assumes "repr (lk h) p t" and "\<forall>a \<in> set (nodes t). \<exists>n. h a = Some n \<and> f a = cmp e n"
  shows "rb_find_loop cmp h e (rootp t) = Some (case find_path f c t of Inl a \<Rightarrow> a | Inr _ \<Rightarrow> NULL)"
  using assms
proof (induction t arbitrary: p c)
  case Tip
  then show ?case by (simp add: rb_find_loop.simps)
next
  case (Nd l rl a rr r)
  then obtain n where "h a = Some n" "f a = cmp e n" "a \<noteq> NULL"
      "rbe_left n = rootp l" "rbe_right n = rootp r" by (auto simp: lk_def)
  with Nd show ?case by (subst rb_find_loop.simps) (auto simp: rd_def)
qed

text \<open>\<open>RB_NFIND\<close> keeps the last node it turned left at: the first that is not below the key.\<close>

lemma rb_nfind_loop_refine:
  assumes "repr (lk h) p t" and "\<forall>a \<in> set (nodes t). \<exists>n. h a = Some n \<and> f a = cmp e n"
    and "sorted_wrt (\<lambda>a b. f a \<le> 0 \<longrightarrow> f b < 0) (nodes t)"
  shows "rb_nfind_loop cmp h e (rootp t) res =
    Some (case filter (\<lambda>a. f a \<le> 0) (nodes t) of [] \<Rightarrow> res | a # _ \<Rightarrow> a)"
  using assms
proof (induction t arbitrary: p res)
  case Tip
  then show ?case by (simp add: rb_nfind_loop.simps)
next
  case (Nd l rl a rr r)
  then obtain n where n: "h a = Some n" "f a = cmp e n" "a \<noteq> NULL"
      "rbe_left n = rootp l" "rbe_right n = rootp r" by (auto simp: lk_def)
  from Nd.prems have l: "\<And>res. rb_nfind_loop cmp h e (rootp l) res =
      Some (case filter (\<lambda>a. f a \<le> 0) (nodes l) of [] \<Rightarrow> res | a # _ \<Rightarrow> a)"
    and r: "\<And>res. rb_nfind_loop cmp h e (rootp r) res =
      Some (case filter (\<lambda>a. f a \<le> 0) (nodes r) of [] \<Rightarrow> res | a # _ \<Rightarrow> a)"
    by (auto intro!: Nd.IH simp: sorted_wrt_append)
  have above: "f a \<ge> 0 \<Longrightarrow> filter (\<lambda>a. f a \<le> 0) (nodes l) = []"
    using Nd.prems(3) by (force simp: sorted_wrt_append filter_empty_conv)
  consider "f a < 0" | "f a > 0" | "f a = 0" by linarith
  then show ?case
    by cases (subst rb_nfind_loop.simps; use n l r above in \<open>auto simp: rd_def split: list.split\<close>)+
qed

end
