(* ===== verification/Rb_Index.thy ===== *)
theory Rb_Index
  imports Rb_Walk
begin

text \<open>
  What the tag tree needs of the tree of \<^verbatim>\<open>include/sys/tree.h\<close>, as an interface: an index that
  keeps nodes in the order of their keys. \<open>ordered_index\<close> states the laws and proves once what
  its clients use; \<open>rb_order\<close> is the contract of the comparison the macros are given; under
  it the pointer programs satisfy the laws (the \<open>sublocale\<close>).
\<close>

section \<open>The interface\<close>

locale ordered_index =
  fixes holds :: "'s \<Rightarrow> addr list \<Rightarrow> bool"
    and key_of :: "'s \<Rightarrow> addr \<Rightarrow> 'k::linorder"
    and allocated :: "'s \<Rightarrow> addr \<Rightarrow> bool"
    and same_nodes :: "'s \<Rightarrow> 's \<Rightarrow> bool"
    and probe_key :: "'q \<Rightarrow> 'k"
    and find_op :: "'s \<Rightarrow> 'q \<Rightarrow> addr option"
    and insert_op :: "'s \<Rightarrow> addr \<Rightarrow> ('s \<times> addr) option"
    and remove_op :: "'s \<Rightarrow> addr \<Rightarrow> ('s \<times> addr) option"
    and min_op :: "'s \<Rightarrow> addr option"
    and max_op :: "'s \<Rightarrow> addr option"
    and each_op :: "'s \<Rightarrow> addr list option"
  assumes holds_sorted: "holds s as \<Longrightarrow> sorted_wrt (<) (map (key_of s) as)"
    and holds_not_null: "holds s as \<Longrightarrow> NULL \<notin> set as"
    and same_key: "same_nodes s s' \<Longrightarrow> key_of s' = key_of s"
    and find_found: "holds s as \<Longrightarrow> a \<in> set as \<Longrightarrow> key_of s a = probe_key q \<Longrightarrow> find_op s q = Some a"
    and find_missing: "holds s as \<Longrightarrow> probe_key q \<notin> key_of s ` set as \<Longrightarrow> find_op s q = Some NULL"
    and insert_new: "holds s as \<Longrightarrow> allocated s a \<Longrightarrow> a \<notin> set as \<Longrightarrow> key_of s a \<notin> key_of s ` set as
      \<Longrightarrow> \<exists>s'. insert_op s a = Some (s', NULL) \<and> same_nodes s s'
            \<and> holds s' (insort_key (key_of s) a as)"
    and insert_old: "holds s as \<Longrightarrow> allocated s a \<Longrightarrow> b \<in> set as \<Longrightarrow> key_of s a = key_of s b
      \<Longrightarrow> insert_op s a = Some (s, b)"
    and remove_member: "holds s as \<Longrightarrow> a \<in> set as
      \<Longrightarrow> \<exists>s'. remove_op s a = Some (s', a) \<and> same_nodes s s' \<and> holds s' (remove1 a as)"
    and min_first: "holds s as \<Longrightarrow> min_op s = Some (first_or_null as)"
    and max_last: "holds s as \<Longrightarrow> max_op s = Some (last_or_null as)"
    and each_all: "holds s as \<Longrightarrow> each_op s = Some as"
begin

lemma holds_distinct: "holds s as \<Longrightarrow> distinct as"
  using holds_sorted [of s as] by (simp add: strict_sorted_iff distinct_map)

lemma holds_key_inj:
  "holds s as \<Longrightarrow> a \<in> set as \<Longrightarrow> b \<in> set as \<Longrightarrow> key_of s a = key_of s b \<Longrightarrow> a = b"
  using holds_sorted [of s as] by (auto simp: strict_sorted_iff distinct_map inj_on_def)

text \<open>The two ends of the index, where the tag tree inserts.\<close>

lemma insert_top:
  assumes h: "holds s as" and "allocated s a" and top: "\<forall>b \<in> set as. key_of s b < key_of s a"
  shows "\<exists>s'. insert_op s a = Some (s', NULL) \<and> same_nodes s s' \<and> holds s' (as @ [a])"
proof -
  have "insort_key (key_of s) a as = as @ [a]"
    using top by (induction as) (auto simp: not_le)
  moreover have "a \<notin> set as" "key_of s a \<notin> key_of s ` set as" using top by auto
  ultimately show ?thesis using insert_new [OF h assms(2)] by simp
qed

lemma insert_bottom:
  assumes h: "holds s as" and "allocated s a" and bot: "\<forall>b \<in> set as. key_of s a < key_of s b"
  shows "\<exists>s'. insert_op s a = Some (s', NULL) \<and> same_nodes s s' \<and> holds s' (a # as)"
proof -
  have "insort_key (key_of s) a as = a # as" using bot by (intro insort_is_Cons) (auto simp: less_imp_le)
  moreover have "a \<notin> set as" "key_of s a \<notin> key_of s ` set as" using bot by auto
  ultimately show ?thesis using insert_new [OF h assms(2)] by simp
qed

lemma max_is_greatest:
  assumes h: "holds s as" and b: "b \<in> set as"
  shows "\<exists>m. max_op s = Some m \<and> m \<in> set as \<and> m \<noteq> NULL \<and> key_of s b \<le> key_of s m"
proof -
  from b obtain xs m where as: "as = xs @ [m]" by (cases as rule: rev_cases) auto
  have "sorted (map (key_of s) as)" using holds_sorted [OF h] by (simp add: strict_sorted_iff)
  then have "key_of s b \<le> key_of s m" using b by (auto simp: as sorted_append)
  with as max_last [OF h] holds_not_null [OF h] show ?thesis by auto
qed

lemma max_empty: "holds s [] \<Longrightarrow> max_op s = Some NULL"
  using max_last [of s "[]"] by simp

lemma find_iff:
  assumes "holds s as"
  shows "\<exists>a. find_op s q = Some a \<and> (a \<noteq> NULL \<longleftrightarrow> probe_key q \<in> key_of s ` set as)
    \<and> (a \<noteq> NULL \<longrightarrow> a \<in> set as \<and> key_of s a = probe_key q)"
proof (cases "probe_key q \<in> key_of s ` set as")
  case True
  then obtain a where a: "a \<in> set as" "key_of s a = probe_key q" by auto
  with find_found [OF assms, of a q] holds_not_null [OF assms] True show ?thesis by auto
next
  case False
  with find_missing [OF assms, of q] show ?thesis by simp
qed

lemma removed_key:
  assumes "holds s as" and "a \<in> set as" and "remove_op s a = Some (s', a)" and "probe_key q = key_of s a"
  shows "find_op s' q = Some NULL"
proof -
  obtain s'' where s'': "remove_op s a = Some (s'', a)" "same_nodes s s''" "holds s'' (remove1 a as)"
    using remove_member [OF assms(1,2)] by blast
  have "key_of s b \<noteq> key_of s a" if "b \<in> set (remove1 a as)" for b
    using that holds_key_inj [OF assms(1)] holds_distinct [OF assms(1)] assms(2) by auto
  with s'' assms(3,4) find_missing [OF s''(3), of q] same_key [OF s''(2)] show ?thesis by fastforce
qed

end

section \<open>The comparison\<close>

text \<open>
  A comparison for the macros: it reads only the payload of the two nodes, through a key in a
  linear order, and its sign is the sign of the comparison of the keys.
\<close>

definition akey :: "('a \<Rightarrow> 'k) \<Rightarrow> 'a rb_state \<Rightarrow> addr \<Rightarrow> 'k" where
  "akey key s a = key (the (pay (snd s) a))"

definition rb_holds :: "('a \<Rightarrow> 'k::linorder) \<Rightarrow> 'a rb_state \<Rightarrow> addr list \<Rightarrow> bool" where
  "rb_holds key s as \<longleftrightarrow> (\<exists>t. rb_rep (snd s) (snd s) (fst s) t \<and> ranked t \<and> nodes t = as
     \<and> sorted_wrt (<) (map (akey key s) as) \<and> (\<forall>a \<in> set as. snd s a \<noteq> None))"

definition rb_allocated :: "'a rb_state \<Rightarrow> addr \<Rightarrow> bool" where
  "rb_allocated s a \<longleftrightarrow> a \<noteq> NULL \<and> aligned a \<and> snd s a \<noteq> None"

definition rb_same :: "'a rb_state \<Rightarrow> 'a rb_state \<Rightarrow> bool" where
  "rb_same s s' \<longleftrightarrow> pay (snd s') = pay (snd s)"

text \<open>Changing the payload of nodes, or anything outside the tree, keeps the tree as long as the
  links and the keys of its nodes stay.\<close>

lemma rb_holds_frame:
  assumes "rb_holds key s as"
    and "\<forall>a \<in> set as. lk h a = lk (snd s) a \<and> akey key (fst s, h) a = akey key s a"
  shows "rb_holds key (fst s, h) as"
proof -
  obtain t where t: "rb_rep (snd s) (snd s) (fst s) t" "ranked t" "nodes t = as"
    "sorted_wrt (<) (map (akey key s) as)" "\<forall>a \<in> set as. snd s a \<noteq> None"
    using assms(1) by (auto simp: rb_holds_def)
  have "repr (lk h) NULL t"
    using repr_agree [of t "lk h" "lk (snd s)" NULL] t(1,3) assms(2) by (simp add: rb_rep_def)
  then have "rb_rep h h (fst s) t" using t(1) by (simp add: rb_rep_def)
  moreover have "map (akey key (fst s, h)) as = map (akey key s) as" using assms(2) by simp
  then have "sorted_wrt (<) (map (akey key (fst s, h)) as)" using t(4) by (simp only:)
  moreover have "\<forall>a \<in> set as. h a \<noteq> None" using t(5) assms(2) dom_lk by metis
  ultimately show ?thesis unfolding rb_holds_def using t by (intro exI [of _ t]) simp
qed

text \<open>What removal does to the tree, whatever the keys.\<close>

lemma remove_structure:
  assumes rep: "rb_rep (snd s) (snd s) (fst s) t" and r: "ranked t" and a: "a \<in> set (nodes t)"
  shows "\<exists>s' u. RB_REMOVE s a = Some (s', a) \<and> rb_rep (snd s') (snd s') (fst s') u \<and> ranked u
    \<and> nodes u = remove1 a (nodes t) \<and> pay (snd s') = pay (snd s)"
proof -
  obtain c l rl rr r' where p: "t = plug c (Nd l rl a rr r')" using node_focus a by metis
  obtain u where u: "remove_at c (Nd l rl a rr r') = Some u" "ranked u"
    using remove_at_ranked r p by metis
  have dist: "distinct (nodes t)" using rep by (simp add: rb_rep_def)
  have nodes_u: "nodes u = remove1 a (nodes t)"
    using nodes_remove_at [OF u(1)] p dist by (auto simp: remove1_append)
  obtain h' rt' where rem: "RB_REMOVE s a = Some ((rt', h'), a)"
      and un: "unlinked (snd s) h' rt' u (nodes t)"
    using RB_REMOVE_refine [of "snd s" "snd s" "fst s", OF rep [unfolded p] u(1)] p by auto
  then have "pay h' = pay (snd s)" "rb_rep h' h' rt' u"
    using dist by (auto simp: unlinked_def rb_rep_def nodes_u)
  then show ?thesis using rem u(2) nodes_u by (intro exI [of _ "(rt', h')"] exI [of _ u]) simp
qed

text \<open>The comparison of a probe with a node of the heap.\<close>

definition against :: "'a cmp \<Rightarrow> 'a rb_entry_scheme \<Rightarrow> 'a rb_state \<Rightarrow> addr \<Rightarrow> int" where
  "against cmp e s a = cmp e (the (snd s a))"

lemma find_path_member:
  "find_path f c t = Inl a \<Longrightarrow> a \<in> set (nodes t) \<and> f a = 0"
  by (induction f c t rule: find_path.induct) (auto split: if_splits)

lemma find_path_split:
  assumes "sorted_wrt (\<lambda>a b. (f a \<le> 0 \<longrightarrow> f b < 0) \<and> (f b \<ge> 0 \<longrightarrow> f a > 0)) (nodes t)"
    and "find_path f c t = Inr d" and "\<forall>a \<in> set (lefts c). f a > (0::int)" and "\<forall>a \<in> set (rights c). f a < 0"
  shows "(\<forall>a \<in> set (lefts d). f a > 0) \<and> (\<forall>a \<in> set (rights d). f a < 0)"
  using assms
proof (induction f c t rule: find_path.induct)
  case (2 f c l rl a rr r)
  from "2.prems"(1) have sl: "sorted_wrt (\<lambda>a b. (f a \<le> 0 \<longrightarrow> f b < 0) \<and> (f b \<ge> 0 \<longrightarrow> f a > 0)) (nodes l)"
    and sr: "sorted_wrt (\<lambda>a b. (f a \<le> 0 \<longrightarrow> f b < 0) \<and> (f b \<ge> 0 \<longrightarrow> f a > 0)) (nodes r)"
    and la: "f a \<ge> 0 \<Longrightarrow> \<forall>b \<in> set (nodes l). f b > 0" and ra: "f a \<le> 0 \<Longrightarrow> \<forall>b \<in> set (nodes r). f b < 0"
    by (simp_all add: sorted_wrt_append)
  consider "f a < 0" | "f a > 0" | "f a = 0" by linarith
  then show ?case
  proof cases
    case 1
    have "\<forall>b \<in> set (nodes r). f b < 0" using ra 1 by simp
    then have "\<forall>b \<in> set (rights (InL rl a rr r # c)). f b < 0" using "2.prems"(4) 1 by (simp add: ball_Un)
    moreover have "find_path f (InL rl a rr r # c) l = Inr d" using "2.prems"(2) 1 by simp
    moreover have "\<forall>b \<in> set (lefts (InL rl a rr r # c)). f b > 0" using "2.prems"(3) by (simp only: lefts.simps)
    ultimately show ?thesis by (intro "2.IH"(1) [OF 1 sl])
  next
    case 2
    have "\<forall>b \<in> set (nodes l). f b > 0" using la 2 by simp
    then have "\<forall>b \<in> set (lefts (InR l rl a rr # c)). f b > 0" using "2.prems"(3) 2 by (simp add: ball_Un)
    moreover have "find_path f (InR l rl a rr # c) r = Inr d" using "2.prems"(2) 2 by simp
    moreover have "\<forall>b \<in> set (rights (InR l rl a rr # c)). f b < 0" using "2.prems"(4) by (simp only: rights.simps)
    moreover have "\<not> f a < 0" using 2 by simp
    ultimately show ?thesis by (intro "2.IH"(2) [OF _ 2 sr])
  next
    case 3
    with "2.prems"(2) show ?thesis by simp
  qed
qed simp

locale rb_order =
  fixes cmp :: "'a cmp" and key :: "'a \<Rightarrow> 'k::linorder"
  assumes cmp_less: "cmp x y < 0 \<longleftrightarrow> key (rb_entry.more x) < key (rb_entry.more y)"
    and cmp_greater: "cmp x y > 0 \<longleftrightarrow> key (rb_entry.more y) < key (rb_entry.more x)"
begin

lemma akey_node: "snd s a = Some n \<Longrightarrow> akey key s a = key (rb_entry.more n)"
  by (simp add: akey_def pay_def)

lemma against_signs:
  assumes "snd s a \<noteq> None"
  shows "against cmp e s a < 0 \<longleftrightarrow> key (rb_entry.more e) < akey key s a"
    and "against cmp e s a > 0 \<longleftrightarrow> akey key s a < key (rb_entry.more e)"
    and "against cmp e s a = 0 \<longleftrightarrow> akey key s a = key (rb_entry.more e)"
proof -
  from assms obtain n where n: "snd s a = Some n" by auto
  then show lt: "against cmp e s a < 0 \<longleftrightarrow> key (rb_entry.more e) < akey key s a"
    and gt: "against cmp e s a > 0 \<longleftrightarrow> akey key s a < key (rb_entry.more e)"
    by (simp_all add: against_def akey_node cmp_less cmp_greater)
  show "against cmp e s a = 0 \<longleftrightarrow> akey key s a = key (rb_entry.more e)"
    using lt gt by (cases "key (rb_entry.more e)" "akey key s a" rule: linorder_cases) auto
qed

lemma against_order:
  assumes "sorted_wrt (<) (map (akey key s) as)" and "\<forall>a \<in> set as. snd s a \<noteq> None"
  shows "sorted_wrt (\<lambda>a b. (against cmp e s a \<le> 0 \<longrightarrow> against cmp e s b < 0)
    \<and> (against cmp e s b \<ge> 0 \<longrightarrow> against cmp e s a > 0)) as"
proof -
  have "sorted_wrt (\<lambda>a b. akey key s a < akey key s b) as"
    using assms(1) by (simp add: sorted_wrt_map)
  then show ?thesis
  proof (rule sorted_wrt_mono_rel [rotated])
    fix a b assume "a \<in> set as" "b \<in> set as" and ab: "akey key s a < akey key s b"
    then have some: "snd s a \<noteq> None" "snd s b \<noteq> None" using assms(2) by auto
    have "against cmp e s a \<le> 0 \<Longrightarrow> against cmp e s b < 0"
      using against_signs [OF some(1), of e] against_signs(1) [OF some(2), of e] ab
      by (metis order_less_le_trans linorder_not_less)
    moreover have "against cmp e s b \<ge> 0 \<Longrightarrow> against cmp e s a > 0"
      using against_signs(2) [OF some(1), of e] against_signs(1) [OF some(2), of e] ab
      by (metis order_less_le_trans linorder_not_less)
    ultimately show "(against cmp e s a \<le> 0 \<longrightarrow> against cmp e s b < 0)
      \<and> (against cmp e s b \<ge> 0 \<longrightarrow> against cmp e s a > 0)" by blast
  qed
qed

lemma against_nodes:
  "\<forall>a \<in> set as. snd s a \<noteq> None \<Longrightarrow> \<forall>a \<in> set as. \<exists>n. snd s a = Some n \<and> against cmp e s a = cmp e n"
  by (auto simp: against_def)

lemma find_path_missing:
  assumes h: "rb_rep (snd s) (snd s) (fst s) t" "sorted_wrt (<) (map (akey key s) (nodes t))"
      "\<forall>a \<in> set (nodes t). snd s a \<noteq> None"
    and new: "key (rb_entry.more e) \<notin> akey key s ` set (nodes t)"
  shows "\<exists>d. find_path (against cmp e s) [] t = Inr d \<and> plug d Tip = t
    \<and> (\<forall>a \<in> set (lefts d). akey key s a < key (rb_entry.more e))
    \<and> (\<forall>a \<in> set (rights d). key (rb_entry.more e) < akey key s a)"
proof (cases "find_path (against cmp e s) [] t")
  case (Inl a)
  then have "a \<in> set (nodes t)" "against cmp e s a = 0" using find_path_member [OF Inl] by auto
  then have "akey key s a = key (rb_entry.more e)" using against_signs(3) h(3) by blast
  then have "key (rb_entry.more e) \<in> akey key s ` set (nodes t)"
    using \<open>a \<in> set (nodes t)\<close> by (metis imageI)
  with new show ?thesis by simp
next
  case (Inr d)
  have pl: "plug d Tip = t" using find_path_plug [OF Inr] by simp
  then have some: "\<forall>a \<in> set (lefts d) \<union> set (rights d). snd s a \<noteq> None"
    using h(3) nodes_plug [of d Tip] by auto
  from find_path_split [OF against_order [OF h(2,3)] Inr]
  have "(\<forall>a \<in> set (lefts d). against cmp e s a > 0) \<and> (\<forall>a \<in> set (rights d). against cmp e s a < 0)"
    by simp
  with some pl Inr show ?thesis using against_signs(1,2) by (metis UnCI)
qed

lemma find_path_found:
  assumes h: "sorted_wrt (<) (map (akey key s) (nodes t))" "\<forall>a \<in> set (nodes t). snd s a \<noteq> None"
    and old: "a \<in> set (nodes t)" "akey key s a = key (rb_entry.more e)"
  shows "find_path (against cmp e s) [] t = Inl a"
proof (cases "find_path (against cmp e s) [] t")
  case (Inl b)
  then have b: "b \<in> set (nodes t)" "against cmp e s b = 0" using find_path_member [OF Inl] by auto
  then have "akey key s b = akey key s a" using against_signs(3) h(2) old by metis
  moreover have "inj_on (akey key s) (set (nodes t))"
    using h(1) by (simp add: strict_sorted_iff distinct_map)
  ultimately have "b = a" using b(1) old(1) by (meson inj_onD)
  with Inl show ?thesis by simp
next
  case (Inr d)
  from find_path_split [OF against_order [OF h] Inr]
  have "(\<forall>a \<in> set (lefts d). against cmp e s a > 0) \<and> (\<forall>a \<in> set (rights d). against cmp e s a < 0)"
    by simp
  moreover have "a \<in> set (lefts d) \<union> set (rights d)"
    using old(1) find_path_plug [OF Inr] nodes_plug [of d Tip] by auto
  moreover have "against cmp e s a = 0" using against_signs(3) h(2) old by blast
  ultimately show ?thesis by (metis Un_iff less_irrefl)
qed

text \<open>The laws.\<close>

lemma rb_holdsD:
  assumes "rb_holds key s as"
  obtains t where "rb_rep (snd s) (snd s) (fst s) t" "ranked t" "nodes t = as"
    "sorted_wrt (<) (map (akey key s) (nodes t))" "\<forall>a \<in> set (nodes t). snd s a \<noteq> None"
  using assms by (auto simp: rb_holds_def)

lemma rep_self: "rb_rep H h rt t \<Longrightarrow> rb_rep h h rt t"
  by (simp add: rb_rep_def)

lemma same_key_of: "pay (snd s') = pay (snd s) \<Longrightarrow> akey key s' = akey key s"
  by (simp add: akey_def fun_eq_iff)

lemma same_alive: "pay h' = pay h \<Longrightarrow> h' a \<noteq> None \<longleftrightarrow> h a \<noteq> None"
  using dom_pay [of h' a] dom_pay [of h a] by auto

lemma find_law_found:
  assumes "rb_holds key s as" "a \<in> set as" "akey key s a = key (rb_entry.more e)"
  shows "RB_FIND cmp s e = Some a"
proof -
  from rb_holdsD [OF assms(1)] obtain t where t: "rb_rep (snd s) (snd s) (fst s) t" "nodes t = as"
    "sorted_wrt (<) (map (akey key s) (nodes t))" "\<forall>a \<in> set (nodes t). snd s a \<noteq> None" by metis
  have "find_path (against cmp e s) [] t = Inl a"
    using find_path_found [OF t(3,4)] assms(2,3) t(2) by blast
  moreover have "rootp t = fst s" "repr (lk (snd s)) NULL t" using t(1) by (simp_all add: rb_rep_def)
  ultimately show ?thesis
    using rb_find_loop_refine [where c = "[]" and p = NULL and cmp = cmp and e = e,
        OF _ against_nodes [OF t(4)]] by (simp add: RB_FIND_def)
qed

lemma find_law_missing:
  assumes "rb_holds key s as" "key (rb_entry.more e) \<notin> akey key s ` set as"
  shows "RB_FIND cmp s e = Some NULL"
proof -
  from rb_holdsD [OF assms(1)] obtain t where t: "rb_rep (snd s) (snd s) (fst s) t" "nodes t = as"
    "sorted_wrt (<) (map (akey key s) (nodes t))" "\<forall>a \<in> set (nodes t). snd s a \<noteq> None" by metis
  obtain d where "find_path (against cmp e s) [] t = Inr d"
    using find_path_missing [OF t(1,3,4)] assms(2) t(2) by blast
  moreover have "rootp t = fst s" "repr (lk (snd s)) NULL t" using t(1) by (simp_all add: rb_rep_def)
  ultimately show ?thesis
    using rb_find_loop_refine [where c = "[]" and p = NULL and cmp = cmp and e = e,
        OF _ against_nodes [OF t(4)]] by (simp add: RB_FIND_def)
qed

lemma insert_law_new:
  assumes h: "rb_holds key s as" and al: "rb_allocated s a" and out: "a \<notin> set as"
    and new: "akey key s a \<notin> akey key s ` set as"
  shows "\<exists>s'. RB_INSERT cmp s a = Some (s', NULL) \<and> rb_same s s'
    \<and> rb_holds key s' (insort_key (akey key s) a as)"
proof -
  from rb_holdsD [OF h] obtain t where t: "rb_rep (snd s) (snd s) (fst s) t" "nodes t = as"
    "sorted_wrt (<) (map (akey key s) (nodes t))" "\<forall>a \<in> set (nodes t). snd s a \<noteq> None" "ranked t" by metis
  obtain e where e: "snd s a = Some e" and a: "a \<noteq> NULL" "aligned a" using al by (auto simp: rb_allocated_def)
  have ke: "akey key s a = key (rb_entry.more e)" using akey_node [of s, OF e] .
  obtain d where d: "find_path (against cmp e s) [] t = Inr d" "plug d Tip = t"
      "\<forall>b \<in> set (lefts d). akey key s b < akey key s a" "\<forall>b \<in> set (rights d). akey key s a < akey key s b"
    using find_path_missing [OF t(1,3,4), of e] new by (auto simp: t(2) ke)
  have "ranked_path d (- 1)" using t(5) d(2) ranked_plug [of d Tip] by simp
  then have "\<exists>u. fix_insert d (Nd Tip False a False Tip) = Some u \<and> ranked u"
    by (rule fix_insert_ranked) (simp_all add: gap_def)
  then obtain u where u: "fix_insert d (Nd Tip False a False Tip) = Some u" "ranked u" by blast
  have nodes_u: "nodes u = insort_key (akey key s) a as"
    using nodes_fix_insert [OF u(1)] insort_between [OF d(3,4)] t(2) d(2) nodes_plug [of d Tip] by simp
  obtain h' rt' where ins: "RB_INSERT cmp s a = Some ((rt', h'), NULL)" "rb_rep (snd s) h' rt' u"
    using RB_INSERT_refine [where f = "against cmp e s" and cmp = cmp and n = e and h = "snd s" and rt = "fst s",
        OF t(1) a e _ against_nodes [OF t(4)] d(1) u(1)] out t(2) by auto
  then have pay: "pay h' = pay (snd s)" by (simp add: rb_rep_def)
  have key': "akey key (rt', h') = akey key s" using pay by (intro same_key_of) simp
  have "sorted (map (akey key s) (insort_key (akey key s) a as))"
    using t(2,3) by (simp add: sorted_insort_key strict_sorted_iff)
  moreover have "distinct (map (akey key s) (insort_key (akey key s) a as))"
    using t(2,3) new out by (auto simp: strict_sorted_iff distinct_map set_insort_key distinct_insort)
  moreover have "\<forall>b \<in> set (insort_key (akey key s) a as). h' b \<noteq> None"
    using t(2,4) e same_alive [OF pay] by (auto simp: set_insort_key)
  ultimately have "rb_holds key (rt', h') (insort_key (akey key s) a as)"
    using rep_self [OF ins(2)] u(2) nodes_u unfolding rb_holds_def key' strict_sorted_iff by auto
  then show ?thesis using ins(1) pay by (auto simp: rb_same_def)
qed

lemma insert_law_old:
  assumes h: "rb_holds key s as" and al: "rb_allocated s a" and old: "b \<in> set as" "akey key s a = akey key s b"
  shows "RB_INSERT cmp s a = Some (s, b)"
proof -
  from rb_holdsD [OF h] obtain t where t: "rb_rep (snd s) (snd s) (fst s) t" "nodes t = as"
    "sorted_wrt (<) (map (akey key s) (nodes t))" "\<forall>a \<in> set (nodes t). snd s a \<noteq> None" by metis
  obtain e where e: "snd s a = Some e" and a: "a \<noteq> NULL" using al by (auto simp: rb_allocated_def)
  have "find_path (against cmp e s) [] t = Inl b"
    using find_path_found [OF t(3,4)] old t(2) akey_node [of s, OF e] by simp
  from RB_INSERT_found [where f = "against cmp e s" and cmp = cmp and n = e and h = "snd s" and rt = "fst s",
      OF t(1) a e against_nodes [OF t(4)] this] show ?thesis by simp
qed

lemma remove_law:
  assumes h: "rb_holds key s as" and a: "a \<in> set as"
  shows "\<exists>s'. RB_REMOVE s a = Some (s', a) \<and> rb_same s s' \<and> rb_holds key s' (remove1 a as)"
proof -
  from rb_holdsD [OF h] obtain t where t: "rb_rep (snd s) (snd s) (fst s) t" "nodes t = as"
    "sorted_wrt (<) (map (akey key s) (nodes t))" "\<forall>a \<in> set (nodes t). snd s a \<noteq> None" "ranked t" by metis
  have dist: "distinct as" using t(1,2) by (simp add: rb_rep_def)
  obtain h' rt' u where rem: "RB_REMOVE s a = Some ((rt', h'), a)" and rep: "rb_rep h' h' rt' u" and u: "ranked u"
    and nodes_u: "nodes u = remove1 a as" and pay: "pay h' = pay (snd s)"
    using remove_structure [OF t(1,5), of a] a t(2) by auto
  have key': "akey key (rt', h') = akey key s" using pay by (intro same_key_of) simp
  have "sorted_wrt (<) (map (akey key s) (remove1 a as))"
    using t(2,3) by (auto simp: strict_sorted_iff sorted_remove1 sorted_map_remove1 distinct_map distinct_remove1 intro: inj_on_subset dest: notin_set_remove1)
  moreover have "\<forall>b \<in> set (remove1 a as). h' b \<noteq> None"
    using t(2,4) same_alive [OF pay] by (auto dest: in_set_remove1 [THEN iffD1, rotated] notin_set_remove1)
  ultimately have "rb_holds key (rt', h') (remove1 a as)"
    using rep u nodes_u unfolding rb_holds_def key' by auto
  then show ?thesis using rem pay by (auto simp: rb_same_def)
qed

end

sublocale rb_order \<subseteq> idx: ordered_index "rb_holds key" "akey key" rb_allocated rb_same
  "\<lambda>e. key (rb_entry.more e)" "RB_FIND cmp" "RB_INSERT cmp" RB_REMOVE RB_MIN RB_MAX RB_FOREACH
proof (unfold_locales, goal_cases)
  case (1 s as)
  then show ?case by (auto simp: rb_holds_def)
next
  case (2 s as)
  then obtain t where "rb_rep (snd s) (snd s) (fst s) t" "nodes t = as" by (elim rb_holdsD)
  then show ?case using rep_not_null [of "snd s" "snd s" "fst s" t NULL] by auto
next
  case (3 s s')
  then show ?case unfolding rb_same_def by (rule same_key_of)
next
  case (4 s as a q)
  then show ?case by (rule find_law_found)
next
  case (5 s as q)
  then show ?case by (rule find_law_missing)
next
  case (6 s as a)
  then show ?case by (rule insert_law_new)
next
  case (7 s as a b)
  then show ?case by (rule insert_law_old)
next
  case (8 s as a)
  then show ?case by (rule remove_law)
next
  case (9 s as)
  then obtain t where "rb_rep (snd s) (snd s) (fst s) t" "nodes t = as" by (elim rb_holdsD)
  then show ?case using RB_MINMAX_refine(1) [of "snd s" "snd s" "fst s" t] by simp
next
  case (10 s as)
  then obtain t where "rb_rep (snd s) (snd s) (fst s) t" "nodes t = as" by (elim rb_holdsD)
  then show ?case using RB_MINMAX_refine(2) [of "snd s" "snd s" "fst s" t] by simp
next
  case (11 s as)
  then obtain t where "rb_rep (snd s) (snd s) (fst s) t" "nodes t = as" by (elim rb_holdsD)
  then show ?case using RB_FOREACH_refine(1) [of "snd s" "snd s" "fst s" t] by simp
qed

end
