(* ===== verification/Types.thy ===== *)
theory Types
  imports Prelude
begin

text \<open>
  The types of tags, \<^verbatim>\<open>src/types.c\<close> and \<^verbatim>\<open>include/types.h\<close>. A \<open>type_t\<close> is a pointer-sized
  word: up to \<open>TAG_LINT\<close> it is the number of a simple type, otherwise the address of a
  \<open>struct tag_array\<close> or a \<open>struct tag_struct\<close>. The memory these structures live in is explicit,
  and so are the answers \<open>malloc\<close> gives.
\<close>

section \<open>Type words and type objects\<close>

datatype tag_type_e = TAG_ERROR | TAG_BOOL | TAG_SINT | TAG_INT | TAG_DINT | TAG_REAL | TAG_LINT
  | TAG_ARRAY | TAG_STRUCT

primrec enum_value :: "tag_type_e \<Rightarrow> nat" where
  "enum_value TAG_ERROR = 0"
| "enum_value TAG_BOOL = 1"
| "enum_value TAG_SINT = 2"
| "enum_value TAG_INT = 3"
| "enum_value TAG_DINT = 4"
| "enum_value TAG_REAL = 5"
| "enum_value TAG_LINT = 6"
| "enum_value TAG_ARRAY = 7"
| "enum_value TAG_STRUCT = 8"

text \<open>\<open>SIMPLE_TYPE\<close>, and the cast back of a word that is not above \<open>TAG_LINT\<close>.\<close>

definition SIMPLE_TYPE :: "tag_type_e \<Rightarrow> addr" where
  "SIMPLE_TYPE e = of_nat (enum_value e)"

definition simple_enum :: "addr \<Rightarrow> tag_type_e" where
  "simple_enum t = (if t = 0 then TAG_ERROR else if t = 1 then TAG_BOOL else if t = 2 then TAG_SINT
     else if t = 3 then TAG_INT else if t = 4 then TAG_DINT else if t = 5 then TAG_REAL else TAG_LINT)"

text \<open>A \<open>char*\<close> that one field owns: its text, \<open>NULL\<close>, or a block that has been freed.\<close>

datatype cstr = CNull | CStr string | CFreed

text \<open>
  What a type word above \<open>TAG_LINT\<close> may point at. \<open>room\<close> is the number of bytes that were
  allocated behind the header of a \<open>tag_struct\<close>; a pair of name and type takes sixteen.
  \<open>Other_object\<close> is any other memory, of which \<open>type_to_enum\<close> reads the first \<open>int\<close>.
\<close>

datatype type_obj =
  Tag_array (member_type: addr) (array_len: "16 word")
| Tag_struct (field_cnt: "16 word") (room: nat) (field_slots: "(cstr \<times> addr) list")
| Other_object c_int

record mem =
  objs :: "addr \<rightharpoonup> type_obj"
  pool :: "addr list"  \<comment> \<open>what the next calls of \<open>malloc\<close> answer\<close>
  stack :: nat  \<comment> \<open>the depth of recursion the C stack has room for\<close>

section \<open>Memory\<close>

text \<open>
  \<open>malloc\<close> answers \<open>NULL\<close> or the address of a new aligned block. Any list of words is a
  possible \<open>pool\<close>: a word that is no such address counts as the answer \<open>NULL\<close>, and so does
  the end of the list.
\<close>

definition fresh_answer :: "mem \<Rightarrow> addr \<Rightarrow> bool" where
  "fresh_answer m a \<longleftrightarrow> a \<noteq> NULL \<and> aligned a \<and> objs m a = None"

definition malloc_object :: "type_obj \<Rightarrow> mem \<Rightarrow> addr \<times> mem" where
  "malloc_object ob m = (case pool m of
       [] \<Rightarrow> (NULL, m)
     | a # as \<Rightarrow> if fresh_answer m a then (a, m\<lparr>pool := as, objs := (objs m)(a \<mapsto> ob)\<rparr>)
                else (NULL, m\<lparr>pool := as\<rparr>))"

text \<open>A block that is kept as a value in its owner: only success or failure is seen.\<close>

definition malloc_value :: "mem \<Rightarrow> bool \<times> mem" where
  "malloc_value m = (case pool m of [] \<Rightarrow> (False, m) | a # as \<Rightarrow> (a \<noteq> NULL, m\<lparr>pool := as\<rparr>))"

definition free_object :: "addr \<Rightarrow> mem \<Rightarrow> stop + mem" where
  "free_object a m = (if a = NULL then Inr m
     else if objs m a = None then Inl (Undef BadFree) else Inr (m\<lparr>objs := (objs m)(a := None)\<rparr>))"

definition strdup :: "cstr \<Rightarrow> mem \<Rightarrow> stop + cstr \<times> mem" where
  "strdup s m = (case s of
       CNull \<Rightarrow> Inl (Undef NullDeref)
     | CFreed \<Rightarrow> Inl (Undef BadPointer)
     | CStr x \<Rightarrow> (case malloc_value m of (ok, m) \<Rightarrow> Inr (if ok then CStr x else CNull, m)))"

definition free_string :: "cstr \<Rightarrow> stop + cstr" where
  "free_string s = (case s of CFreed \<Rightarrow> Inl (Undef BadFree) | CNull \<Rightarrow> Inr CNull | CStr _ \<Rightarrow> Inr CFreed)"

definition load_object :: "mem \<Rightarrow> addr \<Rightarrow> stop + type_obj" where
  "load_object m t = (if t = NULL then Inl (Undef NullDeref) else deref (objs m t))"

text \<open>The casts \<open>(struct tag_array*)(t)\<close> and \<open>(struct tag_struct*)(t)\<close>, followed by a read.\<close>

definition as_array :: "mem \<Rightarrow> addr \<Rightarrow> stop + addr \<times> 16 word" where
  "as_array m t = bindE (load_object m t) (\<lambda>ob. case ob of
     Tag_array mt n \<Rightarrow> Inr (mt, n) | _ \<Rightarrow> Inl (Undef BadPointer))"

definition as_struct :: "mem \<Rightarrow> addr \<Rightarrow> stop + 16 word \<times> nat \<times> (cstr \<times> addr) list" where
  "as_struct m t = bindE (load_object m t) (\<lambda>ob. case ob of
     Tag_struct n r fs \<Rightarrow> Inr (n, r, fs) | _ \<Rightarrow> Inl (Undef BadPointer))"

text \<open>\<open>s->fields[i]\<close>: reading both words of a pair, writing its name, writing its type.\<close>

definition read_field :: "mem \<Rightarrow> addr \<Rightarrow> nat \<Rightarrow> stop + cstr \<times> addr" where
  "read_field m t i = bindE (as_struct m t) (\<lambda>(n, r, fs).
     if 16 * i + 16 \<le> r \<and> i < length fs then Inr (fs ! i) else Inl (Undef OutOfBounds))"

definition write_field_name :: "addr \<Rightarrow> nat \<Rightarrow> cstr \<Rightarrow> mem \<Rightarrow> stop + mem" where
  "write_field_name t i s m = bindE (as_struct m t) (\<lambda>(n, r, fs).
     if 16 * i + 8 \<le> r
     then Inr (m\<lparr>objs := (objs m)(t \<mapsto> Tag_struct n r (fs[i := (s, snd (fs ! i))]))\<rparr>)
     else Inl (Undef OutOfBounds))"

definition write_field_type :: "addr \<Rightarrow> nat \<Rightarrow> addr \<Rightarrow> mem \<Rightarrow> stop + mem" where
  "write_field_type t i u m = bindE (as_struct m t) (\<lambda>(n, r, fs).
     if 16 * i + 16 \<le> r
     then Inr (m\<lparr>objs := (objs m)(t \<mapsto> Tag_struct n r (fs[i := (fst (fs ! i), u)]))\<rparr>)
     else Inl (Undef OutOfBounds))"

definition write_member_type :: "addr \<Rightarrow> addr \<Rightarrow> mem \<Rightarrow> stop + mem" where
  "write_member_type t u m = bindE (as_array m t) (\<lambda>(mt, n).
     Inr (m\<lparr>objs := (objs m)(t \<mapsto> Tag_array u n)\<rparr>))"

section \<open>Operations\<close>

definition type_to_enum :: "mem \<Rightarrow> addr \<Rightarrow> stop + tag_type_e" where
  "type_to_enum m t =
     (if t \<le> SIMPLE_TYPE TAG_LINT then Inr (simple_enum t)
      else bindE (load_object m t) (\<lambda>ob. Inr (case ob of
          Tag_array _ _ \<Rightarrow> TAG_ARRAY
        | Tag_struct _ _ _ \<Rightarrow> TAG_STRUCT
        | Other_object w \<Rightarrow>
            (if w = of_nat (enum_value TAG_ARRAY) then TAG_ARRAY
             else if w = of_nat (enum_value TAG_STRUCT) then TAG_STRUCT else TAG_ERROR))))"

definition type_new_simple :: "tag_type_e \<Rightarrow> addr" where
  "type_new_simple e =
     (if enum_value TAG_BOOL \<le> enum_value e \<and> enum_value e \<le> enum_value TAG_LINT
      then SIMPLE_TYPE e else SIMPLE_TYPE TAG_ERROR)"

text \<open>\<open>type_new_array\<close> and the filling of the fields of a struct call \<open>type_dup\<close>; they take it as
  an argument here, and \<open>type_dup\<close> closes the recursion.\<close>

definition new_array_with :: "(addr \<Rightarrow> mem \<Rightarrow> stop + addr \<times> mem) \<Rightarrow> 16 word \<Rightarrow> addr \<Rightarrow> mem
    \<Rightarrow> stop + addr \<times> mem" where
  "new_array_with dup cnt mt m = (case malloc_object (Tag_array NULL cnt) m of (a, m) \<Rightarrow>
     if a = NULL then Inl Exit
     else bindE (dup mt m) (\<lambda>(mt', m). bindE (write_member_type a mt' m) (\<lambda>m. Inr (a, m))))"

definition blank_struct :: "16 word \<Rightarrow> nat \<Rightarrow> type_obj" where
  "blank_struct cnt r = Tag_struct cnt r (replicate (r div 16) (CNull, NULL))"

fun fill_fields :: "(addr \<Rightarrow> mem \<Rightarrow> stop + addr \<times> mem) \<Rightarrow> (mem \<Rightarrow> nat \<Rightarrow> stop + cstr \<times> addr)
    \<Rightarrow> addr \<Rightarrow> nat list \<Rightarrow> mem \<Rightarrow> stop + mem" where
  "fill_fields dup get new [] m = Inr m"
| "fill_fields dup get new (i # is) m =
     bindE (get m i) (\<lambda>(nm, t).
     bindE (strdup nm m) (\<lambda>(nm', m).
     bindE (write_field_name new i nm' m) (\<lambda>m.
     bindE (dup t m) (\<lambda>(t', m).
     bindE (write_field_type new i t' m) (\<lambda>m.
     fill_fields dup get new is m)))))"

fun type_dup_at :: "nat \<Rightarrow> addr \<Rightarrow> mem \<Rightarrow> stop + addr \<times> mem" where
  "type_dup_at 0 t m = Inl (Undef StackOverflow)"
| "type_dup_at (Suc k) t m = bindE (type_to_enum m t) (\<lambda>e.
     if e = TAG_ARRAY then
       bindE (as_array m t) (\<lambda>(mt, n). new_array_with (type_dup_at k) n mt m)
     else if e = TAG_STRUCT then
       bindE (as_struct m t) (\<lambda>(n, r, fs).
         case malloc_object (blank_struct n (8 * unat n)) m of
           (new, m) \<Rightarrow>
             if new = NULL then Inl Exit
             else bindE (fill_fields (type_dup_at k) (\<lambda>m. read_field m t) new [0..<unat n] m)
               (\<lambda>m. Inr (new, m)))
     else Inr (t, m))"

definition type_dup :: "addr \<Rightarrow> mem \<Rightarrow> stop + addr \<times> mem" where
  "type_dup t m = type_dup_at (stack m) t m"

definition type_new_array :: "16 word \<Rightarrow> addr \<Rightarrow> mem \<Rightarrow> stop + addr \<times> mem" where
  "type_new_array cnt mt m = new_array_with type_dup cnt mt m"

text \<open>The variable arguments of \<open>type_new_struct\<close> are a list of pairs; \<open>va_arg\<close> past its end is
  undefined.\<close>

definition type_new_struct :: "c_int \<Rightarrow> (cstr \<times> addr) list \<Rightarrow> mem \<Rightarrow> stop + addr \<times> mem" where
  "type_new_struct cnt args m =
     (let r = unat (8 + scast cnt * 16 :: size_t) - 8 in
      case malloc_object (blank_struct (ucast cnt) r) m of (s, m) \<Rightarrow>
        if s = NULL then Inl Exit
        else bindE (fill_fields type_dup
            (\<lambda>_ i. if i < length args then Inr (args ! i) else Inl (Undef OutOfBounds))
            s [0..<nat (sint cnt)] m)
          (\<lambda>m. Inr (s, m)))"

fun free_fields :: "(addr \<Rightarrow> mem \<Rightarrow> stop + mem) \<Rightarrow> addr \<Rightarrow> nat list \<Rightarrow> mem \<Rightarrow> stop + mem" where
  "free_fields fr s [] m = Inr m"
| "free_fields fr s (i # is) m =
     bindE (read_field m s i) (\<lambda>(nm, _).
     bindE (free_string nm) (\<lambda>nm'.
     bindE (write_field_name s i nm' m) (\<lambda>m.
     bindE (read_field m s i) (\<lambda>(_, t).
     bindE (fr t m) (\<lambda>m.
     free_fields fr s is m)))))"

fun type_free_at :: "nat \<Rightarrow> addr \<Rightarrow> mem \<Rightarrow> stop + mem" where
  "type_free_at 0 t m = Inl (Undef StackOverflow)"
| "type_free_at (Suc k) t m = bindE (type_to_enum m t) (\<lambda>e.
     bindE (if e = TAG_ARRAY
            then bindE (as_array m t) (\<lambda>(mt, n). bindE (type_free_at k mt m) (free_object t))
            else Inr m) (\<lambda>m.
     if e = TAG_STRUCT
     then bindE (as_struct m t) (\<lambda>(n, r, fs). free_fields (type_free_at k) t [0..<unat n] m)
     else Inr m))"

definition type_free :: "addr \<Rightarrow> mem \<Rightarrow> stop + mem" where
  "type_free t m = type_free_at (stack m) t m"

fun sum_fields :: "(addr \<Rightarrow> stop + size_t) \<Rightarrow> mem \<Rightarrow> addr \<Rightarrow> nat list \<Rightarrow> size_t \<Rightarrow> stop + size_t" where
  "sum_fields size_of m s [] sz = Inr sz"
| "sum_fields size_of m s (i # is) sz =
     bindE (read_field m s i) (\<lambda>(_, t).
     bindE (size_of t) (\<lambda>k.
     sum_fields size_of m s is (sz + k)))"

fun type_size_at :: "nat \<Rightarrow> mem \<Rightarrow> addr \<Rightarrow> stop + size_t" where
  "type_size_at 0 m t = Inl (Undef StackOverflow)"
| "type_size_at (Suc k) m t = bindE (type_to_enum m t) (\<lambda>e. case e of
     TAG_ERROR \<Rightarrow> Inr 0
   | TAG_BOOL \<Rightarrow> Inr 1
   | TAG_SINT \<Rightarrow> Inr 1
   | TAG_INT \<Rightarrow> Inr 2
   | TAG_DINT \<Rightarrow> Inr 4
   | TAG_REAL \<Rightarrow> Inr 4
   | TAG_LINT \<Rightarrow> Inr 8
   | TAG_ARRAY \<Rightarrow> bindE (as_array m t) (\<lambda>(mt, n).
       bindE (type_size_at k m mt) (\<lambda>sz. Inr (sz * ucast n)))
   | TAG_STRUCT \<Rightarrow> bindE (as_struct m t) (\<lambda>(n, r, fs).
       sum_fields (type_size_at k m) m t [0..<unat n] 0))"

definition type_size_bytes :: "mem \<Rightarrow> addr \<Rightarrow> stop + size_t" where
  "type_size_bytes m t = type_size_at (stack m) m t"

definition type_is_scalar :: "mem \<Rightarrow> addr \<Rightarrow> stop + bool" where
  "type_is_scalar m t = bindE (type_to_enum m t) (\<lambda>e. Inr (e \<noteq> TAG_ARRAY \<and> e \<noteq> TAG_STRUCT))"

definition type_str :: "mem \<Rightarrow> addr \<Rightarrow> stop + string" where
  "type_str m t = bindE (type_to_enum m t) (\<lambda>e. Inr (case e of
     TAG_BOOL \<Rightarrow> ''BOOL'' | TAG_SINT \<Rightarrow> ''SINT'' | TAG_INT \<Rightarrow> ''INT'' | TAG_DINT \<Rightarrow> ''DINT''
   | TAG_REAL \<Rightarrow> ''REAL'' | TAG_LINT \<Rightarrow> ''LINT'' | TAG_ARRAY \<Rightarrow> ''ARRAY'' | TAG_STRUCT \<Rightarrow> ''STRUCT''
   | TAG_ERROR \<Rightarrow> ''ERROR''))"

end
