(* ===== verification/Type_Spec.thy ===== *)
theory Type_Spec
  imports Types
begin

text \<open>
  The tag types as values, and what the operations of \<open>Types\<close> do to the values their words
  stand for: sizes, deep copies, construction and release.
\<close>

section \<open>Types as values\<close>

datatype ty = Simple tag_type_e | Arr "16 word" ty | Str "(string \<times> ty) list"

fun shape :: "ty \<Rightarrow> tag_type_e" where
  "shape (Simple e) = e"
| "shape (Arr _ _) = TAG_ARRAY"
| "shape (Str _) = TAG_STRUCT"

text \<open>The word \<open>a\<close> stands for a type in the objects \<open>os\<close>.\<close>

fun denotes :: "(addr \<rightharpoonup> type_obj) \<Rightarrow> addr \<Rightarrow> ty \<Rightarrow> bool"
  and denotes_fields :: "(addr \<rightharpoonup> type_obj) \<Rightarrow> (cstr \<times> addr) list \<Rightarrow> (string \<times> ty) list \<Rightarrow> bool"
where
  "denotes os a (Simple e) \<longleftrightarrow> enum_value e \<le> 6 \<and> a = SIMPLE_TYPE e"
| "denotes os a (Arr n ty) \<longleftrightarrow> 6 < a \<and> (case os a of
     Some (Tag_array mt k) \<Rightarrow> k = n \<and> denotes os mt ty | _ \<Rightarrow> False)"
| "denotes os a (Str fs) \<longleftrightarrow> 6 < a \<and> (case os a of
     Some (Tag_struct n r slots) \<Rightarrow>
       unat n = length fs \<and> 16 * length fs \<le> r \<and> denotes_fields os slots fs
   | _ \<Rightarrow> False)"
| "denotes_fields os slots [] \<longleftrightarrow> True"
| "denotes_fields os [] (f # fs) \<longleftrightarrow> False"
| "denotes_fields os (slot # slots) ((nm, ty) # fs) \<longleftrightarrow>
     fst slot = CStr nm \<and> denotes os (snd slot) ty \<and> denotes_fields os slots fs"

fun ty_size :: "ty \<Rightarrow> nat" and fields_size :: "(string \<times> ty) list \<Rightarrow> nat" where
  "ty_size (Simple e) = (case e of TAG_ERROR \<Rightarrow> 0 | TAG_BOOL \<Rightarrow> 1 | TAG_SINT \<Rightarrow> 1 | TAG_INT \<Rightarrow> 2
     | TAG_DINT \<Rightarrow> 4 | TAG_REAL \<Rightarrow> 4 | TAG_LINT \<Rightarrow> 8 | _ \<Rightarrow> 0)"
| "ty_size (Arr n ty) = ty_size ty * unat n"
| "ty_size (Str fs) = fields_size fs"
| "fields_size [] = 0"
| "fields_size ((nm, ty) # fs) = ty_size ty + fields_size fs"

fun ty_depth :: "ty \<Rightarrow> nat" and fields_depth :: "(string \<times> ty) list \<Rightarrow> nat" where
  "ty_depth (Simple e) = 1"
| "ty_depth (Arr n ty) = Suc (ty_depth ty)"
| "ty_depth (Str fs) = Suc (fields_depth fs)"
| "fields_depth [] = 0"
| "fields_depth ((nm, ty) # fs) = max (ty_depth ty) (fields_depth fs)"

fun struct_free :: "ty \<Rightarrow> bool" where
  "struct_free (Simple e) = True"
| "struct_free (Arr n ty) = struct_free ty"
| "struct_free (Str fs) = False"

text \<open>The blocks a type without structs is made of, and how many they are.\<close>

fun owned :: "(addr \<rightharpoonup> type_obj) \<Rightarrow> addr \<Rightarrow> ty \<Rightarrow> addr list" where
  "owned os a (Arr n ty) = a # (case os a of Some (Tag_array mt _) \<Rightarrow> owned os mt ty | _ \<Rightarrow> [])"
| "owned os a _ = []"

fun blocks :: "ty \<Rightarrow> nat" where
  "blocks (Arr n ty) = Suc (blocks ty)"
| "blocks _ = 0"

text \<open>The next \<open>n\<close> calls of \<open>malloc\<close> succeed.\<close>

definition malloc_ready :: "nat \<Rightarrow> mem \<Rightarrow> bool" where
  "malloc_ready n m \<longleftrightarrow> n \<le> length (pool m) \<and> distinct (take n (pool m))
     \<and> (\<forall>a \<in> set (take n (pool m)). fresh_answer m a)"

section \<open>Words and objects\<close>

lemma simple_enum_SIMPLE_TYPE [simp]: "enum_value e \<le> 6 \<Longrightarrow> simple_enum (SIMPLE_TYPE e) = e"
  by (cases e) (simp_all add: simple_enum_def SIMPLE_TYPE_def)

lemma SIMPLE_TYPE_LINT: "SIMPLE_TYPE TAG_LINT = 6"
  by (simp add: SIMPLE_TYPE_def)

lemma SIMPLE_TYPE_le [simp]: "enum_value e \<le> 6 \<Longrightarrow> SIMPLE_TYPE e \<le> 6"
  by (cases e) (simp_all add: SIMPLE_TYPE_def)

lemma fresh_above:
  assumes "fresh_answer m a"
  shows "6 < a"
proof (rule ccontr)
  assume "\<not> 6 < a"
  then have "unat a \<le> 6" by (simp add: word_less_nat_alt)
  then consider "unat a = 0" | "unat a = 1" | "unat a = 2" | "unat a = 3" | "unat a = 4" | "unat a = 5"
    | "unat a = 6" by linarith
  moreover have "a = of_nat (unat a)" by simp
  ultimately have "a \<in> {0, 1, 2, 3, 4, 5, 6}" by cases auto
  then show False using assms by (auto simp: fresh_answer_def aligned_def)
qed

lemma type_to_enum_simple [simp]: "enum_value e \<le> 6 \<Longrightarrow> type_to_enum m (SIMPLE_TYPE e) = Inr e"
  by (simp add: type_to_enum_def SIMPLE_TYPE_LINT)

lemma type_to_enum_denotes [simp]: "denotes (objs m) a ty \<Longrightarrow> type_to_enum m a = Inr (shape ty)"
  by (cases ty) (auto simp: type_to_enum_def SIMPLE_TYPE_LINT load_object_def split: option.splits type_obj.splits)

lemma as_array_denotes:
  "denotes (objs m) a (Arr n ty) \<Longrightarrow> \<exists>mt. objs m a = Some (Tag_array mt n) \<and> as_array m a = Inr (mt, n)
     \<and> denotes (objs m) mt ty"
  by (auto simp: as_array_def load_object_def split: option.splits type_obj.splits)

lemma as_struct_denotes:
  "denotes (objs m) a (Str fs) \<Longrightarrow> \<exists>n r slots. objs m a = Some (Tag_struct n r slots)
     \<and> as_struct m a = Inr (n, r, slots) \<and> unat n = length fs \<and> 16 * length fs \<le> r
     \<and> denotes_fields (objs m) slots fs"
  by (auto simp: as_struct_def load_object_def split: option.splits type_obj.splits)

lemma denotes_mono:
  "denotes os a ty \<Longrightarrow> os \<subseteq>\<^sub>m os' \<Longrightarrow> denotes os' a ty"
  "denotes_fields os slots fs \<Longrightarrow> os \<subseteq>\<^sub>m os' \<Longrightarrow> denotes_fields os' slots fs"
proof (induction os a ty and os slots fs rule: denotes_denotes_fields.induct)
  case (2 os a n ty)
  then obtain mt where "os a = Some (Tag_array mt n)" "denotes os mt ty" "6 < a"
    by (auto split: option.splits type_obj.splits)
  moreover have "os' a = os a" using \<open>os a = _\<close> "2.prems"(2) by (metis domI map_le_def)
  ultimately show ?case using "2.IH" "2.prems"(2) by auto
next
  case (3 os a fs)
  then obtain n r slots where "os a = Some (Tag_struct n r slots)" "denotes_fields os slots fs" "6 < a"
    "unat n = length fs" "16 * length fs \<le> r" by (auto split: option.splits type_obj.splits)
  moreover have "os' a = os a" using \<open>os a = _\<close> "3.prems"(2) by (metis domI map_le_def)
  ultimately show ?case using "3.IH" "3.prems"(2) by auto
qed auto

lemma denotes_fields_nth:
  "denotes_fields os slots fs \<Longrightarrow> i < length fs \<Longrightarrow> i < length slots \<and> fst (slots ! i) = CStr (fst (fs ! i))
     \<and> denotes os (snd (slots ! i)) (snd (fs ! i))"
proof (induction fs arbitrary: slots i)
  case (Cons f fs)
  then show ?case by (cases slots; cases f; cases i) auto
qed simp

lemma fields_depth_nth: "i < length fs \<Longrightarrow> ty_depth (snd (fs ! i)) \<le> fields_depth fs"
proof (induction fs arbitrary: i)
  case (Cons f fs)
  then show ?case by (cases f; cases i) (auto simp: le_max_iff_disj)
qed simp

lemma fields_size_sum: "fields_size fs = sum_list (map (ty_size \<circ> snd) fs)"
  by (induction fs) auto

section \<open>Sizes\<close>

lemma sum_fields_refine:
  assumes "\<And>i. i \<in> set is \<Longrightarrow> \<exists>c. read_field m s i = Inr (c, ts i) \<and> f (ts i) = Inr (of_nat (k i))"
  shows "sum_fields f m s is sz = Inr (sz + of_nat (sum_list (map k is)))"
  using assms
proof (induction "is" arbitrary: sz)
  case (Cons i "is")
  then obtain c where "read_field m s i = Inr (c, ts i)" "f (ts i) = Inr (of_nat (k i))" by auto
  with Cons show ?case by (simp add: add.assoc)
qed simp

lemma type_size_at_refine:
  "denotes (objs m) a ty \<Longrightarrow> ty_depth ty \<le> k \<Longrightarrow> type_size_at k m a = Inr (of_nat (ty_size ty))"
proof (induction k arbitrary: a ty)
  case 0
  then show ?case by (cases ty) auto
next
  case (Suc k)
  note e = type_to_enum_denotes [OF Suc.prems(1)]
  show ?case
  proof (cases ty)
    case (Simple e)
    then show ?thesis using Suc.prems by (cases e) simp_all
  next
    case (Arr n t)
    with Suc as_array_denotes [of m a n t] e show ?thesis by auto
  next
    case (Str fs)
    then obtain n r slots where o: "as_struct m a = Inr (n, r, slots)" "unat n = length fs"
      "16 * length fs \<le> r" "denotes_fields (objs m) slots fs" using Suc.prems as_struct_denotes by blast
    have "sum_fields (type_size_at k m) m a [0..<length fs] 0
      = Inr (0 + of_nat (sum_list (map (\<lambda>i. ty_size (snd (fs ! i))) [0..<length fs])))"
    proof (rule sum_fields_refine [where ts = "\<lambda>i. snd (slots ! i)"])
      fix i assume "i \<in> set [0..<length fs]"
      then have i: "i < length fs" by simp
      note f = denotes_fields_nth [OF o(4) i]
      have "ty_depth (snd (fs ! i)) \<le> k" using fields_depth_nth [OF i] Suc.prems(2) Str by simp
      then show "\<exists>c. read_field m a i = Inr (c, snd (slots ! i))
          \<and> type_size_at k m (snd (slots ! i)) = Inr (of_nat (ty_size (snd (fs ! i))))"
        using Suc.IH f i o(1,3) by (auto simp: read_field_def prod_eq_iff)
    qed
    moreover have "map (\<lambda>i. ty_size (snd (fs ! i))) [0..<length fs] = map (ty_size \<circ> snd) fs"
      by (rule nth_equalityI) auto
    ultimately show ?thesis using o(1,2) e Str by (simp add: fields_size_sum)
  qed
qed

section \<open>Copies and release\<close>

text \<open>What holds of every copy, whatever it copies: no object that was there changes.\<close>

lemma malloc_object_cases:
  obtains "malloc_object ob m = (NULL, m\<lparr>pool := tl (pool m)\<rparr>)"
  | a where "malloc_object ob m = (a, m\<lparr>pool := tl (pool m), objs := (objs m)(a \<mapsto> ob)\<rparr>)"
      "fresh_answer m a" "a = hd (pool m)" "pool m \<noteq> []"
proof (cases "pool m \<noteq> [] \<and> fresh_answer m (hd (pool m))")
  case True
  then show ?thesis by (intro that(2) [of "hd (pool m)"]) (auto simp: malloc_object_def neq_Nil_conv)
next
  case False
  then show ?thesis by (intro that(1)) (auto simp: malloc_object_def split: list.split)
qed

lemma fresh_update: "fresh_answer m a \<Longrightarrow> objs m \<subseteq>\<^sub>m (objs m)(a \<mapsto> ob)"
  by (auto simp: fresh_answer_def map_le_def)

lemma strdup_frame: "strdup s m = Inr (s', m') \<Longrightarrow> objs m' = objs m \<and> stack m' = stack m"
  by (auto simp: strdup_def malloc_value_def split: cstr.splits list.splits prod.splits if_splits)

lemma write_field_frame:
  "write_field_name t i s m = Inr m' \<or> write_field_type t i u m = Inr m' \<Longrightarrow>
     (\<exists>ob. objs m' = (objs m)(t \<mapsto> ob)) \<and> stack m' = stack m"
  by (auto simp: write_field_name_def write_field_type_def bindE_Inr_iff split: if_splits prod.splits)

definition extends_but :: "addr set \<Rightarrow> mem \<Rightarrow> mem \<Rightarrow> bool" where
  "extends_but S m m' \<longleftrightarrow> stack m' = stack m \<and> (\<forall>b. b \<notin> S \<longrightarrow> objs m b \<noteq> None \<longrightarrow> objs m' b = objs m b)"

lemma extends_but_refl [simp]: "extends_but S m m"
  by (simp add: extends_but_def)

lemma extends_but_trans: "extends_but S m m' \<Longrightarrow> extends_but S m' m'' \<Longrightarrow> extends_but S m m''"
  by (auto simp: extends_but_def)

lemma extends_but_mono: "extends_but {} m m' \<Longrightarrow> extends_but S m m'"
  by (auto simp: extends_but_def)

lemma fill_fields_extends:
  assumes "\<And>t m t' m'. dup t m = Inr (t', m') \<Longrightarrow> extends_but {} m m'"
  shows "fill_fields dup get new is m = Inr m' \<Longrightarrow> extends_but {new} m m'"
proof (induction "is" arbitrary: m)
  case (Cons i "is")
  then obtain nm t nm' m1 m2 t' m3 m4 where s: "get m i = Inr (nm, t)" "strdup nm m = Inr (nm', m1)"
    "write_field_name new i nm' m1 = Inr m2" "dup t m2 = Inr (t', m3)"
    "write_field_type new i t' m3 = Inr m4" "fill_fields dup get new is m4 = Inr m'"
    by (auto simp: bindE_Inr_iff)
  have "extends_but {new} m m1" "extends_but {new} m1 m2" "extends_but {new} m3 m4"
    using strdup_frame [OF s(2)] write_field_frame s(3,5) by (force simp: extends_but_def)+
  with assms [OF s(4)] Cons.IH [OF s(6)] show ?case using extends_but_trans extends_but_mono by metis
qed simp

lemma type_dup_at_extends: "type_dup_at k t m = Inr (t', m') \<Longrightarrow> extends_but {} m m'"
proof (induction k arbitrary: t m t' m')
  case (Suc k)
  then obtain e where e: "type_to_enum m t = Inr e" by (auto simp: bindE_Inr_iff)
  consider "e = TAG_ARRAY" | "e = TAG_STRUCT" | "e \<noteq> TAG_ARRAY" "e \<noteq> TAG_STRUCT" by blast
  then show ?case
  proof cases
    case 1
    obtain mt n where s: "as_array m t = Inr (mt, n)" using 1 Suc.prems e by (cases "as_array m t") auto
    obtain a m1 where "malloc_object (Tag_array NULL n) m = (a, m1)"
      by (cases "malloc_object (Tag_array NULL n) m")
    with 1 s Suc.prems e obtain mt' m2 where "malloc_object (Tag_array NULL n) m = (a, m1)" "a \<noteq> NULL"
      "type_dup_at k mt m1 = Inr (mt', m2)" "write_member_type a mt' m2 = Inr m'"
      by (auto simp: bindE_Inr_iff new_array_with_def split: if_splits)
    with Suc.IH [of mt m1 mt' m2] show ?thesis
      by (cases "Tag_array NULL n" m rule: malloc_object_cases)
        (auto simp: extends_but_def fresh_answer_def write_member_type_def bindE_Inr_iff split: prod.splits)
  next
    case 2
    obtain n r fs where s: "as_struct m t = Inr (n, r, fs)"
      using 2 Suc.prems e by (cases "as_struct m t") auto
    define ob where "ob = blank_struct n (8 * unat n)"
    obtain a m1 where m: "malloc_object ob m = (a, m1)" by fastforce
    with 2 Suc.prems e s have m: "malloc_object ob m = (a, m1)" "a \<noteq> NULL"
      "fill_fields (type_dup_at k) (\<lambda>m. read_field m t) a [0..<unat n] m1 = Inr m'"
      by (auto simp: bindE_Inr_iff ob_def [symmetric] split: if_splits)
    have "extends_but {a} m1 m'" by (rule fill_fields_extends [OF Suc.IH m(3)])
    moreover have "objs m a = None \<and> (\<forall>b. b \<noteq> a \<longrightarrow> objs m1 b = objs m b) \<and> stack m1 = stack m"
      using m(1,2) by (cases ob m rule: malloc_object_cases) (auto simp: fresh_answer_def)
    ultimately show ?thesis unfolding extends_but_def by (metis empty_iff singletonD)
  next
    case 3
    with Suc.prems e show ?thesis by simp
  qed
qed simp

lemma malloc_ready_Suc:
  assumes "malloc_ready (Suc n) m"
  shows "malloc_object ob m = (hd (pool m), m\<lparr>pool := tl (pool m), objs := (objs m)(hd (pool m) \<mapsto> ob)\<rparr>)"
    and "malloc_ready n (m\<lparr>pool := tl (pool m), objs := (objs m)(hd (pool m) \<mapsto> ob)\<rparr>)"
    and "hd (pool m) \<noteq> NULL"
  using assms by (cases "pool m"; auto simp: malloc_ready_def malloc_object_def fresh_answer_def)+

lemma malloc_not_ready:
  assumes "malloc_object ob m = (a, m1)" "a \<noteq> NULL" "\<not> malloc_ready n m1"
  shows "\<not> malloc_ready (Suc n) m"
  using assms malloc_ready_Suc(1,2) [where n = n and m = m and ob = ob] by auto

text \<open>A change of an object outside a type leaves the type alone.\<close>

lemma owned_update:
  "struct_free ty \<Longrightarrow> denotes os x ty \<Longrightarrow> b \<notin> set (owned os x ty) \<Longrightarrow>
     denotes (os(b := v)) x ty \<and> owned (os(b := v)) x ty = owned os x ty"
  by (induction ty arbitrary: x) (auto split: option.splits type_obj.splits)

lemma owned_alive:
  "struct_free ty \<Longrightarrow> denotes os x ty \<Longrightarrow> set (owned os x ty) \<subseteq> dom os"
  by (induction ty arbitrary: x) (auto split: option.splits type_obj.splits)

text \<open>What the copy \<open>m'\<close>, \<open>a'\<close> of a type without structs is: it has the same value, and its
  blocks are exactly the new objects.\<close>

definition copied :: "mem \<Rightarrow> ty \<Rightarrow> addr \<Rightarrow> mem \<Rightarrow> bool" where
  "copied m ty a' m' \<longleftrightarrow> denotes (objs m') a' ty \<and> distinct (owned (objs m') a' ty)
     \<and> (\<forall>b \<in> set (owned (objs m') a' ty). objs m b = None)
     \<and> (\<forall>b. b \<notin> set (owned (objs m') a' ty) \<longrightarrow> objs m' b = objs m b)
     \<and> set (owned (objs m') a' ty) = set (take (blocks ty) (pool m))
     \<and> pool m' = drop (blocks ty) (pool m) \<and> stack m' = stack m"

lemma copied_extends:
  assumes "copied m ty a' m'"
  shows "objs m \<subseteq>\<^sub>m objs m'"
  using assms unfolding copied_def map_le_def by (metis domIff)

lemma copied_new: "copied m ty a' m' \<Longrightarrow> b \<in> set (owned (objs m') a' ty) \<Longrightarrow> objs m b = None"
  by (simp add: copied_def)

lemma new_array_with_copied:
  assumes ty: "struct_free ty" "denotes (objs m) mt ty"
    and dup: "\<And>m. denotes (objs m) mt ty \<Longrightarrow> stack m = k \<Longrightarrow> case dup mt m of
       Inr (a', m') \<Rightarrow> copied m ty a' m'
     | Inl e \<Rightarrow> e = Exit \<and> \<not> malloc_ready (blocks ty) m"
    and k: "stack m = k"
  shows "case new_array_with dup n mt m of
       Inr (a', m') \<Rightarrow> copied m (Arr n ty) a' m'
     | Inl e \<Rightarrow> e = Exit \<and> \<not> malloc_ready (Suc (blocks ty)) m"
proof (cases "Tag_array NULL n" m rule: malloc_object_cases)
  case 1
  then have "\<not> malloc_ready (Suc (blocks ty)) m" using malloc_ready_Suc(1,3) by fastforce
  with 1 show ?thesis by (simp add: new_array_with_def)
next
  case (2 b)
  define m1 where "m1 = m\<lparr>pool := tl (pool m), objs := (objs m)(b \<mapsto> Tag_array NULL n)\<rparr>"
  have b: "b \<noteq> NULL" "objs m b = None" "6 < b"
    using 2(2) fresh_above [OF 2(2)] by (auto simp: fresh_answer_def)
  have "objs m \<subseteq>\<^sub>m objs m1" using fresh_update [OF 2(2)] by (simp add: m1_def)
  with ty(2) have den: "denotes (objs m1) mt ty" by (rule denotes_mono(1))
  have "stack m1 = k" using k by (simp add: m1_def)
  note IH = dup [OF den this]
  show ?thesis
  proof (cases "dup mt m1")
    case (Inl x)
    with IH 2(1) b malloc_not_ready [of _ m b m1 "blocks ty"] show ?thesis
      by (auto simp: new_array_with_def m1_def)
  next
    case (Inr x)
    then obtain a' m' where x: "dup mt m1 = Inr (a', m')" "copied m1 ty a' m'"
      using IH by (cases x) auto
    have b': "b \<notin> set (owned (objs m') a' ty)" using copied_new [OF x(2), of b] by (auto simp: m1_def)
    moreover have "objs m' b = Some (Tag_array NULL n)"
      using copied_extends [OF x(2)] by (auto simp: m1_def map_le_def)
    ultimately have "new_array_with dup n mt m = Inr (b, m'\<lparr>objs := (objs m')(b \<mapsto> Tag_array a' n)\<rparr>)"
      using 2(1) b(1) x(1)
      by (simp add: new_array_with_def m1_def write_member_type_def as_array_def load_object_def)
    moreover have "copied m (Arr n ty) b (m'\<lparr>objs := (objs m')(b \<mapsto> Tag_array a' n)\<rparr>)"
      using x(2) owned_update [OF _ _ b', of "Some (Tag_array a' n)"] ty(1) b b' 2(3,4)
      by (auto simp: copied_def m1_def drop_Suc take_Suc split: if_splits)
    ultimately show ?thesis by simp
  qed
qed

lemma type_dup_at_copied:
  "struct_free ty \<Longrightarrow> denotes (objs m) a ty \<Longrightarrow> ty_depth ty \<le> k \<Longrightarrow>
     case type_dup_at k a m of
       Inr (a', m') \<Rightarrow> copied m ty a' m'
     | Inl e \<Rightarrow> e = Exit \<and> \<not> malloc_ready (blocks ty) m"
proof (induction ty arbitrary: m a k)
  case (Simple e)
  then obtain j where "k = Suc j" by (cases k) auto
  with Simple show ?case by (cases e) (auto simp: copied_def)
next
  case (Arr n ty)
  then obtain j where k: "k = Suc j" "ty_depth ty \<le> j" by (cases k) auto
  note e = type_to_enum_denotes [OF Arr.prems(2)]
  obtain mt where mt: "as_array m a = Inr (mt, n)" "denotes (objs m) mt ty"
    using as_array_denotes [OF Arr.prems(2)] by blast
  have "case new_array_with (type_dup_at j) n mt m of
       Inr (a', m') \<Rightarrow> copied m (Arr n ty) a' m'
     | Inl e \<Rightarrow> e = Exit \<and> \<not> malloc_ready (Suc (blocks ty)) m"
    using Arr.prems(1) mt(2) Arr.IH [OF _ _ k(2)] by (intro new_array_with_copied [OF _ _ _ refl]) auto
  moreover have "type_dup_at k a m = new_array_with (type_dup_at j) n mt m" using k e mt by simp
  ultimately show ?case by (simp only: blocks.simps)
qed simp

lemma type_free_at_owned:
  "struct_free ty \<Longrightarrow> denotes (objs m) a ty \<Longrightarrow> distinct (owned (objs m) a ty) \<Longrightarrow> ty_depth ty \<le> k \<Longrightarrow>
     type_free_at k a m = Inr (m\<lparr>objs := (\<lambda>b. if b \<in> set (owned (objs m) a ty) then None else objs m b)\<rparr>)"
proof (induction ty arbitrary: m a k)
  case (Simple e)
  then obtain j where "k = Suc j" by (cases k) auto
  with Simple show ?case by (cases e) auto
next
  case (Arr n ty)
  then obtain j where k: "k = Suc j" "ty_depth ty \<le> j" by (cases k) auto
  note e = type_to_enum_denotes [OF Arr.prems(2)]
  obtain mt where mt: "objs m a = Some (Tag_array mt n)" "as_array m a = Inr (mt, n)" "denotes (objs m) mt ty"
    using as_array_denotes [OF Arr.prems(2)] by blast
  have a: "a \<noteq> NULL" "a \<notin> set (owned (objs m) mt ty)" using Arr.prems(2,3) mt(1) by auto
  have "type_free_at j mt m =
      Inr (m\<lparr>objs := (\<lambda>b. if b \<in> set (owned (objs m) mt ty) then None else objs m b)\<rparr>)"
    using Arr.IH [OF _ mt(3) _ k(2)] Arr.prems(1,3) mt(1) by simp
  with k e mt a show ?case by (auto simp: free_object_def fun_eq_iff intro!: arg_cong [where f = "\<lambda>x. m\<lparr>objs := x\<rparr>"])
qed simp

text \<open>The result of \<open>type_new_array\<close>.\<close>

lemma type_new_array_copied:
  assumes "struct_free ty" "denotes (objs m) mt ty" "ty_depth ty \<le> stack m"
  shows "case type_new_array n mt m of
       Inr (a', m') \<Rightarrow> copied m (Arr n ty) a' m'
     | Inl e \<Rightarrow> e = Exit \<and> \<not> malloc_ready (Suc (blocks ty)) m"
  unfolding type_new_array_def
  using assms type_dup_at_copied [OF assms(1)]
  by (intro new_array_with_copied [OF _ _ _ refl]) (auto simp: type_dup_def)

section \<open>Structures\<close>

text \<open>\<open>type_dup\<close> asks \<open>malloc\<close> for eight bytes for each field of the copy and writes sixteen.\<close>

lemma as_struct_extends:
  "extends_but {} m m' \<Longrightarrow> as_struct m t = Inr x \<Longrightarrow> as_struct m' t = Inr x"
  by (auto simp: as_struct_def load_object_def extends_but_def bindE_Inr_iff split: if_splits)

lemma fill_fields_room:
  assumes ext: "\<And>t m t' m'. dup t m = Inr (t', m') \<Longrightarrow> extends_but {} m m'"
  shows "as_struct m new = Inr (n, r, fs) \<Longrightarrow> i \<in> set is \<Longrightarrow> r < 16 * i + 16 \<Longrightarrow>
     \<exists>e. fill_fields dup get new is m = Inl e"
proof (induction "is" arbitrary: m fs)
  case (Cons j "is")
  show ?case
  proof (cases "fill_fields dup get new (j # is) m")
    case (Inr m')
    then obtain nm t nm' m1 m2 t' m3 m4 where s: "get m j = Inr (nm, t)" "strdup nm m = Inr (nm', m1)"
      "write_field_name new j nm' m1 = Inr m2" "dup t m2 = Inr (t', m3)"
      "write_field_type new j t' m3 = Inr m4" "fill_fields dup get new is m4 = Inr m'"
      by (auto simp: bindE_Inr_iff)
    have "as_struct m1 new = as_struct m new"
      using strdup_frame [OF s(2)] by (simp add: as_struct_def load_object_def)
    then have "as_struct m1 new = Inr (n, r, fs)" using Cons.prems(1) by simp
    then obtain fs2 where "as_struct m2 new = Inr (n, r, fs2)"
      using s(3) by (auto simp: write_field_name_def as_struct_def load_object_def split: if_splits type_obj.splits)
    then have m3: "as_struct m3 new = Inr (n, r, fs2)" using as_struct_extends [OF ext [OF s(4)]] by blast
    then have room: "16 * j + 16 \<le> r" using s(5) by (auto simp: write_field_type_def split: if_splits)
    then obtain fs4 where m4: "as_struct m4 new = Inr (n, r, fs4)"
      using m3 s(5) by (auto simp: write_field_type_def as_struct_def load_object_def split: if_splits type_obj.splits)
    have "i \<in> set is" using Cons.prems(2,3) room by auto
    from Cons.IH [OF m4 this Cons.prems(3)] show ?thesis using s(6) by simp
  qed auto
qed simp

text \<open>C31: duplicating a structure that has fields never returns: \<open>type_dup\<close> of
  a \<open>struct tag_struct\<close> with at least one field ends in \<open>exit\<close> or in undefined behaviour, for it
  allocates \<open>sizeof(type_t)\<close> bytes for each field and writes a \<open>struct tag_struct_pair\<close>, twice as
  much. In the witness, with memory to spare, it is the write past the end of the block.\<close>

theorem struct_dup_overflows:
  assumes "6 < t" and "objs m t = Some (Tag_struct n r fs)" and "n \<noteq> 0"
  shows "\<exists>e. type_dup t m = Inl e"
proof (cases "stack m")
  case 0
  then show ?thesis by (simp add: type_dup_def)
next
  case (Suc k)
  have e: "type_to_enum m t = Inr TAG_STRUCT" "as_struct m t = Inr (n, r, fs)"
    using assms(1,2) by (auto simp: type_to_enum_def SIMPLE_TYPE_LINT load_object_def as_struct_def)
  define ob where "ob = blank_struct n (8 * unat n)"
  obtain a m1 where m: "malloc_object ob m = (a, m1)" by (cases "malloc_object ob m")
  have "\<exists>e. fill_fields (type_dup_at k) (\<lambda>m. read_field m t) a [0..<unat n] m1 = Inl e" if "a \<noteq> NULL"
  proof (rule fill_fields_room [OF type_dup_at_extends])
    show "as_struct m1 a = Inr (n, 8 * unat n, replicate (8 * unat n div 16) (CNull, NULL))"
      using m that by (cases ob m rule: malloc_object_cases)
        (auto simp: as_struct_def load_object_def ob_def blank_struct_def)
    show "unat n - 1 \<in> set [0..<unat n]" "8 * unat n < 16 * (unat n - 1) + 16"
      using assms(3) by (auto simp: unat_gt_0 [symmetric] simp del: unat_gt_0)
  qed
  with Suc e m show ?thesis by (auto simp: type_dup_def ob_def [symmetric])
qed

text \<open>A word, a struct in memory at address 32 with two \<open>INT\<close> fields, and a roomy heap.\<close>

definition demo_struct_mem :: mem where
  "demo_struct_mem = \<lparr>objs = [32 \<mapsto> Tag_struct 1 16 [(CStr ''x'', 3)]], pool = [64, 80, 96], stack = 4\<rparr>"

theorem struct_dup_overflows_witness:
  "(\<exists>e. type_dup 32 demo_struct_mem = Inl e) \<and> type_dup 32 demo_struct_mem = Inl (Undef OutOfBounds)"
proof
  show "\<exists>e. type_dup 32 demo_struct_mem = Inl e"
    by (rule struct_dup_overflows [of 32 _ 1 16 "[(CStr ''x'', 3)]"]) (simp_all add: demo_struct_mem_def)
  show "type_dup 32 demo_struct_mem = Inl (Undef OutOfBounds)"
    by code_simp
qed

section \<open>The operations on values\<close>

lemma type_size_denotes:
  assumes "denotes (objs m) t ty" and "ty_depth ty \<le> stack m"
  shows "type_size_bytes m t = Inr (of_nat (ty_size ty))"
  using type_size_at_refine [OF assms] by (simp add: type_size_bytes_def)

text \<open>C28: \<open>type_size_bytes\<close> of a word that stands for a type, structs and nested arrays
  included, is the size of that type: the size of its elements times their number, the sum over its
  fields, wrapped at the width of \<open>size_t\<close>; \<open>type_to_enum\<close> is its outermost constructor.\<close>

theorem type_size_is_value_size:
  assumes "denotes (objs m) t ty" and "ty_depth ty \<le> stack m"
  shows "type_size_bytes m t = Inr (of_nat (ty_size ty)) \<and> type_to_enum m t = Inr (shape ty)"
  using type_size_denotes [OF assms] assms(1) by simp

theorem type_size_is_value_size_witness:
  "type_size_bytes demo_struct_mem 32 = Inr 2 \<and> type_to_enum demo_struct_mem 32 = Inr TAG_STRUCT"
proof -
  have "denotes (objs demo_struct_mem) 32 (Str [(''x'', Simple TAG_INT)])"
    by (simp add: demo_struct_mem_def SIMPLE_TYPE_def)
  from type_size_is_value_size [OF this] show ?thesis by (simp add: demo_struct_mem_def)
qed

text \<open>C22: duplicating a type without structs, arrays nested to any depth the stack
  allows, either ends the process because an allocation failed, or yields a word for the same type
  whose blocks are all new, leaves every object that was there as it was, and \<open>type_free\<close> of the copy
  then frees exactly the copy: the memory is as it was before the call.\<close>

theorem type_dup_then_free:
  assumes "struct_free ty" and "denotes (objs m) t ty" and "ty_depth ty \<le> stack m"
  shows "case type_dup t m of
     Inl e \<Rightarrow> e = Exit \<and> \<not> malloc_ready (blocks ty) m
   | Inr (t', m') \<Rightarrow> denotes (objs m') t' ty \<and> objs m \<subseteq>\<^sub>m objs m'
       \<and> set (owned (objs m') t' ty) \<inter> dom (objs m) = {}
       \<and> type_free t' m' = Inr (m'\<lparr>objs := objs m\<rparr>)"
proof (cases "type_dup t m")
  case (Inl e)
  with type_dup_at_copied [OF assms] show ?thesis by (simp add: type_dup_def)
next
  case (Inr x)
  then obtain t' m' where x: "type_dup t m = Inr (t', m')" by (cases x) auto
  then have c: "copied m ty t' m'" using type_dup_at_copied [OF assms] by (simp add: type_dup_def)
  have "(\<lambda>b. if b \<in> set (owned (objs m') t' ty) then None else objs m' b) = objs m"
    using c by (auto simp: copied_def fun_eq_iff)
  moreover have "type_free t' m' =
      Inr (m'\<lparr>objs := (\<lambda>b. if b \<in> set (owned (objs m') t' ty) then None else objs m' b)\<rparr>)"
    using c assms(1,3) by (simp add: type_free_def copied_def type_free_at_owned)
  ultimately have "type_free t' m' = Inr (m'\<lparr>objs := objs m\<rparr>)" by simp
  then show ?thesis using x c copied_extends [OF c] copied_new [OF c] by (auto simp: copied_def)
qed

definition demo_array_mem :: mem where
  "demo_array_mem = \<lparr>objs = [32 \<mapsto> Tag_array 48 2, 48 \<mapsto> Tag_array 4 7], pool = [64, 80], stack = 4\<rparr>"

theorem type_dup_then_free_witness:
  "\<exists>m'. type_dup 32 demo_array_mem = Inr (64, m') \<and> denotes (objs m') 64 (Arr 2 (Arr 7 (Simple TAG_DINT)))
     \<and> type_free 64 m' = Inr (m'\<lparr>objs := objs demo_array_mem\<rparr>)"
proof -
  have d: "denotes (objs demo_array_mem) 32 (Arr 2 (Arr 7 (Simple TAG_DINT)))"
    by (simp add: demo_array_mem_def SIMPLE_TYPE_def)
  have "malloc_ready (blocks (Arr 2 (Arr 7 (Simple TAG_DINT)))) demo_array_mem"
    by (simp add: malloc_ready_def demo_array_mem_def fresh_answer_def aligned_def)
  with type_dup_then_free [OF _ d] obtain t' m' where x: "type_dup 32 demo_array_mem = Inr (t', m')"
      "denotes (objs m') t' (Arr 2 (Arr 7 (Simple TAG_DINT)))"
      "type_free t' m' = Inr (m'\<lparr>objs := objs demo_array_mem\<rparr>)"
    by (auto simp: demo_array_mem_def split: sum.splits)
  have "case type_dup 32 demo_array_mem of Inr (t', _) \<Rightarrow> t' = 64 | _ \<Rightarrow> False"
    by code_simp
  with x show ?thesis by auto
qed

text \<open>Filling in the fields of a new struct, one name and one copy of a type for each.\<close>

lemma malloc_ready_strdup:
  assumes "malloc_ready (Suc n) m"
  shows "strdup (CStr x) m = Inr (CStr x, m\<lparr>pool := tl (pool m)\<rparr>) \<and> malloc_ready n (m\<lparr>pool := tl (pool m)\<rparr>)"
  using assms by (cases "pool m") (auto simp: malloc_ready_def strdup_def malloc_value_def fresh_answer_def)

lemma malloc_ready_same_dom:
  "(\<And>b. objs m' b = None \<longleftrightarrow> objs m b = None) \<Longrightarrow> pool m' = pool m \<Longrightarrow> malloc_ready n m' = malloc_ready n m"
  by (simp add: malloc_ready_def fresh_answer_def)

lemma malloc_ready_add: "malloc_ready (a + n) m \<Longrightarrow> malloc_ready a m"
  unfolding malloc_ready_def take_add by auto

lemma malloc_ready_copied:
  assumes "malloc_ready (blocks ty + n) m" and "copied m ty a' m'"
  shows "malloc_ready n m'"
proof -
  let ?B = "take (blocks ty) (pool m)" and ?N = "take n (drop (blocks ty) (pool m))"
  have t: "take (blocks ty + n) (pool m) = ?B @ ?N" by (rule take_add)
  have "set ?B \<inter> set ?N = {}" "distinct ?N" "\<forall>a \<in> set ?N. fresh_answer m a" "n \<le> length (drop (blocks ty) (pool m))"
    using assms(1) unfolding malloc_ready_def t by (auto simp del: take_append)
  then show ?thesis using assms(2) by (auto simp: malloc_ready_def copied_def fresh_answer_def)
qed

definition field_ok :: "mem \<Rightarrow> addr \<Rightarrow> cstr \<times> addr \<Rightarrow> string \<times> ty \<Rightarrow> bool" where
  "field_ok m s slot f \<longleftrightarrow> fst slot = CStr (fst f) \<and> struct_free (snd f)
     \<and> denotes (objs m) (snd slot) (snd f) \<and> s \<notin> set (owned (objs m) (snd slot) (snd f))"

lemma owned_mono:
  "struct_free ty \<Longrightarrow> denotes os x ty \<Longrightarrow> os \<subseteq>\<^sub>m os' \<Longrightarrow> owned os' x ty = owned os x ty"
proof (induction ty arbitrary: x)
  case (Arr n ty)
  then obtain mt where "os x = Some (Tag_array mt n)" "denotes os mt ty"
    by (auto split: option.splits type_obj.splits)
  moreover have "os' x = os x" using \<open>os x = _\<close> Arr.prems(3) by (metis domI map_le_def)
  ultimately show ?case using Arr by auto
qed auto

lemma field_ok_mono:
  assumes "field_ok m s slot f" and "objs m \<subseteq>\<^sub>m objs m'"
  shows "field_ok m' s slot f"
  using assms denotes_mono(1) [of "objs m" "snd slot" "snd f" "objs m'"]
    owned_mono [of "snd f" "objs m" "snd slot" "objs m'"] by (simp add: field_ok_def)

lemma field_ok_update:
  assumes "field_ok m s slot f" and "objs m' = (objs m)(s := v)"
  shows "field_ok m' s slot f" and "owned (objs m') (snd slot) (snd f) = owned (objs m) (snd slot) (snd f)"
  using assms owned_update [of "snd f" "objs m" "snd slot" s v] by (simp_all add: field_ok_def)

lemma field_owned_mono:
  "field_ok m s slot f \<Longrightarrow> objs m \<subseteq>\<^sub>m objs m' \<Longrightarrow> owned (objs m') (snd slot) (snd f) = owned (objs m) (snd slot) (snd f)"
  using owned_mono [of "snd f" "objs m" "snd slot" "objs m'"] by (simp add: field_ok_def)

text \<open>The blocks that the types of the fields are made of.\<close>

definition field_blocks :: "(addr \<rightharpoonup> type_obj) \<Rightarrow> (cstr \<times> addr) list \<Rightarrow> (string \<times> ty) list \<Rightarrow> addr list" where
  "field_blocks os slots fs = concat (map2 (\<lambda>slot f. owned os (snd slot) (snd f)) slots fs)"

lemma set_field_blocks:
  "set (field_blocks os slots fs) = {b. \<exists>j. j < length slots \<and> j < length fs \<and> b \<in> set (owned os (snd (slots ! j)) (snd (fs ! j)))}"
proof -
  have "set (field_blocks os slots fs) = (\<Union>x \<in> set (zip slots fs). set (owned os (snd (fst x)) (snd (snd x))))"
    by (simp add: field_blocks_def split_beta)
  also have "\<dots> = {b. \<exists>j. j < length slots \<and> j < length fs \<and> b \<in> set (owned os (snd (slots ! j)) (snd (fs ! j)))}"
    unfolding set_zip by auto
  finally show ?thesis .
qed

lemma field_blocks_snoc:
  "length xs = length ys \<Longrightarrow> field_blocks os (xs @ [x]) (ys @ [y]) = field_blocks os xs ys @ owned os (snd x) (snd y)"
  by (simp add: field_blocks_def)

lemma field_blocks_cong:
  assumes "\<And>j. j < i \<Longrightarrow> owned os' (snd (slots ! j)) (snd (fs ! j)) = owned os (snd (slots ! j)) (snd (fs ! j))"
    and "i \<le> length slots" and "i \<le> length fs"
  shows "field_blocks os' (take i slots) (take i fs) = field_blocks os (take i slots) (take i fs)"
proof -
  have "owned os' (snd (fst x)) (snd (snd x)) = owned os (snd (fst x)) (snd (snd x))"
    if "x \<in> set (zip (take i slots) (take i fs))" for x
    using that assms by (auto simp: set_zip)
  then show ?thesis by (simp add: field_blocks_def split_beta cong: map_cong)
qed

lemma field_blocks_alive:
  assumes "\<And>j. j < i \<Longrightarrow> field_ok m s (slots ! j) (fs ! j)"
  shows "set (field_blocks (objs m) (take i slots) (take i fs)) \<subseteq> dom (objs m)"
proof
  fix b assume "b \<in> set (field_blocks (objs m) (take i slots) (take i fs))"
  then obtain j where j: "j < i" "b \<in> set (owned (objs m) (snd (slots ! j)) (snd (fs ! j)))"
    by (auto simp: set_field_blocks)
  show "b \<in> dom (objs m)" using owned_alive [of "snd (fs ! j)" "objs m" "snd (slots ! j)"] assms [OF j(1)] j(2)
    by (auto simp: field_ok_def)
qed

definition fields_cost :: "(string \<times> ty) list \<Rightarrow> nat" where
  "fields_cost fs = sum_list (map (\<lambda>f. Suc (blocks (snd f))) fs)"

text \<open>One more field whose type is made of new blocks.\<close>

lemma field_blocks_grow:
  assumes old: "\<And>j. j < i \<Longrightarrow> field_ok m s (slots ! j) (fs ! j)"
    and same: "\<And>j. j < i \<Longrightarrow> owned os' (snd (slots ! j)) (snd (fs ! j)) = owned (objs m) (snd (slots ! j)) (snd (fs ! j))"
    and i: "i < length fs" "length slots = length fs"
    and new: "owned os' t' (snd (fs ! i)) = bs" "set bs \<inter> dom (objs m) = {}" "distinct bs"
    and m0: "dom (objs m0) \<subseteq> dom (objs m)"
    and apart: "distinct (field_blocks (objs m) (take i slots) (take i fs))"
      "set (field_blocks (objs m) (take i slots) (take i fs)) \<inter> dom (objs m0) = {}"
  shows "distinct (field_blocks os' (take (Suc i) (slots[i := (nm, t')])) (take (Suc i) fs))"
    and "set (field_blocks os' (take (Suc i) (slots[i := (nm, t')])) (take (Suc i) fs)) \<inter> dom (objs m0) = {}"
proof -
  have "field_blocks os' (take i slots) (take i fs) = field_blocks (objs m) (take i slots) (take i fs)"
    by (rule field_blocks_cong) (use same i in auto)
  moreover have "take (Suc i) (slots[i := (nm, t')]) = take i slots @ [(nm, t')]" "take (Suc i) fs = take i fs @ [fs ! i]"
    using i take_Suc_conv_app_nth [of i "slots[i := (nm, t')]"] take_Suc_conv_app_nth [of i fs] by simp_all
  ultimately have blocks: "field_blocks os' (take (Suc i) (slots[i := (nm, t')])) (take (Suc i) fs)
      = field_blocks (objs m) (take i slots) (take i fs) @ bs"
    using field_blocks_snoc [of "take i slots" "take i fs" os' "(nm, t')" "fs ! i"] new(1) i by simp
  have alive: "set (field_blocks (objs m) (take i slots) (take i fs)) \<subseteq> dom (objs m)"
    by (rule field_blocks_alive) (rule old)
  show "distinct (field_blocks os' (take (Suc i) (slots[i := (nm, t')])) (take (Suc i) fs))"
    unfolding blocks distinct_append using apart(1) alive new(2,3) by blast
  show "set (field_blocks os' (take (Suc i) (slots[i := (nm, t')])) (take (Suc i) fs)) \<inter> dom (objs m0) = {}"
    unfolding blocks set_append using apart(2) new(2) m0 by blast
qed

text \<open>The struct while its fields are filled in, from the memory \<open>m0\<close>; and one round of the loop.\<close>

definition building :: "mem \<Rightarrow> mem \<Rightarrow> addr \<Rightarrow> 16 word \<Rightarrow> nat \<Rightarrow> (cstr \<times> addr) list \<Rightarrow> (string \<times> ty) list
    \<Rightarrow> nat \<Rightarrow> bool" where
  "building m0 m s c r args fs i \<longleftrightarrow> dom (objs m0) \<subseteq> dom (objs m) \<and> (\<exists>slots. objs m s = Some (Tag_struct c r slots) \<and> length slots = length fs
     \<and> (\<forall>j < length fs. field_ok m s (args ! j) (fs ! j) \<and> ty_depth (snd (fs ! j)) \<le> stack m)
     \<and> (\<forall>j < i. field_ok m s (slots ! j) (fs ! j))
     \<and> distinct (field_blocks (objs m) (take i slots) (take i fs))
     \<and> set (field_blocks (objs m) (take i slots) (take i fs)) \<inter> dom (objs m0) = {})"

definition grows :: "addr \<Rightarrow> mem \<Rightarrow> mem \<Rightarrow> bool" where
  "grows s m m' \<longleftrightarrow> (\<forall>b. b \<noteq> s \<longrightarrow> objs m b \<noteq> None \<longrightarrow> objs m' b = objs m b) \<and> stack m' = stack m"

lemma fill_step:
  assumes b: "building m0 m s c r args fs i" and i: "i < length fs" and r: "16 * length fs \<le> r" "s \<noteq> NULL"
    and f: "args ! i = (nm, t)" and ready: "malloc_ready (Suc (blocks (snd (fs ! i))) + N) m"
  shows "\<exists>m1 m2 t' m3 m4. strdup nm m = Inr (nm, m1) \<and> write_field_name s i nm m1 = Inr m2
     \<and> type_dup t m2 = Inr (t', m3) \<and> write_field_type s i t' m3 = Inr m4
     \<and> building m0 m4 s c r args fs (Suc i) \<and> malloc_ready N m4 \<and> grows s m m4"
proof -
  obtain slots where s: "objs m s = Some (Tag_struct c r slots)" "length slots = length fs"
    and args: "\<And>j. j < length fs \<Longrightarrow> field_ok m s (args ! j) (fs ! j) \<and> ty_depth (snd (fs ! j)) \<le> stack m"
    and filled: "\<And>j. j < i \<Longrightarrow> field_ok m s (slots ! j) (fs ! j)" and dom: "dom (objs m0) \<subseteq> dom (objs m)"
    and apart: "distinct (field_blocks (objs m) (take i slots) (take i fs))"
      "set (field_blocks (objs m) (take i slots) (take i fs)) \<inter> dom (objs m0) = {}" using b by (auto simp: building_def)
  define ty where "ty = snd (fs ! i)"
  have nm: "nm = CStr (fst (fs ! i))" and ty: "struct_free ty" "ty_depth ty \<le> stack m"
    using args [OF i] f by (auto simp: field_ok_def ty_def)
  define m1 where "m1 = m\<lparr>pool := tl (pool m)\<rparr>"
  define m2 where "m2 = m1\<lparr>objs := (objs m)(s \<mapsto> Tag_struct c r (slots[i := (nm, snd (slots ! i))]))\<rparr>"
  have 1: "strdup nm m = Inr (nm, m1)" "malloc_ready (blocks ty + N) m1"
    using malloc_ready_strdup [of "blocks ty + N" m "fst (fs ! i)"] ready by (simp_all add: nm m1_def ty_def)
  have 2: "write_field_name s i nm m1 = Inr m2"
    using s i r by (simp add: write_field_name_def as_struct_def load_object_def m1_def m2_def)
  have ready2: "malloc_ready (blocks ty + N) m2"
    using 1(2) malloc_ready_same_dom [of m2 m1] s(1) by (simp add: m2_def m1_def)
  have upd2: "field_ok m2 s x f" if "field_ok m s x f" for x f
    using field_ok_update [OF that] by (simp add: m2_def)
  have "denotes (objs m2) t ty" using upd2 args [OF i] f by (force simp: field_ok_def ty_def)
  then obtain t' m3 where 3: "type_dup t m2 = Inr (t', m3)" "copied m2 ty t' m3"
    using type_dup_at_copied [OF ty(1), of m2 t "stack m2"] ty(2) malloc_ready_add [OF ready2]
    by (auto simp: type_dup_def m2_def m1_def split: sum.splits)
  have s3: "objs m3 s = objs m2 s" "s \<notin> set (owned (objs m3) t' ty)"
    using copied_new [OF 3(2), of s] copied_extends [OF 3(2)] by (auto simp: m2_def map_le_def)
  define slots4 where "slots4 = slots[i := (nm, t')]"
  define m4 where "m4 = m3\<lparr>objs := (objs m3)(s \<mapsto> Tag_struct c r slots4)\<rparr>"
  have 4: "write_field_type s i t' m3 = Inr m4"
    using s i r s3(1) by (simp add: write_field_type_def as_struct_def load_object_def m4_def slots4_def m2_def)
  have upd4: "field_ok m4 s x f" "owned (objs m4) (snd x) (snd f) = owned (objs m3) (snd x) (snd f)" if "field_ok m3 s x f" for x f
    using field_ok_update [OF that, of m4] by (simp_all add: m4_def)
  have upd: "field_ok m4 s x f" "owned (objs m4) (snd x) (snd f) = owned (objs m) (snd x) (snd f)" if "field_ok m s x f" for x f
    using upd4 [OF field_ok_mono [OF upd2 [OF that] copied_extends [OF 3(2)]]] field_ok_update(2) [OF that, of m2]
      field_owned_mono [OF upd2 [OF that] copied_extends [OF 3(2)]] by (simp_all add: m2_def)
  have "field_ok m3 s (nm, t') (fs ! i)" using 3(2) s3(2) ty nm by (simp add: field_ok_def copied_def ty_def)
  then have new: "field_ok m4 s (slots4 ! i) (fs ! i)" "owned (objs m4) t' ty = owned (objs m3) t' ty"
    using upd4 [of "(nm, t')" "fs ! i"] i s(2) by (simp_all add: slots4_def ty_def)
  have st: "stack m4 = stack m" using 3(2) by (simp add: m4_def copied_def m2_def m1_def)
  have dom2: "dom (objs m2) = dom (objs m)" using s(1) by (auto simp: m2_def m1_def)
  have dom4: "dom (objs m) \<subseteq> dom (objs m4)" using map_le_implies_dom_le [OF copied_extends [OF 3(2)]] dom2 by (auto simp: m4_def)
  have fresh: "set (owned (objs m3) t' ty) \<inter> dom (objs m) = {}" "distinct (owned (objs m3) t' ty)"
    using 3(2) copied_new [OF 3(2)] unfolding dom2 [symmetric] by (auto simp: copied_def)
  note apart4 = field_blocks_grow [OF filled upd(2) [OF filled] i s(2) new(2) [unfolded ty_def] fresh [unfolded ty_def] dom apart,
      of nm, folded slots4_def]
  have "building m0 m4 s c r args fs (Suc i)"
    unfolding building_def
  proof (intro exI [of _ slots4] conjI allI impI dom4 [THEN subset_trans [OF dom]] apart4)
    show "field_ok m4 s (slots4 ! j) (fs ! j)" if "j < Suc i" for j
      using that filled upd(1) new(1) by (cases "j = i") (auto simp: slots4_def)
  qed (use s args upd(1) st in \<open>auto simp: m4_def slots4_def\<close>)
  moreover have "malloc_ready N m4"
    using malloc_ready_copied [OF ready2 3(2)] malloc_ready_same_dom [of m4 m3] s3(1) by (simp add: m4_def m2_def)
  moreover have "grows s m m4"
    unfolding grows_def
  proof (intro conjI allI impI st)
    fix b assume b: "b \<noteq> s" "objs m b \<noteq> None"
    then have "b \<in> dom (objs m2)" by (auto simp: m2_def)
    then have "objs m3 b = objs m2 b" using copied_extends [OF 3(2)] by (simp add: map_le_def)
    then show "objs m4 b = objs m b" using b by (simp add: m4_def m2_def)
  qed
  ultimately show ?thesis using 1(1) 2 3(1) 4 by blast
qed

lemma fill_fields_new:
  assumes len: "length args = length fs" and r: "16 * length fs \<le> r" "s \<noteq> NULL"
  shows "i \<le> length fs \<Longrightarrow> building m0 m s c r args fs i \<Longrightarrow> malloc_ready (fields_cost (drop i fs)) m \<Longrightarrow>
     \<exists>m'. fill_fields type_dup (\<lambda>_ i. if i < length args then Inr (args ! i) else Inl (Undef OutOfBounds))
         s [i..<length fs] m = Inr m'
       \<and> building m0 m' s c r args fs (length fs) \<and> grows s m m'"
proof (induction "length fs - i" arbitrary: i m)
  case 0
  then show ?case by (auto simp: grows_def)
next
  case (Suc n)
  then have i: "i < length fs" by simp
  obtain nm t where f: "args ! i = (nm, t)" by fastforce
  have "malloc_ready (Suc (blocks (snd (fs ! i))) + fields_cost (drop (Suc i) fs)) m"
    using Suc.prems(3) by (simp add: fields_cost_def Cons_nth_drop_Suc [OF i, symmetric])
  from fill_step [OF Suc.prems(2) i r f this] obtain m1 m2 t' m3 m4 where
    st: "strdup nm m = Inr (nm, m1)" "write_field_name s i nm m1 = Inr m2" "type_dup t m2 = Inr (t', m3)"
      "write_field_type s i t' m3 = Inr m4" and
    b: "building m0 m4 s c r args fs (Suc i)" "malloc_ready (fields_cost (drop (Suc i) fs)) m4" "grows s m m4" by blast
  have "n = length fs - Suc i" "Suc i \<le> length fs" using Suc.hyps(2) i by auto
  from Suc.hyps(1) [OF this b(1,2)] obtain m' where
    "fill_fields type_dup (\<lambda>_ i. if i < length args then Inr (args ! i) else Inl (Undef OutOfBounds))
         s [Suc i..<length fs] m4 = Inr m'" "building m0 m' s c r args fs (length fs)" "grows s m4 m'" by blast
  then show ?case using st b(3) f i len by (auto simp: upt_conv_Cons grows_def)
qed

lemma building_denotes:
  assumes "\<forall>j < length fs. field_ok m s (slots ! j) (fs ! j)" and "length slots = length fs"
  shows "denotes_fields (objs m) slots fs"
  using assms
proof (induction fs arbitrary: slots)
  case (Cons f fs)
  then obtain x xs where x: "slots = x # xs" "length xs = length fs" by (cases slots) auto
  have "field_ok m s x f" using Cons.prems(1) x(1) by force
  moreover have "\<forall>j < length fs. field_ok m s (xs ! j) (fs ! j)" using Cons.prems(1) x(1) by force
  ultimately show ?case using Cons.IH x by (cases f) (auto simp: field_ok_def)
qed simp

lemma cnt_bytes:
  assumes "0 \<le> sint (cnt :: c_int)" "sint cnt < 65536"
  shows "unat (8 + scast cnt * 16 :: size_t) - 8 = 16 * nat (sint cnt)"
    and "unat (ucast cnt :: 16 word) = nat (sint cnt)"
proof -
  define n where "n = nat (sint cnt)"
  have n: "sint cnt = int n" "n < 65536" using assms by (simp_all add: n_def)
  have "cnt = word_of_int (sint cnt)" by simp
  then have c: "cnt = of_nat n" using n(1) by simp
  have "(scast cnt :: size_t) = of_nat n" using n(1) by (simp add: scast_eq)
  then have "(8 + scast cnt * 16 :: size_t) = of_nat (8 + n * 16)" by simp
  then have "unat (8 + scast cnt * 16 :: size_t) = 8 + n * 16"
    using n(2) by (simp only: unat_of_nat) simp
  then show "unat (8 + scast cnt * 16 :: size_t) - 8 = 16 * nat (sint cnt)" using n(1) by simp
  have "(ucast cnt :: 16 word) = of_nat (unat cnt)" by simp
  also have "unat cnt = n" using n(2) by (simp add: c unat_of_nat)
  finally show "unat (ucast cnt :: 16 word) = nat (sint cnt)" using n by (simp add: unat_of_nat)
qed

text \<open>C29: with memory to spare, \<open>type_new_struct(n, name1, type1, ...)\<close> called with as
  many pairs as it says, fewer than 65536, of types without structs, returns a word for the struct
  of these fields and changes no object that was there. The types of the fields are copies: none of the blocks they are made
  of was in use before the call, so none is shared with the types that were given; nor do two fields, or a field and the
  struct, share one. (A field that is a struct goes wrong, see \<open>struct_dup_overflows\<close>.)\<close>

theorem type_new_struct_result:
  assumes "list_all2 (\<lambda>(nm, t) (x, ty). nm = CStr x \<and> struct_free ty \<and> denotes (objs m) t ty
      \<and> ty_depth ty \<le> stack m) args fs"
    and cnt: "sint cnt = int (length fs)" "length fs < 65536" and ready: "malloc_ready (Suc (fields_cost fs)) m"
  shows "\<exists>t m' slots. type_new_struct cnt args m = Inr (t, m') \<and> denotes (objs m') t (Str fs) \<and> objs m \<subseteq>\<^sub>m objs m'
    \<and> objs m t = None \<and> objs m' t = Some (Tag_struct (ucast cnt) (16 * length fs) slots) \<and> length slots = length fs
    \<and> distinct (t # field_blocks (objs m') slots fs) \<and> set (field_blocks (objs m') slots fs) \<inter> dom (objs m) = {}"
proof -
  let ?ob = "blank_struct (ucast cnt) (16 * length fs)"
  define s where "s = hd (pool m)"
  define m1 where "m1 = m\<lparr>pool := tl (pool m), objs := (objs m)(s \<mapsto> ?ob)\<rparr>"
  have b: "unat (8 + scast cnt * 16 :: size_t) - 8 = 16 * length fs" "unat (ucast cnt :: 16 word) = length fs"
    using cnt_bytes [of cnt] cnt by simp_all
  have mal: "malloc_object ?ob m = (s, m1)" "malloc_ready (fields_cost fs) m1" "s \<noteq> NULL"
    using malloc_ready_Suc [OF ready] by (simp_all add: m1_def s_def)
  have fresh: "fresh_answer m s"
    using ready by (cases "pool m") (auto simp: malloc_ready_def s_def)
  then have ext: "objs m \<subseteq>\<^sub>m objs m1" and s0: "objs m s = None"
    using fresh_update by (auto simp: m1_def fresh_answer_def)
  have len: "length args = length fs" using assms(1) list_all2_lengthD by blast
  have "field_ok m1 s (args ! j) (fs ! j) \<and> ty_depth (snd (fs ! j)) \<le> stack m1" if "j < length fs" for j
  proof -
    have f: "fst (args ! j) = CStr (fst (fs ! j))" "struct_free (snd (fs ! j))"
      "denotes (objs m) (snd (args ! j)) (snd (fs ! j))" "ty_depth (snd (fs ! j)) \<le> stack m"
      using list_all2_nthD2 [OF assms(1) that] by (simp_all add: split_beta)
    then have "field_ok m s (args ! j) (fs ! j)"
      using owned_alive [OF f(2,3)] s0 by (auto simp: field_ok_def)
    from field_ok_mono [OF this ext] f(4) show ?thesis by (simp add: m1_def)
  qed
  then have "building m m1 s (ucast cnt) (16 * length fs) args fs 0"
    by (auto simp: building_def m1_def blank_struct_def field_blocks_def)
  from fill_fields_new [OF len order_refl mal(3) _ this] mal(2) obtain m' where
    m': "fill_fields type_dup (\<lambda>_ i. if i < length args then Inr (args ! i) else Inl (Undef OutOfBounds))
         s [0..<length fs] m1 = Inr m'"
      "building m m' s (ucast cnt) (16 * length fs) args fs (length fs)" "grows s m1 m'" by auto
  have "type_new_struct cnt args m = Inr (s, m')"
    using m'(1) mal(1,3) b cnt(1) by (simp add: type_new_struct_def)
  moreover obtain slots where slots: "objs m' s = Some (Tag_struct (ucast cnt) (16 * length fs) slots)" "length slots = length fs"
      "\<forall>j < length fs. field_ok m' s (slots ! j) (fs ! j)"
    and blocks: "distinct (field_blocks (objs m') slots fs)" "set (field_blocks (objs m') slots fs) \<inter> dom (objs m) = {}"
    using m'(2) by (auto simp: building_def)
  moreover have "denotes (objs m') s (Str fs)"
    using slots b(2) building_denotes [OF slots(3,2)] fresh_above [OF fresh] by simp
  moreover have "s \<notin> set (field_blocks (objs m') slots fs)"
    using slots(3) by (simp add: set_field_blocks field_ok_def)
  moreover have "objs m \<subseteq>\<^sub>m objs m'"
    unfolding map_le_def
  proof
    fix a assume "a \<in> dom (objs m)"
    with s0 have "a \<noteq> s" "objs m1 a = objs m a" "objs m a \<noteq> None" by (auto simp: m1_def)
    with m'(3) show "objs m a = objs m' a" by (simp add: grows_def)
  qed
  ultimately show ?thesis using s0 by (intro exI [of _ s] exI [of _ m'] exI [of _ slots]) simp
qed

definition demo_given_mem :: mem where
  "demo_given_mem = \<lparr>objs = [16 \<mapsto> Tag_array 3 5], pool = [32, 48, 64, 80, 96], stack = 4\<rparr>"

text \<open>A struct of two arrays made from the same array type at 16: each field has its own copy.\<close>

theorem type_new_struct_result_witness:
  "\<exists>t m' x y. type_new_struct 2 [(CStr ''x'', 16), (CStr ''y'', 16)] demo_given_mem = Inr (t, m')
     \<and> denotes (objs m') t (Str [(''x'', Arr 5 (Simple TAG_INT)), (''y'', Arr 5 (Simple TAG_INT))])
     \<and> objs m' t = Some (Tag_struct 2 32 [(CStr ''x'', x), (CStr ''y'', y)]) \<and> distinct [16, t, x, y]"
proof -
  let ?fs = "[(''x'', Arr 5 (Simple TAG_INT)), (''y'', Arr 5 (Simple TAG_INT))]"
  have "malloc_ready (Suc (fields_cost ?fs)) demo_given_mem"
    by (simp add: fields_cost_def malloc_ready_def demo_given_mem_def fresh_answer_def aligned_def)
  from type_new_struct_result [OF _ _ _ this, of "[(CStr ''x'', 16), (CStr ''y'', 16)]" 2]
  obtain t m' slots where r: "type_new_struct 2 [(CStr ''x'', 16), (CStr ''y'', 16)] demo_given_mem = Inr (t, m')"
      "denotes (objs m') t (Str ?fs)" "objs m' t = Some (Tag_struct 2 32 slots)" "length slots = 2"
      "distinct (t # field_blocks (objs m') slots ?fs)" "set (field_blocks (objs m') slots ?fs) \<inter> dom (objs demo_given_mem) = {}"
      "objs demo_given_mem t = None"
    by (auto simp: SIMPLE_TYPE_def demo_given_mem_def)
  obtain n x k y where slots: "slots = [(n, x), (k, y)]" using r(4) by (auto simp: length_Suc_conv eval_nat_numeral)
  then show ?thesis using r by (auto simp: field_blocks_def demo_given_mem_def)
qed

lemma free_fields_simple:
  assumes fr: "\<And>e m. enum_value e \<le> 6 \<Longrightarrow> fr (SIMPLE_TYPE e) m = Inr m"
  shows "objs m s = Some (Tag_struct n r slots) \<Longrightarrow> s \<noteq> NULL \<Longrightarrow> distinct is \<Longrightarrow>
     \<forall>i \<in> set is. 16 * i + 16 \<le> r \<and> i < length slots \<and> (\<exists>x e. slots ! i = (CStr x, SIMPLE_TYPE e) \<and> enum_value e \<le> 6) \<Longrightarrow>
     \<exists>m'. free_fields fr s is m = Inr m' \<and> dom (objs m') = dom (objs m)"
proof (induction "is" arbitrary: m slots)
  case (Cons i "is")
  then obtain x e where i: "16 * i + 16 \<le> r" "i < length slots" "slots ! i = (CStr x, SIMPLE_TYPE e)"
    "enum_value e \<le> 6" by auto
  define slots1 where "slots1 = slots[i := (CFreed, SIMPLE_TYPE e)]"
  define m1 where "m1 = m\<lparr>objs := (objs m)(s \<mapsto> Tag_struct n r slots1)\<rparr>"
  have "\<exists>m'. free_fields fr s is m1 = Inr m' \<and> dom (objs m') = dom (objs m1)"
    using Cons.prems by (intro Cons.IH [of m1 slots1]) (auto simp: m1_def slots1_def nth_list_update)
  moreover have "dom (objs m1) = dom (objs m)" using Cons.prems(1) by (auto simp: m1_def)
  moreover have "free_fields fr s (i # is) m = free_fields fr s is m1"
    using Cons.prems(1,2) i fr [OF i(4)] by (simp add: read_field_def as_struct_def load_object_def free_string_def
        write_field_name_def m1_def slots1_def)
  ultimately show ?case by simp
qed simp

lemma type_free_simple: "enum_value e \<le> 6 \<Longrightarrow> type_free_at (Suc k) (SIMPLE_TYPE e) m = Inr m"
  by (cases e) simp_all

text \<open>\<open>type_free\<close> of a struct of simple fields returns, and frees no type object at
  all: the block of the struct stays allocated, for the branch has no \<open>free(s)\<close>.\<close>

lemma struct_free_leaks:
  assumes "denotes (objs m) t (Str fs)" and "list_all (\<lambda>f. case snd f of Simple _ \<Rightarrow> True | _ \<Rightarrow> False) fs"
    and "2 \<le> stack m"
  shows "\<exists>m'. type_free t m = Inr m' \<and> dom (objs m') = dom (objs m) \<and> objs m' t \<noteq> None"
proof -
  obtain n r slots where o: "objs m t = Some (Tag_struct n r slots)" "as_struct m t = Inr (n, r, slots)"
    "unat n = length fs" "16 * length fs \<le> r" "denotes_fields (objs m) slots fs"
    using as_struct_denotes [OF assms(1)] by auto
  have "6 < t" using assms(1) by simp
  then have t: "t \<noteq> NULL" by auto
  obtain k where k: "stack m = Suc (Suc k)" using assms(3) by (metis add_2_eq_Suc le_Suc_ex)
  have "\<exists>x e. slots ! i = (CStr x, SIMPLE_TYPE e) \<and> enum_value e \<le> 6" if i: "i < length fs" for i
  proof -
    have f: "fst (slots ! i) = CStr (fst (fs ! i))" "denotes (objs m) (snd (slots ! i)) (snd (fs ! i))"
      using denotes_fields_nth [OF o(5) i] by auto
    obtain e where "snd (fs ! i) = Simple e"
      using assms(2) i by (cases "snd (fs ! i)") (auto simp: list_all_length)
    with f show ?thesis by (metis denotes.simps(1) prod.collapse)
  qed
  then have slots: "\<forall>i \<in> set [0..<length fs]. 16 * i + 16 \<le> r \<and> i < length slots
      \<and> (\<exists>x e. slots ! i = (CStr x, SIMPLE_TYPE e) \<and> enum_value e \<le> 6)"
    using o(4) denotes_fields_nth [OF o(5)] by auto
  have "\<exists>m'. free_fields (type_free_at (Suc k)) t [0..<length fs] m = Inr m' \<and> dom (objs m') = dom (objs m)"
    by (rule free_fields_simple [OF _ o(1) t distinct_upt slots]) (rule type_free_simple)
  then obtain m' where m': "free_fields (type_free_at (Suc k)) t [0..<length fs] m = Inr m'"
    "dom (objs m') = dom (objs m)" by blast
  moreover have "objs m' t \<noteq> None" using m'(2) o(1) by (metis domIff option.distinct(1))
  moreover have "type_free t m = Inr m'"
    using k o(2,3) type_to_enum_denotes [OF assms(1)] m'(1) by (simp add: type_free_def)
  ultimately show ?thesis by blast
qed

lemma struct_free_leaks_witness:
  "\<exists>m'. type_free 32 demo_struct_mem = Inr m' \<and> dom (objs m') = dom (objs demo_struct_mem) \<and> objs m' 32 \<noteq> None"
  by (rule struct_free_leaks [of _ _ "[(''x'', Simple TAG_INT)]"]) (simp_all add: demo_struct_mem_def SIMPLE_TYPE_def)

end
