(* ===== verification/Tag_Tree.thy ===== *)
theory Tag_Tree
  imports Rb_Index Type_Spec Status
begin

text \<open>
  The store of tags, \<^verbatim>\<open>src/tagtree.c\<close>, with \<^verbatim>\<open>include/tagtree.h\<close>, \<^verbatim>\<open>tags.inc\<close>,
  \<^verbatim>\<open>include/lock_utils.h\<close> and the metatag record of \<^verbatim>\<open>include/plcstub.h\<close>: the static variables of
  the file, the nodes, their locks, and the functions that create, destroy, insert, remove and
  look up tags.
\<close>

section \<open>State\<close>

text \<open>
  \<open>mtx\<close> is the thread that holds the mutex of the node. \<open>name\<close> and \<open>data\<close> are blocks the node
  owns, kept as values; \<open>cb\<close> and \<open>tag_type\<close> are pointers.
\<close>

record tag_tree_node = rb_entry +
  tag_id :: c_int
  name :: cstr
  cb :: addr
  mtx :: "nat option"
  tag_type :: addr
  data :: "byte list"

datatype rwlock = RW_free | RW_read nat | RW_write

text \<open>
  The library: the root of the tree and the nodes in memory, the counter, the flag of
  \<open>tag_tree_init\<close>, the lock of the tree, the thread that is calling, the memory of the types
  and the answers of \<open>malloc\<close>, and what fresh memory contains. \<open>events\<close> records the calls of
  the callbacks, which \<open>Plcstub\<close> makes.
\<close>

record lib =
  tags_root :: addr
  tags_heap :: "addr \<rightharpoonup> tag_tree_node"
  tree_size :: size_t
  tag_tree_inited :: bool
  tag_tree_mtx :: rwlock
  self :: nat
  types :: mem
  dirt :: "nat \<Rightarrow> byte"
  events :: "(addr \<times> c_int \<times> c_int \<times> c_int) list"

definition METATAG_ID :: c_int where
  "METATAG_ID = 1"

definition INT_MAX :: c_int where
  "INT_MAX = 0x7FFFFFFF"

section \<open>Memory and locks\<close>

definition get_node :: "lib \<Rightarrow> addr \<Rightarrow> stop + tag_tree_node" where
  "get_node s a = (if a = NULL then Inl (Undef NullDeref) else deref (tags_heap s a))"

definition upd_node :: "addr \<Rightarrow> (tag_tree_node \<Rightarrow> tag_tree_node) \<Rightarrow> lib \<Rightarrow> stop + lib" where
  "upd_node a f s = bindE (get_node s a) (\<lambda>n. Inr (s\<lparr>tags_heap := (tags_heap s)(a \<mapsto> f n)\<rparr>))"

text \<open>\<open>malloc(sizeof(struct tag_tree_node))\<close>, and the node all of whose bytes are zero.\<close>

definition zero_node :: tag_tree_node where
  "zero_node = \<lparr>rbe_left = NULL, rbe_right = NULL, rbe_parent = NULL, tag_id = 0, name = CNull, cb = NULL,
     mtx = None, tag_type = NULL, data = []\<rparr>"

definition malloc_node :: "lib \<Rightarrow> addr \<times> lib" where
  "malloc_node s = (case pool (types s) of
       [] \<Rightarrow> (NULL, s)
     | a # as \<Rightarrow>
         let s = s\<lparr>types := (types s)\<lparr>pool := as\<rparr>\<rparr> in
         if a \<noteq> NULL \<and> aligned a \<and> tags_heap s a = None
         then (a, s\<lparr>tags_heap := (tags_heap s)(a \<mapsto> zero_node)\<rparr>) else (NULL, s))"

definition free_node :: "addr \<Rightarrow> lib \<Rightarrow> stop + lib" where
  "free_node a s = (if a = NULL then Inr s
     else if tags_heap s a = None then Inl (Undef BadFree)
     else Inr (s\<lparr>tags_heap := (tags_heap s)(a := None)\<rparr>))"

text \<open>The macros of \<open>lock_utils.h\<close>. A mutex that is held makes the caller wait, its holder
  included; unlocking a mutex the caller does not hold is undefined.\<close>

definition MTX_LOCK :: "addr \<Rightarrow> lib \<Rightarrow> stop + lib" where
  "MTX_LOCK a s = bindE (get_node s a) (\<lambda>n.
     if mtx n = None then upd_node a (\<lambda>n. n\<lparr>mtx := Some (self s)\<rparr>) s else Inl Blocked)"

definition MTX_UNLOCK :: "addr \<Rightarrow> lib \<Rightarrow> stop + lib" where
  "MTX_UNLOCK a s = bindE (get_node s a) (\<lambda>n.
     if mtx n = Some (self s) then upd_node a (\<lambda>n. n\<lparr>mtx := None\<rparr>) s else Inl (Undef BadUnlock))"

definition RW_RDLOCK :: "lib \<Rightarrow> stop + lib" where
  "RW_RDLOCK s = (case tag_tree_mtx s of
     RW_free \<Rightarrow> Inr (s\<lparr>tag_tree_mtx := RW_read 1\<rparr>)
   | RW_read n \<Rightarrow> Inr (s\<lparr>tag_tree_mtx := RW_read (Suc n)\<rparr>)
   | RW_write \<Rightarrow> Inl Blocked)"

definition RW_WRLOCK :: "lib \<Rightarrow> stop + lib" where
  "RW_WRLOCK s = (case tag_tree_mtx s of RW_free \<Rightarrow> Inr (s\<lparr>tag_tree_mtx := RW_write\<rparr>) | _ \<Rightarrow> Inl Blocked)"

definition RW_UNLOCK :: "lib \<Rightarrow> stop + lib" where
  "RW_UNLOCK s = (case tag_tree_mtx s of
     RW_free \<Rightarrow> Inl (Undef BadUnlock)
   | RW_read n \<Rightarrow> Inr (s\<lparr>tag_tree_mtx := (if n \<le> 1 then RW_free else RW_read (n - 1))\<rparr>)
   | RW_write \<Rightarrow> Inr (s\<lparr>tag_tree_mtx := RW_free\<rparr>))"

section \<open>The tree\<close>

definition tagcmp :: "tag_tree_node \<Rightarrow> tag_tree_node \<Rightarrow> int" where
  "tagcmp lhs rhs = (if tag_id lhs <s tag_id rhs then - 1 else if tag_id rhs <s tag_id lhs then 1 else 0)"

text \<open>\<open>struct tag_tree_node find; find.tag_id = id\<close>\<close>

definition find_key :: "c_int \<Rightarrow> tag_tree_node" where
  "find_key i = zero_node\<lparr>tag_id := i\<rparr>"

text \<open>The generated functions on the variable \<open>tag_tree\<close>.\<close>

definition tree :: "lib \<Rightarrow> addr \<times> (addr \<rightharpoonup> tag_tree_node)" where
  "tree s = (tags_root s, tags_heap s)"

definition tag_tree_find :: "c_int \<Rightarrow> lib \<Rightarrow> stop + addr" where
  "tag_tree_find i s = deref (RB_FIND tagcmp (tree s) (find_key i))"

definition tag_tree_max :: "lib \<Rightarrow> stop + addr" where
  "tag_tree_max s = deref (RB_MAX (tree s))"

definition tag_tree_nodes :: "lib \<Rightarrow> stop + addr list" where
  "tag_tree_nodes s = deref (RB_FOREACH (tree s))"

definition put_tree :: "lib \<Rightarrow> (addr \<times> (addr \<rightharpoonup> tag_tree_node)) \<times> addr \<Rightarrow> lib" where
  "put_tree s r = s\<lparr>tags_root := fst (fst r), tags_heap := snd (fst r)\<rparr>"

definition tag_tree_link :: "addr \<Rightarrow> lib \<Rightarrow> stop + lib" where
  "tag_tree_link a s = bindE (deref (RB_INSERT tagcmp (tree s) a)) (\<lambda>r. Inr (put_tree s r))"

definition tag_tree_unlink :: "addr \<Rightarrow> lib \<Rightarrow> stop + lib" where
  "tag_tree_unlink a s = bindE (deref (RB_REMOVE (tree s) a)) (\<lambda>r. Inr (put_tree s r))"

section \<open>Creating and destroying nodes\<close>

text \<open>
  \<open>pthread_mutex_t mtx = tag->mtx\<close>: the mutex is copied to a local before the node is freed, and the copy is unlocked and destroyed.
  POSIX leaves the use of a copy undefined. Here the copy is a mutex of its own in the state of the original, as it is where a
  mutex is no more than its bytes: unlocking it without holding it is undefined, and so is destroying it while it is locked.
\<close>

definition MTX_UNLOCK_copy :: "nat option \<Rightarrow> lib \<Rightarrow> stop + nat option" where
  "MTX_UNLOCK_copy m s = (if m = Some (self s) then Inr None else Inl (Undef BadUnlock))"

definition mutex_destroy_copy :: "nat option \<Rightarrow> stop + unit" where
  "mutex_destroy_copy m = (if m = None then Inr () else Inl (Undef BadDestroy))"

definition tag_tree_node_destroy :: "addr \<Rightarrow> lib \<Rightarrow> stop + lib" where
  "tag_tree_node_destroy tag s =
     (if tag = NULL then Inr s
      else bindE (MTX_LOCK tag s) (\<lambda>s.
           bindE (get_node s tag) (\<lambda>n.
           bindE (free_string (name n)) (\<lambda>_.
           bindE (free_node tag s) (\<lambda>s.
           bindE (MTX_UNLOCK_copy (mtx n) s) (\<lambda>m.
           bindE (mutex_destroy_copy m) (\<lambda>_. Inr s)))))))"

text \<open>Removing the metatag, if there is one: the same lines in both functions that create a node.\<close>

definition drop_metatag :: "lib \<Rightarrow> stop + lib" where
  "drop_metatag s =
     bindE (tag_tree_find METATAG_ID s) (\<lambda>metatag.
     if metatag \<noteq> NULL then
       bindE (tag_tree_unlink metatag s) (\<lambda>s.
       tag_tree_node_destroy metatag (s\<lparr>tree_size := tree_size s - 1\<rparr>))
     else Inr s)"

text \<open>The identifier of the next tag.\<close>

definition next_id :: "lib \<Rightarrow> stop + c_int" where
  "next_id s = bindE (tag_tree_max s) (\<lambda>tag.
     if tag = NULL then Inr (METATAG_ID + 1)
     else bindE (get_node s tag) (\<lambda>n.
       if tag_id n = INT_MAX then Inl (Undef SignedOverflow) else Inr (tag_id n + 1)))"

definition tag_tree_node_create :: "cstr \<Rightarrow> addr \<Rightarrow> lib \<Rightarrow> stop + addr \<times> lib" where
  "tag_tree_node_create nm ty s =
     bindE (type_size_bytes (types s) ty) (\<lambda>sz. let sz = (if sz < 8 then 8 else sz) in
     bindE (next_id s) (\<lambda>i.
     case malloc_node s of (tag, s) \<Rightarrow> if tag = NULL then Inl Exit else
     bindE (strdup nm (types s)) (\<lambda>(nm', m). let s = s\<lparr>types := m\<rparr> in
     bindE (upd_node tag (\<lambda>n. n\<lparr>name := nm'\<rparr>) s) (\<lambda>s. if nm' = CNull then Inl Exit else
     bindE (type_dup ty (types s)) (\<lambda>(ty', m). let s = s\<lparr>types := m\<rparr> in
     bindE (upd_node tag (\<lambda>n. n\<lparr>tag_type := ty'\<rparr>) s) (\<lambda>s. if ty' = NULL then Inl Exit else
     case malloc_value (types s) of (ok, m) \<Rightarrow> let s = s\<lparr>types := m\<rparr> in if \<not> ok then Inl Exit else
     bindE (upd_node tag (\<lambda>n. n\<lparr>data := replicate (unat sz) 0x42\<rparr>) s) (\<lambda>s.
     bindE (upd_node tag (\<lambda>n. n\<lparr>tag_id := i\<rparr>) s) (\<lambda>s.
     bindE (tag_tree_link tag s) (\<lambda>s.
     bindE (drop_metatag (s\<lparr>tree_size := tree_size s + 1\<rparr>)) (\<lambda>s.
     bindE (MTX_LOCK tag s) (\<lambda>s.
     Inr (tag, s))))))))))))"

section \<open>The metatag\<close>

text \<open>\<open>struct metatag_t\<close> is packed, its integers little-endian.\<close>

record metatag_t =
  mt_id :: "32 word"
  mt_type :: "16 word"
  mt_elem_size :: "16 word"
  mt_array_dims :: "32 word \<times> 32 word \<times> 32 word"
  mt_length :: "16 word"

definition le_bytes :: "nat \<Rightarrow> 'a::len word \<Rightarrow> byte list" where
  "le_bytes n w = map (\<lambda>i. ucast (drop_bit (8 * i) w)) [0..<n]"

lemma length_le_bytes [simp]: "length (le_bytes n w) = n"
  by (simp add: le_bytes_def)

definition metatag_bytes :: "metatag_t \<Rightarrow> byte list" where
  "metatag_bytes mt = le_bytes 4 (mt_id mt) @ le_bytes 2 (mt_type mt) @ le_bytes 2 (mt_elem_size mt)
     @ (case mt_array_dims mt of (d0, d1, d2) \<Rightarrow> le_bytes 4 d0 @ le_bytes 4 d1 @ le_bytes 4 d2)
     @ le_bytes 2 (mt_length mt)"

definition sizeof_metatag :: nat where
  "sizeof_metatag = 22"

definition write_bytes :: "byte list \<Rightarrow> nat \<Rightarrow> byte list \<Rightarrow> stop + byte list" where
  "write_bytes buf p bs = (if p + length bs \<le> length buf
     then Inr (take p buf @ bs @ drop (p + length bs) buf) else Inl (Undef OutOfBounds))"

definition strlen :: "cstr \<Rightarrow> stop + string" where
  "strlen s = (case s of CNull \<Rightarrow> Inl (Undef NullDeref) | CFreed \<Rightarrow> Inl (Undef BadPointer) | CStr x \<Rightarrow> Inr x)"

text \<open>The first loop over the tags: the bytes the records of all tags take.\<close>

fun metatag_total :: "lib \<Rightarrow> addr list \<Rightarrow> size_t \<Rightarrow> stop + size_t" where
  "metatag_total s [] tot = Inr tot"
| "metatag_total s (a # as) tot =
     bindE (get_node s a) (\<lambda>n.
     bindE (strlen (name n)) (\<lambda>x.
     metatag_total s as (tot + (of_nat sizeof_metatag + of_nat (length x)))))"

definition metatag_of :: "lib \<Rightarrow> tag_tree_node \<Rightarrow> string \<Rightarrow> stop + metatag_t" where
  "metatag_of s n x =
     bindE (type_size_bytes (types s) (tag_type n)) (\<lambda>sz.
     bindE (type_is_scalar (types s) (tag_type n)) (\<lambda>scalar.
     bindE (type_to_enum (types s) (tag_type n)) (\<lambda>e.
     bindE (if scalar \<or> e = TAG_STRUCT then Inr 0
            else bindE (as_array (types s) (tag_type n)) (\<lambda>(mt, len). Inr (ucast len))) (\<lambda>dim.
     Inr \<lparr>mt_id = tag_id n, mt_type = push_bit 13 1, mt_elem_size = ucast sz,
          mt_array_dims = (dim, 0, 0), mt_length = of_nat (length x)\<rparr>))))"

text \<open>The second loop: the record of each tag and its name, from the position \<open>p\<close>.\<close>

fun metatag_fill :: "lib \<Rightarrow> addr list \<Rightarrow> byte list \<Rightarrow> nat \<Rightarrow> stop + byte list" where
  "metatag_fill s [] buf p = Inr buf"
| "metatag_fill s (a # as) buf p =
     bindE (get_node s a) (\<lambda>n.
     bindE (strlen (name n)) (\<lambda>x.
     bindE (metatag_of s n x) (\<lambda>mt.
     bindE (write_bytes buf p (metatag_bytes mt)) (\<lambda>buf.
     bindE (write_bytes buf (p + sizeof_metatag) (map of_char (take (unat (mt_length mt)) x))) (\<lambda>buf.
     metatag_fill s as buf (p + sizeof_metatag + unat (mt_length mt)))))))"

definition tag_tree_metanode_create :: "lib \<Rightarrow> stop + addr \<times> lib" where
  "tag_tree_metanode_create s =
     bindE (tag_tree_nodes s) (\<lambda>as.
     bindE (metatag_total s as 0) (\<lambda>tot.
     bindE (drop_metatag s) (\<lambda>s.
     case malloc_node s of (tag, s) \<Rightarrow> if tag = NULL then Inl Exit else
     bindE (strdup (CStr ''@tags'') (types s)) (\<lambda>(nm, m). let s = s\<lparr>types := m\<rparr> in
     bindE (upd_node tag (\<lambda>n. n\<lparr>name := nm, tag_id := METATAG_ID, cb := NULL\<rparr>) s) (\<lambda>s.
     bindE (type_new_array (ucast tot) (type_new_simple TAG_SINT) (types s)) (\<lambda>(ty, m). let s = s\<lparr>types := m\<rparr> in
     bindE (upd_node tag (\<lambda>n. n\<lparr>tag_type := ty\<rparr>) s) (\<lambda>s.
     case malloc_value (types s) of (ok, m) \<Rightarrow> let s = s\<lparr>types := m\<rparr> in if \<not> ok then Inl Exit else
     bindE (tag_tree_nodes s) (\<lambda>as.
     bindE (metatag_fill s as (map (dirt s) [0..<unat tot]) 0) (\<lambda>buf.
     bindE (upd_node tag (\<lambda>n. n\<lparr>data := buf\<rparr>) s) (\<lambda>s.
     bindE (tag_tree_link tag s) (\<lambda>s.
     Inr (tag, s))))))))))))"

section \<open>Initialisation\<close>

text \<open>The lines \<open>DEFINE_SCALAR(name, type, val)\<close> of \<open>tags.inc\<close>.\<close>

definition tags_inc :: "(string \<times> tag_type_e \<times> byte) list" where
  "tags_inc =
    [(''DUMMY_AQUA_DATA_0'', TAG_INT, 0), (''DUMMY_AQUA_DATA_1'', TAG_INT, 1),
     (''DUMMY_AQUA_DATA_2'', TAG_INT, 2), (''DUMMY_AQUA_DATA_3'', TAG_INT, 3),
     (''DUMMY_AQUA_DATA_4'', TAG_INT, 4), (''DUMMY_AQUA_DATA_5'', TAG_INT, 5),
     (''DUMMY_AQUA_DATA_6'', TAG_INT, 6), (''DUMMY_AQUA_DATA_7'', TAG_INT, 7),
     (''DUMMY_AQUA_DATA_8'', TAG_INT, 8), (''DUMMY_AQUA_DATA_9'', TAG_INT, 9)]"

text \<open>\<open>*tag->data = val\<close> assigns to a \<open>char\<close>: the first byte.\<close>

definition DEFINE_SCALAR :: "string \<times> tag_type_e \<times> byte \<Rightarrow> lib \<Rightarrow> stop + lib" where
  "DEFINE_SCALAR = (\<lambda>(nm, e, val) s.
     bindE (tag_tree_node_create (CStr nm) (type_new_simple e) s) (\<lambda>(tag, s).
     bindE (upd_node tag (\<lambda>n. n\<lparr>data := (data n)[0 := val]\<rparr>) s) (\<lambda>s.
     MTX_UNLOCK tag s)))"

fun define_tags :: "(string \<times> tag_type_e \<times> byte) list \<Rightarrow> lib \<Rightarrow> stop + lib" where
  "define_tags [] s = Inr s"
| "define_tags (d # ds) s = bindE (DEFINE_SCALAR d s) (define_tags ds)"

definition tag_tree_init :: "lib \<Rightarrow> stop + lib" where
  "tag_tree_init s =
     bindE (RW_RDLOCK s) (\<lambda>s.
     if tag_tree_inited s then RW_UNLOCK s
     else bindE (RW_UNLOCK s) (\<lambda>s. bindE (RW_WRLOCK s) (\<lambda>s.
       if tag_tree_inited s then RW_UNLOCK s
       else bindE (define_tags tags_inc (s\<lparr>tag_tree_inited := True\<rparr>)) RW_UNLOCK)))"

section \<open>The interface of the store\<close>

text \<open>\<open>strcmp(name, "@tags") == 0\<close>\<close>

definition is_metatag_name :: "cstr \<Rightarrow> stop + bool" where
  "is_metatag_name nm = bindE (strlen nm) (\<lambda>x. Inr (x = ''@tags''))"

definition tag_tree_insert :: "cstr \<Rightarrow> addr \<Rightarrow> lib \<Rightarrow> stop + c_int \<times> lib" where
  "tag_tree_insert nm ty s =
     bindE (tag_tree_init s) (\<lambda>s.
     bindE (RW_WRLOCK s) (\<lambda>s.
     bindE (is_metatag_name nm) (\<lambda>meta.
     bindE (if meta then
              bindE (tag_tree_metanode_create s) (\<lambda>(tag, s).
              bindE (get_node s tag) (\<lambda>n. Inr (tag_id n, s)))
            else
              bindE (tag_tree_node_create nm ty s) (\<lambda>(tag, s).
              bindE (MTX_UNLOCK tag s) (\<lambda>s.
              bindE (get_node s tag) (\<lambda>n. Inr (tag_id n, s))))) (\<lambda>(ret, s).
     bindE (RW_UNLOCK s) (\<lambda>s.
     Inr (ret, s))))))"

definition tag_tree_remove :: "c_int \<Rightarrow> lib \<Rightarrow> stop + c_int \<times> lib" where
  "tag_tree_remove i s =
     (if i = METATAG_ID then Inr (PLCTAG_STATUS_OK, s)
      else
        bindE (tag_tree_init s) (\<lambda>s.
        bindE (RW_WRLOCK s) (\<lambda>s.
        bindE (tag_tree_find i s) (\<lambda>tag.
        if tag = NULL then bindE (RW_UNLOCK s) (\<lambda>s. Inr (PLCTAG_ERR_NOT_FOUND, s))
        else
          bindE (MTX_LOCK tag s) (\<lambda>s.
          bindE (tag_tree_unlink tag s) (\<lambda>s.
          bindE (RW_UNLOCK (s\<lparr>tree_size := tree_size s - 1\<rparr>)) (\<lambda>s.
          bindE (MTX_UNLOCK tag s) (\<lambda>s.
          bindE (tag_tree_node_destroy tag s) (\<lambda>s.
          Inr (PLCTAG_STATUS_OK, s))))))))))"

definition tag_tree_lookup :: "c_int \<Rightarrow> lib \<Rightarrow> stop + addr \<times> lib" where
  "tag_tree_lookup i s =
     bindE (tag_tree_init s) (\<lambda>s.
     bindE (if i = METATAG_ID then RW_WRLOCK s else RW_RDLOCK s) (\<lambda>s.
     bindE (tag_tree_find i s) (\<lambda>ret.
     bindE (if ret = NULL \<and> i = METATAG_ID then tag_tree_metanode_create s else Inr (ret, s)) (\<lambda>(ret, s).
     bindE (RW_UNLOCK s) (\<lambda>s.
     Inr (ret, s))))))"

end
