(* ===== verification/Tag_Store.thy ===== *)
theory Tag_Store
  imports Tag_Tree
begin

text \<open>
  What the store of tags promises: an abstract map from identifiers to tags, and the effect of
  every function of \<open>Tag_Tree\<close> on it. The tree enters only through the laws of the index, at the
  interpretation of \<open>rb_order\<close> for \<open>tagcmp\<close>.
\<close>

section \<open>The index of the tags\<close>

text \<open>The key the tree orders nodes by, read from the payload of a node.\<close>

definition tag_key :: "unit tag_tree_node_ext \<Rightarrow> int" where
  "tag_key m = sint (tag_id (rb_entry.extend \<lparr>rbe_left = 0, rbe_right = 0, rbe_parent = 0\<rparr> m))"

lemma tag_key_more: "tag_key (rb_entry.more n) = sint (tag_id n)" for n :: tag_tree_node
  by (cases n) (simp add: tag_key_def rb_entry.extend_def)

interpretation tags: rb_order tagcmp tag_key
  by unfold_locales (auto simp: tagcmp_def tag_key_more word_sless_alt)

text \<open>Nodes with the same payload.\<close>

lemma more_eqD:
  fixes n n' :: tag_tree_node
  assumes "rb_entry.more n = rb_entry.more n'"
  shows "tag_id n' = tag_id n" "name n' = name n" "cb n' = cb n" "mtx n' = mtx n"
    "tag_type n' = tag_type n" "data n' = data n"
  using assms by (cases n; cases n'; simp)+

definition id_of :: "lib \<Rightarrow> addr \<Rightarrow> int" where
  "id_of s a = sint (tag_id (the (tags_heap s a)))"

definition in_tree :: "lib \<Rightarrow> addr list \<Rightarrow> bool" where
  "in_tree s as \<longleftrightarrow> rb_holds tag_key (tree s) as"

lemma akey_id_of: "tags_heap s a = Some n \<Longrightarrow> akey tag_key (tree s) a = id_of s a"
  by (simp add: akey_def tree_def pay_def id_of_def tag_key_more)

lemma in_tree_alive: "in_tree s as \<Longrightarrow> a \<in> set as \<Longrightarrow> \<exists>n. tags_heap s a = Some n"
  by (auto simp: in_tree_def rb_holds_def tree_def)

lemma in_tree_key: "in_tree s as \<Longrightarrow> a \<in> set as \<Longrightarrow> akey tag_key (tree s) a = id_of s a"
  using in_tree_alive akey_id_of by blast

lemma in_tree_keys: "in_tree s as \<Longrightarrow> akey tag_key (tree s) ` set as = id_of s ` set as"
  using in_tree_key by (intro image_cong) auto

lemma in_tree_not_null: "in_tree s as \<Longrightarrow> NULL \<notin> set as"
  unfolding in_tree_def by (rule tags.idx.holds_not_null)

lemma in_tree_distinct: "in_tree s as \<Longrightarrow> distinct as"
  unfolding in_tree_def by (rule tags.idx.holds_distinct)

lemma in_tree_inj: "in_tree s as \<Longrightarrow> a \<in> set as \<Longrightarrow> b \<in> set as \<Longrightarrow> id_of s a = id_of s b \<Longrightarrow> a = b"
  using tags.idx.holds_key_inj [of "tree s" as a b] in_tree_key by (simp add: in_tree_def)

lemma in_tree_sorted: "in_tree s as \<Longrightarrow> sorted_wrt (<) (map (id_of s) as)"
proof -
  assume a: "in_tree s as"
  then have eq: "map (akey tag_key (tree s)) as = map (id_of s) as" using in_tree_key by auto
  show ?thesis using tags.idx.holds_sorted [of "tree s" as] a unfolding in_tree_def eq by blast
qed

lemma find_key_key: "tag_key (rb_entry.more (find_key i)) = sint i"
  by (simp add: tag_key_more find_key_def)

lemma find_member:
  assumes "in_tree s as" and "a \<in> set as" and "id_of s a = sint i"
  shows "tag_tree_find i s = Inr a"
  using assms tags.idx.find_found [of "tree s" as a "find_key i"] in_tree_key [of s as a]
  by (simp add: tag_tree_find_def in_tree_def find_key_key)

lemma find_missing:
  assumes "in_tree s as" and "sint i \<notin> id_of s ` set as"
  shows "tag_tree_find i s = Inr NULL"
  using assms tags.idx.find_missing [of "tree s" as "find_key i"] in_tree_keys [of s as]
  by (simp add: tag_tree_find_def in_tree_def find_key_key)

lemma max_node: "in_tree s as \<Longrightarrow> tag_tree_max s = Inr (last_or_null as)"
  using tags.idx.max_last [of "tree s" as] by (simp add: tag_tree_max_def in_tree_def)

lemma each_node: "in_tree s as \<Longrightarrow> tag_tree_nodes s = Inr as"
  using tags.idx.each_all [of "tree s" as] by (simp add: tag_tree_nodes_def in_tree_def)

text \<open>A state in which only the links of the tree have changed.\<close>

definition relinked :: "lib \<Rightarrow> lib \<Rightarrow> bool" where
  "relinked s s' \<longleftrightarrow> pay (tags_heap s') = pay (tags_heap s)
     \<and> s' = s\<lparr>tags_root := tags_root s', tags_heap := tags_heap s'\<rparr>"

lemma relinked_node:
  assumes "relinked s s'"
  shows "tags_heap s a = Some n \<Longrightarrow> \<exists>n'. tags_heap s' a = Some n' \<and> rb_entry.more n' = rb_entry.more n"
    and "tags_heap s' a = Some n' \<Longrightarrow> \<exists>n. tags_heap s a = Some n \<and> rb_entry.more n' = rb_entry.more n"
    and "tags_heap s a = None \<longleftrightarrow> tags_heap s' a = None"
proof -
  have p: "pay (tags_heap s') a = pay (tags_heap s) a" using assms by (simp add: relinked_def)
  then show "tags_heap s a = Some n \<Longrightarrow> \<exists>n'. tags_heap s' a = Some n' \<and> rb_entry.more n' = rb_entry.more n"
    "tags_heap s' a = Some n' \<Longrightarrow> \<exists>n. tags_heap s a = Some n \<and> rb_entry.more n' = rb_entry.more n"
    by (cases "tags_heap s a"; cases "tags_heap s' a"; simp add: pay_def)+
  show "tags_heap s a = None \<longleftrightarrow> tags_heap s' a = None" using p by (auto simp: pay_def)
qed

lemma relinked_dom: "relinked s s' \<Longrightarrow> dom (tags_heap s') = dom (tags_heap s)"
  unfolding dom_def using relinked_node(3) [of s s'] by (intro Collect_cong) simp

lemma relinked_other:
  assumes "relinked s s'"
  shows "types s' = types s" "tree_size s' = tree_size s" "tag_tree_inited s' = tag_tree_inited s"
    "tag_tree_mtx s' = tag_tree_mtx s" "self s' = self s" "dirt s' = dirt s" "events s' = events s"
proof -
  have e: "s' = s\<lparr>tags_root := tags_root s', tags_heap := tags_heap s'\<rparr>" using assms by (simp add: relinked_def)
  show "types s' = types s" "tree_size s' = tree_size s" "tag_tree_inited s' = tag_tree_inited s"
    "tag_tree_mtx s' = tag_tree_mtx s" "self s' = self s" "dirt s' = dirt s" "events s' = events s"
    by (subst e, simp)+
qed

lemma relinked_id: "relinked s s' \<Longrightarrow> id_of s' a = id_of s a"
proof (cases "tags_heap s a")
  case None
  assume "relinked s s'"
  then show ?thesis using relinked_node(3) [of s s' a] None by (simp add: id_of_def)
next
  case (Some n)
  assume "relinked s s'"
  then obtain n' where "tags_heap s' a = Some n'" "rb_entry.more n' = rb_entry.more n"
    using relinked_node(1) Some by blast
  then show ?thesis using Some more_eqD(1) [of n n'] by (simp add: id_of_def)
qed

lemma link_top:
  assumes t: "in_tree s as" and a: "tags_heap s a = Some n" "a \<noteq> NULL" "aligned a"
    and top: "\<forall>b \<in> set as. id_of s b < id_of s a"
  shows "\<exists>s'. tag_tree_link a s = Inr s' \<and> relinked s s' \<and> in_tree s' (as @ [a])"
proof -
  have "rb_allocated (tree s) a" using a by (simp add: rb_allocated_def tree_def)
  moreover have "\<forall>b \<in> set as. akey tag_key (tree s) b < akey tag_key (tree s) a"
    using top in_tree_key [OF t] akey_id_of [OF a(1)] by simp
  ultimately obtain r where "RB_INSERT tagcmp (tree s) a = Some (r, NULL)" "rb_same (tree s) r"
      "rb_holds tag_key r (as @ [a])"
    using tags.idx.insert_top [of "tree s" as a] t by (auto simp: in_tree_def)
  then show ?thesis
    by (auto simp: tag_tree_link_def put_tree_def relinked_def rb_same_def in_tree_def tree_def)
qed

lemma link_bottom:
  assumes t: "in_tree s as" and a: "tags_heap s a = Some n" "a \<noteq> NULL" "aligned a"
    and bot: "\<forall>b \<in> set as. id_of s a < id_of s b"
  shows "\<exists>s'. tag_tree_link a s = Inr s' \<and> relinked s s' \<and> in_tree s' (a # as)"
proof -
  have "rb_allocated (tree s) a" using a by (simp add: rb_allocated_def tree_def)
  moreover have "\<forall>b \<in> set as. akey tag_key (tree s) a < akey tag_key (tree s) b"
    using bot in_tree_key [OF t] akey_id_of [OF a(1)] by simp
  ultimately obtain r where "RB_INSERT tagcmp (tree s) a = Some (r, NULL)" "rb_same (tree s) r"
      "rb_holds tag_key r (a # as)"
    using tags.idx.insert_bottom [of "tree s" as a] t by (auto simp: in_tree_def)
  then show ?thesis
    by (auto simp: tag_tree_link_def put_tree_def relinked_def rb_same_def in_tree_def tree_def)
qed

lemma unlink_node:
  assumes "in_tree s as" and "a \<in> set as"
  shows "\<exists>s'. tag_tree_unlink a s = Inr s' \<and> relinked s s' \<and> in_tree s' (remove1 a as)"
proof -
  obtain r where "RB_REMOVE (tree s) a = Some (r, a)" "rb_same (tree s) r" "rb_holds tag_key r (remove1 a as)"
    using tags.idx.remove_member [of "tree s" as a] assms by (auto simp: in_tree_def)
  then show ?thesis
    by (auto simp: tag_tree_unlink_def put_tree_def relinked_def rb_same_def in_tree_def tree_def)
qed

lemma in_tree_frame:
  assumes "in_tree s as" and "tags_root s' = tags_root s"
    and "\<And>a. a \<in> set as \<Longrightarrow> lk (tags_heap s') a = lk (tags_heap s) a \<and> id_of s' a = id_of s a"
  shows "in_tree s' as"
proof -
  have "akey tag_key (tree s') a = akey tag_key (tree s) a" if mem: "a \<in> set as" for a
  proof -
    obtain n where n: "tags_heap s a = Some n" using in_tree_alive [OF assms(1) mem] by blast
    then obtain n' where "tags_heap s' a = Some n'"
      using assms(3) [OF mem] dom_lk [of "tags_heap s'" a] dom_lk [of "tags_heap s" a] by (cases "tags_heap s' a") auto
    then show ?thesis using n akey_id_of assms(3) [OF mem] by simp
  qed
  then show ?thesis
    using rb_holds_frame [of tag_key "tree s" as "tags_heap s'"] assms by (simp add: in_tree_def tree_def)
qed

lemma in_tree_upd:
  assumes "in_tree s as" and "\<And>n. a \<in> set as \<Longrightarrow> rbe_left (f n) = rbe_left n \<and> rbe_right (f n) = rbe_right n
      \<and> rbe_parent (f n) = rbe_parent n \<and> tag_id (f n) = tag_id n" and "upd_node a f s = Inr s'"
  shows "in_tree s' as"
  using assms(1)
proof (rule in_tree_frame)
  show "tags_root s' = tags_root s"
    using assms(3) by (auto simp: upd_node_def get_node_def bindE_Inr_iff split: if_splits)
  fix b assume "b \<in> set as"
  then show "lk (tags_heap s') b = lk (tags_heap s) b \<and> id_of s' b = id_of s b"
    using assms(2,3) by (auto simp: upd_node_def get_node_def bindE_Inr_iff lk_def id_of_def split: if_splits)
qed

section \<open>The abstract store\<close>

text \<open>A tag as its users see it; the store maps identifiers to tags.\<close>

record tag =
  t_name :: string
  t_type :: ty
  t_cb :: addr
  t_mtx :: "nat option"
  t_data :: "byte list"

type_synonym store = "int \<rightharpoonup> tag"

text \<open>The buffer of a tag is at least as long as its type says, and that of a scalar at least a word.\<close>

definition sized :: "tag \<Rightarrow> bool" where
  "sized t \<longleftrightarrow> struct_free (t_type t) \<and> unat (of_nat (ty_size (t_type t)) :: size_t) \<le> length (t_data t)
     \<and> (shape (t_type t) \<noteq> TAG_ARRAY \<longrightarrow> 8 \<le> length (t_data t))"

definition node_is :: "mem \<Rightarrow> tag_tree_node \<Rightarrow> tag \<Rightarrow> bool" where
  "node_is m n t \<longleftrightarrow> name n = CStr (t_name t) \<and> denotes (objs m) (tag_type n) (t_type t)
     \<and> ty_depth (t_type t) \<le> stack m \<and> cb n = t_cb t \<and> mtx n = t_mtx t \<and> data n = t_data t \<and> sized t"

text \<open>
  \<open>store_but E s T\<close>: the tree of \<open>s\<close> holds exactly the tags of \<open>T\<close>, and the nodes in memory are
  those of the tree and the ones of \<open>E\<close>, which are being created or destroyed.
\<close>

definition store_but :: "addr set \<Rightarrow> lib \<Rightarrow> store \<Rightarrow> bool" where
  "store_but E s T \<longleftrightarrow> (\<exists>as. in_tree s as \<and> set as \<inter> E = {} \<and> dom (tags_heap s) = E \<union> set as
     \<and> (\<forall>a \<in> set as. \<exists>t. T (id_of s a) = Some t \<and> node_is (types s) (the (tags_heap s a)) t \<and> 1 \<le> id_of s a)
     \<and> dom T = id_of s ` set as) \<and> 2 \<le> stack (types s)"

abbreviation store_is :: "lib \<Rightarrow> store \<Rightarrow> bool" where
  "store_is \<equiv> store_but {}"

text \<open>The node of a tag.\<close>

definition points :: "lib \<Rightarrow> addr \<Rightarrow> int \<Rightarrow> bool" where
  "points s a i \<longleftrightarrow> a \<noteq> NULL \<and> (\<exists>n. tags_heap s a = Some n \<and> sint (tag_id n) = i)"

lemma other_fields [simp]:
  "in_tree (s\<lparr>tree_size := x1\<rparr>) = in_tree s" "in_tree (s\<lparr>tag_tree_inited := x2\<rparr>) = in_tree s"
  "in_tree (s\<lparr>tag_tree_mtx := x3\<rparr>) = in_tree s" "in_tree (s\<lparr>types := x4\<rparr>) = in_tree s"
  "in_tree (s\<lparr>events := x5\<rparr>) = in_tree s" "in_tree (s\<lparr>self := x6\<rparr>) = in_tree s"
  "id_of (s\<lparr>tree_size := x1\<rparr>) = id_of s" "id_of (s\<lparr>tag_tree_inited := x2\<rparr>) = id_of s"
  "id_of (s\<lparr>tag_tree_mtx := x3\<rparr>) = id_of s" "id_of (s\<lparr>types := x4\<rparr>) = id_of s"
  "id_of (s\<lparr>events := x5\<rparr>) = id_of s" "id_of (s\<lparr>self := x6\<rparr>) = id_of s"
  by (simp_all add: in_tree_def tree_def id_of_def fun_eq_iff)

lemma store_other_fields [simp]:
  "store_but E (s\<lparr>tree_size := x1\<rparr>) T = store_but E s T"
  "store_but E (s\<lparr>tag_tree_inited := x2\<rparr>) T = store_but E s T"
  "store_but E (s\<lparr>tag_tree_mtx := x3\<rparr>) T = store_but E s T"
  "store_but E (s\<lparr>events := x5\<rparr>) T = store_but E s T"
  "store_but E (s\<lparr>self := x6\<rparr>) T = store_but E s T"
  by (simp_all add: store_but_def)

lemma points_other_fields [simp]:
  "points (s\<lparr>tree_size := x1\<rparr>) a i = points s a i"
  "points (s\<lparr>tag_tree_inited := x2\<rparr>) a i = points s a i"
  "points (s\<lparr>tag_tree_mtx := x3\<rparr>) a i = points s a i"
  "points (s\<lparr>types := x4\<rparr>) a i = points s a i"
  "points (s\<lparr>events := x5\<rparr>) a i = points s a i"
  "points (s\<lparr>self := x6\<rparr>) a i = points s a i"
  by (simp_all add: points_def)

lemma node_is_mono:
  "node_is m n t \<Longrightarrow> objs m \<subseteq>\<^sub>m objs m' \<Longrightarrow> stack m' = stack m \<Longrightarrow> node_is m' n t"
  using denotes_mono(1) by (auto simp: node_is_def)

lemma node_is_more: "node_is m n t \<Longrightarrow> rb_entry.more n = rb_entry.more n' \<Longrightarrow> node_is m n' t"
  using more_eqD [of n n'] by (simp add: node_is_def)

lemma store_types:
  assumes "store_but E s T" and "objs (types s) \<subseteq>\<^sub>m objs m" and "stack m = stack (types s)"
  shows "store_but E (s\<lparr>types := m\<rparr>) T"
  using assms node_is_mono [OF _ assms(2,3)] unfolding store_but_def by (auto 0 4)

lemma store_tag:
  assumes "store_but E s T" and "T i = Some t"
  shows "\<exists>a n. a \<notin> E \<and> points s a i \<and> tags_heap s a = Some n \<and> node_is (types s) n t \<and> 1 \<le> i"
proof -
  obtain as where as: "in_tree s as" "set as \<inter> E = {}"
    "\<forall>a \<in> set as. \<exists>t. T (id_of s a) = Some t \<and> node_is (types s) (the (tags_heap s a)) t \<and> 1 \<le> id_of s a"
    "dom T = id_of s ` set as" using assms(1) by (auto simp: store_but_def)
  then obtain a where a: "a \<in> set as" "id_of s a = i" using assms(2) by (metis domI imageE)
  obtain n where n: "tags_heap s a = Some n" using in_tree_alive [OF as(1) a(1)] by blast
  have "a \<noteq> NULL" using in_tree_not_null [OF as(1)] a(1) by auto
  then show ?thesis using as(2,3) a n assms(2) by (intro exI [of _ a] exI [of _ n]) (force simp: points_def id_of_def)
qed

lemma store_node:
  assumes "store_is s T" and "tags_heap s a = Some n"
  shows "\<exists>t. T (sint (tag_id n)) = Some t \<and> node_is (types s) n t \<and> 1 \<le> sint (tag_id n)"
proof -
  obtain as where as: "dom (tags_heap s) = set as"
    "\<forall>a \<in> set as. \<exists>t. T (id_of s a) = Some t \<and> node_is (types s) (the (tags_heap s a)) t \<and> 1 \<le> id_of s a"
    using assms(1) by (auto simp: store_but_def)
  have "a \<in> set as" using as(1) assms(2) by blast
  then show ?thesis using as(2) assms(2) by (force simp: id_of_def)
qed

lemma points_unique:
  assumes "store_but E s T" and "points s a i" and "points s b i" and "a \<notin> E" and "b \<notin> E"
  shows "a = b"
proof -
  obtain as where as: "in_tree s as" "dom (tags_heap s) = E \<union> set as" using assms(1) by (auto simp: store_but_def)
  have "a \<in> dom (tags_heap s)" "b \<in> dom (tags_heap s)" "id_of s a = id_of s b" using assms(2,3) by (auto simp: points_def id_of_def)
  then show ?thesis using in_tree_inj [OF as(1)] as(2) assms(4,5) by blast
qed

lemma store_find:
  assumes "store_but E s T"
  shows "(\<forall>t. T (sint i) = Some t \<longrightarrow> (\<exists>a n. tag_tree_find i s = Inr a \<and> a \<notin> E \<and> points s a (sint i)
            \<and> tags_heap s a = Some n \<and> node_is (types s) n t))
    \<and> (T (sint i) = None \<longrightarrow> tag_tree_find i s = Inr NULL)"
proof -
  obtain as where as: "in_tree s as" "set as \<inter> E = {}"
    "\<forall>a \<in> set as. \<exists>t. T (id_of s a) = Some t \<and> node_is (types s) (the (tags_heap s a)) t \<and> 1 \<le> id_of s a"
    "dom T = id_of s ` set as" using assms(1) by (auto simp: store_but_def)
  show ?thesis
  proof (cases "T (sint i)")
    case None
    then have "sint i \<notin> id_of s ` set as" using as(4) by auto
    then show ?thesis using find_missing [OF as(1)] None by simp
  next
    case (Some t)
    then obtain a where a: "a \<in> set as" "id_of s a = sint i" using as(4) by (metis domI imageE)
    obtain n where n: "tags_heap s a = Some n" using in_tree_alive [OF as(1) a(1)] by blast
    have "a \<noteq> NULL" using in_tree_not_null [OF as(1)] a(1) by auto
    moreover have "node_is (types s) n t" using as(3) a n Some by (auto simp del: not_None_eq)
    ultimately show ?thesis using find_member [OF as(1) a] as(2) a n Some
      by (auto simp: points_def id_of_def)
  qed
qed

lemma store_upd_extra:
  assumes "store_but E s T" and "a \<in> E" and "a \<noteq> NULL"
  shows "\<exists>n. tags_heap s a = Some n \<and> upd_node a f s = Inr (s\<lparr>tags_heap := (tags_heap s)(a \<mapsto> f n)\<rparr>)
    \<and> store_but E (s\<lparr>tags_heap := (tags_heap s)(a \<mapsto> f n)\<rparr>) T"
proof -
  obtain as where as: "in_tree s as" "set as \<inter> E = {}" "dom (tags_heap s) = E \<union> set as"
    "\<forall>a \<in> set as. \<exists>t. T (id_of s a) = Some t \<and> node_is (types s) (the (tags_heap s a)) t \<and> 1 \<le> id_of s a"
    "dom T = id_of s ` set as" "2 \<le> stack (types s)" using assms(1) by (auto simp: store_but_def)
  obtain n where n: "tags_heap s a = Some n" using as(3) assms(2) by blast
  define s' where "s' = s\<lparr>tags_heap := (tags_heap s)(a \<mapsto> f n)\<rparr>"
  have u: "upd_node a f s = Inr s'" using n assms(3) by (simp add: upd_node_def get_node_def s'_def)
  have out: "a \<notin> set as" using as(2) assms(2) by auto
  then have "in_tree s' as" using in_tree_upd [OF as(1) _ u] by blast
  moreover have same: "id_of s' b = id_of s b \<and> tags_heap s' b = tags_heap s b" if "b \<in> set as" for b
    using that out by (auto simp: s'_def id_of_def)
  moreover have "dom (tags_heap s') = E \<union> set as" using as(3) assms(2) by (auto simp: s'_def)
  moreover have "types s' = types s" by (simp add: s'_def)
  ultimately have "store_but E s' T"
    unfolding store_but_def using as(2,4,5,6) by (intro conjI exI [of _ as]) (simp_all cong: image_cong)
  then show ?thesis using n u by (simp add: s'_def)
qed

lemma store_upd:
  assumes st: "store_but E s T" and t: "T i = Some t" and a: "points s a i" "a \<notin> E"
    and f: "\<And>n. rbe_left (f n) = rbe_left n \<and> rbe_right (f n) = rbe_right n
      \<and> rbe_parent (f n) = rbe_parent n \<and> tag_id (f n) = tag_id n"
    and t': "\<And>n. node_is (types s) n t \<Longrightarrow> node_is (types s) (f n) t'"
  shows "\<exists>n. tags_heap s a = Some n \<and> node_is (types s) n t
    \<and> upd_node a f s = Inr (s\<lparr>tags_heap := (tags_heap s)(a \<mapsto> f n)\<rparr>)
    \<and> store_but E (s\<lparr>tags_heap := (tags_heap s)(a \<mapsto> f n)\<rparr>) (T(i \<mapsto> t'))
    \<and> points (s\<lparr>tags_heap := (tags_heap s)(a \<mapsto> f n)\<rparr>) a i"
proof -
  obtain as where as: "in_tree s as" "set as \<inter> E = {}" "dom (tags_heap s) = E \<union> set as"
    "\<forall>a \<in> set as. \<exists>t. T (id_of s a) = Some t \<and> node_is (types s) (the (tags_heap s a)) t \<and> 1 \<le> id_of s a"
    "dom T = id_of s ` set as" "2 \<le> stack (types s)" using st by (auto simp: store_but_def)
  obtain n where n: "tags_heap s a = Some n" "id_of s a = i" "a \<noteq> NULL" using a(1) by (auto simp: points_def id_of_def)
  then have mem: "a \<in> set as" using as(3) a(2) by blast
  have nt: "node_is (types s) n t" using as(4) mem n t by fastforce
  define s' where "s' = s\<lparr>tags_heap := (tags_heap s)(a \<mapsto> f n)\<rparr>"
  have u: "upd_node a f s = Inr s'" using n by (simp add: upd_node_def get_node_def s'_def)
  have "in_tree s' as" using in_tree_upd [OF as(1) f u] .
  moreover have ids: "id_of s' b = id_of s b" for b using n f by (auto simp: s'_def id_of_def)
  moreover have "dom (tags_heap s') = E \<union> set as" using as(3) mem by (auto simp: s'_def)
  moreover have "\<forall>b \<in> set as. \<exists>t. (T(i \<mapsto> t')) (id_of s b) = Some t
      \<and> node_is (types s) (the (tags_heap s' b)) t \<and> 1 \<le> id_of s b"
  proof
    fix b assume b: "b \<in> set as"
    show "\<exists>t. (T(i \<mapsto> t')) (id_of s b) = Some t \<and> node_is (types s) (the (tags_heap s' b)) t \<and> 1 \<le> id_of s b"
    proof (cases "b = a")
      case True
      with n t' [OF nt] as(4) mem show ?thesis by (auto simp: s'_def)
    next
      case False
      with b mem n in_tree_inj [OF as(1)] have "id_of s b \<noteq> i" by metis
      with as(4) b False show ?thesis by (simp add: s'_def)
    qed
  qed
  moreover have "dom (T(i \<mapsto> t')) = id_of s ` set as" using as(5) t by auto
  moreover have "types s' = types s" by (simp add: s'_def)
  ultimately have "store_but E s' (T(i \<mapsto> t'))"
    unfolding store_but_def using as(2,6) by (intro conjI exI [of _ as]) (simp_all del: fun_upd_apply)
  moreover have "points s' a i" using n f by (auto simp: points_def s'_def id_of_def)
  ultimately show ?thesis using n nt u by (simp add: s'_def)
qed

section \<open>The steps the functions are made of\<close>

lemma store_malloc:
  assumes "store_but E s T" and "malloc_node s = (a, s')"
  shows "if a = NULL then s' = s\<lparr>types := (types s)\<lparr>pool := tl (pool (types s))\<rparr>\<rparr>
    else aligned a \<and> a \<notin> E \<and> tags_heap s a = None \<and> a = hd (pool (types s)) \<and> pool (types s) \<noteq> []
      \<and> s' = s\<lparr>types := (types s)\<lparr>pool := tl (pool (types s))\<rparr>, tags_heap := (tags_heap s)(a \<mapsto> zero_node)\<rparr>
      \<and> store_but (insert a E) s' T"
proof (cases "a = NULL")
  case True
  with assms(2) show ?thesis by (auto simp: malloc_node_def Let_def split: list.splits if_splits)
next
  case False
  obtain as where as: "in_tree s as" "set as \<inter> E = {}" "dom (tags_heap s) = E \<union> set as"
    "\<forall>a \<in> set as. \<exists>t. T (id_of s a) = Some t \<and> node_is (types s) (the (tags_heap s a)) t \<and> 1 \<le> id_of s a"
    "dom T = id_of s ` set as" "2 \<le> stack (types s)" using assms(1) by (auto simp: store_but_def)
  define m where "m = (types s)\<lparr>pool := tl (pool (types s))\<rparr>"
  have a: "aligned a" "tags_heap s a = None" "a = hd (pool (types s))" "pool (types s) \<noteq> []"
    and s': "s' = s\<lparr>types := m, tags_heap := (tags_heap s)(a \<mapsto> zero_node)\<rparr>"
    using assms(2) False by (auto simp: malloc_node_def Let_def m_def split: list.splits if_splits)
  have out: "a \<notin> E" "a \<notin> set as" using as(3) a(2) by blast+
  have same: "id_of s' b = id_of s b" "tags_heap s' b = tags_heap s b" if "b \<in> set as" for b
    using that out by (auto simp: s' id_of_def)
  have "in_tree s' as"
    by (rule in_tree_frame [OF as(1)]) (use same in \<open>auto simp: s' lk_def\<close>)
  moreover have "dom (tags_heap s') = insert a E \<union> set as" using as(3) by (auto simp: s')
  moreover have "node_is (types s') n t" if "node_is (types s) n t" for n t
    by (rule node_is_mono [OF that]) (simp_all add: s' m_def)
  moreover have "stack (types s') = stack (types s)" by (simp add: s' m_def)
  ultimately have "store_but (insert a E) s' T"
    unfolding store_but_def using as(2,4,5,6) out same
    by (intro conjI exI [of _ as]) (force cong: image_cong)+
  then show ?thesis using False a out s' by (simp add: m_def)
qed

text \<open>A node that is complete enters the tree at its upper or its lower end.\<close>

lemma store_link:
  assumes st: "store_but (insert a E) s T" and a: "tags_heap s a = Some n" "a \<noteq> NULL" "aligned a" "a \<notin> E"
    and key: "(\<forall>i \<in> dom T. i < sint (tag_id n)) \<or> (\<forall>i \<in> dom T. sint (tag_id n) < i)" "1 \<le> sint (tag_id n)"
    and t: "node_is (types s) n t"
  shows "\<exists>s'. tag_tree_link a s = Inr s' \<and> relinked s s' \<and> store_but E s' (T(sint (tag_id n) \<mapsto> t))
    \<and> points s' a (sint (tag_id n))"
proof -
  obtain as where as: "in_tree s as" "set as \<inter> insert a E = {}" "dom (tags_heap s) = insert a E \<union> set as"
    "\<forall>a \<in> set as. \<exists>t. T (id_of s a) = Some t \<and> node_is (types s) (the (tags_heap s a)) t \<and> 1 \<le> id_of s a"
    "dom T = id_of s ` set as" "2 \<le> stack (types s)" using st by (auto simp: store_but_def)
  have ida: "id_of s a = sint (tag_id n)" using a(1) by (simp add: id_of_def)
  have "\<exists>s' bs. tag_tree_link a s = Inr s' \<and> relinked s s' \<and> in_tree s' bs \<and> set bs = insert a (set as)"
    using key(1)
  proof
    assume "\<forall>i \<in> dom T. i < sint (tag_id n)"
    then have "\<forall>b \<in> set as. id_of s b < id_of s a" using as(5) ida by simp
    from link_top [OF as(1) a(1,2,3) this] show ?thesis by force
  next
    assume "\<forall>i \<in> dom T. sint (tag_id n) < i"
    then have "\<forall>b \<in> set as. id_of s a < id_of s b" using as(5) ida by simp
    from link_bottom [OF as(1) a(1,2,3) this] show ?thesis by force
  qed
  then obtain s' bs where s': "tag_tree_link a s = Inr s'" "relinked s s'" "in_tree s' bs" "set bs = insert a (set as)"
    by blast
  have id': "id_of s' b = id_of s b" for b by (rule relinked_id [OF s'(2)])
  have ty: "types s' = types s" by (rule relinked_other(1) [OF s'(2)])
  have move: "node_is (types s) (the (tags_heap s' b)) u"
    if "tags_heap s b = Some k" "node_is (types s) k u" for b k u
    using relinked_node(1) [OF s'(2) that(1)] node_is_more [OF that(2)] by auto
  have nodes: "\<forall>b \<in> set bs. \<exists>u. (T(sint (tag_id n) \<mapsto> t)) (id_of s' b) = Some u
      \<and> node_is (types s') (the (tags_heap s' b)) u \<and> 1 \<le> id_of s' b"
  proof -
    have "\<exists>u. (T(sint (tag_id n) \<mapsto> t)) (id_of s' b) = Some u
      \<and> node_is (types s') (the (tags_heap s' b)) u \<and> 1 \<le> id_of s' b" if b: "b \<in> set as" for b
    proof -
      obtain k where k: "tags_heap s b = Some k" using in_tree_alive [OF as(1) b] by blast
      then obtain u where "T (id_of s b) = Some u" "node_is (types s) k u" "1 \<le> id_of s b" using as(4) b by force
      moreover have "id_of s b \<noteq> sint (tag_id n)" using key(1) as(5) b by auto
      ultimately show ?thesis using move [OF k] by (simp add: id' ty)
    qed
    moreover have "node_is (types s') (the (tags_heap s' a)) t" using move [OF a(1) t] by (simp add: ty)
    ultimately show ?thesis using s'(4) ida key(2) by (simp add: id')
  qed
  have "dom (tags_heap s') = E \<union> set bs"
  proof -
    have "dom (tags_heap s') = dom (tags_heap s)" by (rule relinked_dom [OF s'(2)])
    then show ?thesis using as(3) s'(4) by auto
  qed
  moreover have "set bs \<inter> E = {}" using as(2) s'(4) a(4) by auto
  moreover have "dom (T(sint (tag_id n) \<mapsto> t)) = id_of s' ` set bs" using as(5) s'(4) ida by (auto simp: id')
  ultimately have "store_but E s' (T(sint (tag_id n) \<mapsto> t))"
    unfolding store_but_def using s'(3) nodes as(6) ty by (intro conjI exI [of _ bs]) simp_all
  moreover have "points s' a (sint (tag_id n))"
  proof -
    obtain n' where n': "tags_heap s' a = Some n'" "rb_entry.more n' = rb_entry.more n"
      using relinked_node(1) [OF s'(2) a(1)] by blast
    show ?thesis using n'(1) more_eqD(1) [OF n'(2)] a(2) by (simp add: points_def)
  qed
  ultimately show ?thesis using s'(1,2) by blast
qed

lemma store_unlink:
  assumes st: "store_but E s T" and t: "T i = Some t" and a: "points s a i" "a \<notin> E"
  shows "\<exists>s' n. tag_tree_unlink a s = Inr s' \<and> relinked s s' \<and> store_but (insert a E) s' (T(i := None))
    \<and> tags_heap s' a = Some n \<and> node_is (types s) n t"
proof -
  obtain as where as: "in_tree s as" "set as \<inter> E = {}" "dom (tags_heap s) = E \<union> set as"
    "\<forall>a \<in> set as. \<exists>t. T (id_of s a) = Some t \<and> node_is (types s) (the (tags_heap s a)) t \<and> 1 \<le> id_of s a"
    "dom T = id_of s ` set as" "2 \<le> stack (types s)" using st by (auto simp: store_but_def)
  obtain n where n: "tags_heap s a = Some n" "id_of s a = i" using a(1) by (auto simp: points_def id_of_def)
  then have mem: "a \<in> set as" using as(3) a(2) by blast
  have nt: "node_is (types s) n t" using as(4) mem n t by fastforce
  obtain s' where s': "tag_tree_unlink a s = Inr s'" "relinked s s'" "in_tree s' (remove1 a as)"
    using unlink_node [OF as(1) mem] by blast
  have bs: "set (remove1 a as) = set as - {a}" using in_tree_distinct [OF as(1)] by simp
  have id': "id_of s' b = id_of s b" for b by (rule relinked_id [OF s'(2)])
  have ty: "types s' = types s" by (rule relinked_other(1) [OF s'(2)])
  have ne: "id_of s b \<noteq> i" if "b \<in> set as - {a}" for b using that in_tree_inj [OF as(1)] mem n(2) by auto
  have move: "node_is (types s) (the (tags_heap s' b)) u"
    if "tags_heap s b = Some k" "node_is (types s) k u" for b k u
    using relinked_node(1) [OF s'(2) that(1)] node_is_more [OF that(2)] by auto
  have nodes: "\<forall>b \<in> set as - {a}. \<exists>u. (T(i := None)) (id_of s' b) = Some u
      \<and> node_is (types s') (the (tags_heap s' b)) u \<and> 1 \<le> id_of s' b"
  proof
    fix b assume b: "b \<in> set as - {a}"
    then obtain k where k: "tags_heap s b = Some k" using in_tree_alive [OF as(1)] by blast
    then obtain u where "T (id_of s b) = Some u" "node_is (types s) k u" "1 \<le> id_of s b" using as(4) b by force
    then show "\<exists>u. (T(i := None)) (id_of s' b) = Some u
      \<and> node_is (types s') (the (tags_heap s' b)) u \<and> 1 \<le> id_of s' b"
      using ne [OF b] move [OF k] by (simp add: id' ty)
  qed
  have "dom (tags_heap s') = insert a E \<union> (set as - {a})"
  proof -
    have "dom (tags_heap s') = dom (tags_heap s)" by (rule relinked_dom [OF s'(2)])
    then show ?thesis using as(3) mem by auto
  qed
  moreover have "dom (T(i := None)) = id_of s' ` (set as - {a})"
    using as(5) ne n(2) by (auto simp: id')
  ultimately have "store_but (insert a E) s' (T(i := None))"
    unfolding store_but_def using s'(3) nodes as(2,6) ty bs
    by (intro conjI exI [of _ "remove1 a as"]) auto
  moreover obtain n' where "tags_heap s' a = Some n'" "rb_entry.more n' = rb_entry.more n"
    using relinked_node(1) [OF s'(2) n(1)] by blast
  ultimately show ?thesis using s'(1,2) node_is_more [OF nt, of n'] by auto
qed

lemma store_free:
  assumes st: "store_but (insert a E) s T" and a: "a \<notin> E" "a \<noteq> NULL"
  shows "free_node a s = Inr (s\<lparr>tags_heap := (tags_heap s)(a := None)\<rparr>)
    \<and> store_but E (s\<lparr>tags_heap := (tags_heap s)(a := None)\<rparr>) T"
proof -
  obtain as where as: "in_tree s as" "set as \<inter> insert a E = {}" "dom (tags_heap s) = insert a E \<union> set as"
    "\<forall>a \<in> set as. \<exists>t. T (id_of s a) = Some t \<and> node_is (types s) (the (tags_heap s a)) t \<and> 1 \<le> id_of s a"
    "dom T = id_of s ` set as" "2 \<le> stack (types s)" using st by (auto simp: store_but_def)
  define s' where "s' = s\<lparr>tags_heap := (tags_heap s)(a := None)\<rparr>"
  have same: "id_of s' b = id_of s b" "tags_heap s' b = tags_heap s b" if "b \<in> set as" for b
    using that as(2) by (auto simp: s'_def id_of_def)
  have "in_tree s' as"
    by (rule in_tree_frame [OF as(1)]) (use same in \<open>auto simp: s'_def lk_def\<close>)
  moreover have "dom (tags_heap s') = E \<union> set as" using as(2,3) a(1) by (auto simp: s'_def)
  moreover have "types s' = types s" by (simp add: s'_def)
  ultimately have "store_but E s' T"
    unfolding store_but_def using as(2,4,5,6) same
    by (intro conjI exI [of _ as]) (simp_all cong: image_cong)
  moreover have "tags_heap s a \<noteq> None" using as(3) by blast
  ultimately show ?thesis using a(2) by (simp add: free_node_def s'_def)
qed

section \<open>Destroying and creating nodes\<close>

text \<open>What no function of the store changes or takes away.\<close>

definition env :: "lib \<Rightarrow> lib \<Rightarrow> bool" where
  "env s s' \<longleftrightarrow> tag_tree_mtx s' = tag_tree_mtx s \<and> tag_tree_inited s' = tag_tree_inited s
     \<and> self s' = self s \<and> dirt s' = dirt s \<and> events s' = events s
     \<and> objs (types s) \<subseteq>\<^sub>m objs (types s') \<and> stack (types s') = stack (types s)"

lemma env_refl [simp]: "env s s"
  by (simp add: env_def)

lemma env_trans: "env s s' \<Longrightarrow> env s' s'' \<Longrightarrow> env s s''"
  by (auto simp: env_def intro: map_le_trans)

lemma env_relinked: "relinked s s' \<Longrightarrow> env s s'"
  using relinked_other [of s s'] by (simp add: env_def)

lemma points_relinked:
  assumes "relinked s s'" and "points s a i"
  shows "points s' a i"
proof -
  obtain n where n: "tags_heap s a = Some n" "sint (tag_id n) = i" "a \<noteq> NULL" using assms(2) by (auto simp: points_def)
  obtain n' where n': "tags_heap s' a = Some n'" "rb_entry.more n' = rb_entry.more n"
    using relinked_node(1) [OF assms(1) n(1)] by blast
  then show ?thesis using n more_eqD(1) [OF n'(2)] by (simp add: points_def)
qed

lemma destroy_spec:
  assumes st: "store_but (insert a E) s T" and a: "a \<notin> E" "a \<noteq> NULL" "tags_heap s a = Some n"
    and t: "node_is (types s) n t"
  shows "tag_tree_node_destroy a s =
      (if t_mtx t = None then Inr (s\<lparr>tags_heap := (tags_heap s)(a := None)\<rparr>) else Inl Blocked)
    \<and> store_but E (s\<lparr>tags_heap := (tags_heap s)(a := None)\<rparr>) T"
proof -
  have "store_but E (s\<lparr>tags_heap := (tags_heap s)(a := None)\<rparr>) T" using store_free [OF st a(1,2)] by blast
  moreover have "mtx n = t_mtx t" "name n = CStr (t_name t)" using t by (simp_all add: node_is_def)
  ultimately show ?thesis using a(2,3)
    by (simp add: tag_tree_node_destroy_def MTX_LOCK_def get_node_def upd_node_def free_string_def free_node_def
        MTX_UNLOCK_copy_def mutex_destroy_copy_def)
qed

lemma sint_1 [simp]: "sint METATAG_ID = 1"
  by (simp add: METATAG_ID_def)

text \<open>The nodes of \<open>E\<close> and those whose mutex somebody holds are still there, with all but their links.\<close>

definition kept :: "addr set \<Rightarrow> lib \<Rightarrow> lib \<Rightarrow> bool" where
  "kept E s s' \<longleftrightarrow> (\<forall>b n. tags_heap s b = Some n \<longrightarrow> b \<in> E \<or> mtx n \<noteq> None \<longrightarrow>
     (\<exists>n'. tags_heap s' b = Some n' \<and> rb_entry.more n' = rb_entry.more n))"

lemma kept_heap: "(\<And>b n. tags_heap s b = Some n \<Longrightarrow> tags_heap s' b = Some n) \<Longrightarrow> kept E s s'"
  by (auto simp: kept_def)

lemma kept_relinked: "relinked s s' \<Longrightarrow> kept E s s'"
  using relinked_node(1) [of s s'] by (auto simp: kept_def)

lemma kept_trans: "kept E s s' \<Longrightarrow> kept E s' s'' \<Longrightarrow> kept E s s''"
  unfolding kept_def by (metis more_eqD(4))

lemma drop_metatag_spec:
  assumes st: "store_but E s T"
  shows "case drop_metatag s of
     Inl e \<Rightarrow> e = Blocked \<and> (\<exists>t. T 1 = Some t \<and> t_mtx t \<noteq> None)
   | Inr s' \<Rightarrow> store_but E s' (T(1 := None)) \<and> (\<forall>t. T 1 = Some t \<longrightarrow> t_mtx t = None) \<and> env s s'
       \<and> types s' = types s \<and> tree_size s' = tree_size s - (if T 1 = None then 0 else 1)
       \<and> (\<forall>b i. i \<noteq> 1 \<longrightarrow> points s b i \<longrightarrow> points s' b i)
       \<and> (\<forall>b. tags_heap s b = None \<longrightarrow> tags_heap s' b = None) \<and> kept E s s'"
proof (cases "T 1")
  case None
  then have "drop_metatag s = Inr s" using store_find [OF st, of METATAG_ID] by (simp add: drop_metatag_def)
  moreover have "T(1 := None) = T" using None by auto
  ultimately show ?thesis using st None by (simp add: kept_heap)
next
  case (Some t)
  then obtain a n where f: "tag_tree_find METATAG_ID s = Inr a" "a \<notin> E" "points s a 1" "tags_heap s a = Some n"
    "node_is (types s) n t" using store_find [OF st, of METATAG_ID] by auto
  then have a: "a \<noteq> NULL" by (simp add: points_def)
  obtain s1 n1 where u: "tag_tree_unlink a s = Inr s1" "relinked s s1" "store_but (insert a E) s1 (T(1 := None))"
    "tags_heap s1 a = Some n1" "node_is (types s) n1 t" using store_unlink [OF st Some f(3,2)] by blast
  define s2 where "s2 = s1\<lparr>tree_size := tree_size s1 - 1\<rparr>"
  have "store_but (insert a E) s2 (T(1 := None))" "tags_heap s2 a = Some n1" "node_is (types s2) n1 t"
    using u relinked_other(1) [OF u(2)] by (simp_all add: s2_def)
  note d = destroy_spec [OF this(1) f(2) a this(2,3)]
  have step: "drop_metatag s = tag_tree_node_destroy a s2"
    using f(1) a u(1) by (simp add: drop_metatag_def s2_def)
  show ?thesis
  proof (cases "t_mtx t")
    case None
    define s3 where "s3 = s2\<lparr>tags_heap := (tags_heap s2)(a := None)\<rparr>"
    have r: "drop_metatag s = Inr s3" "store_but E s3 (T(1 := None))" using step d None by (simp_all add: s3_def)
    have "points s3 b i" if "i \<noteq> 1" "points s b i" for b i
    proof -
      have "b \<noteq> a" using that f(3) by (auto simp: points_def)
      then show ?thesis using points_relinked [OF u(2) that(2)] by (simp add: points_def s3_def s2_def)
    qed
    moreover have "tags_heap s3 b = None" if "tags_heap s b = None" for b
      using that relinked_node(3) [OF u(2), of b] by (simp add: s3_def s2_def)
    moreover have "env s s3" using env_relinked [OF u(2)] by (simp add: env_def s3_def s2_def)
    moreover have "kept E s s3"
    proof (rule kept_trans [OF kept_relinked [OF u(2)]])
      have "mtx n1 = None" using u(5) None by (simp add: node_is_def)
      then show "kept E s1 s3" using u(4) f(2) by (auto simp: kept_def s3_def s2_def)
    qed
    ultimately show ?thesis using r Some None relinked_other [OF u(2)] by (simp add: s3_def s2_def)
  next
    case (Some o)
    then show ?thesis using step d \<open>T 1 = Some t\<close> by auto
  qed
qed

definition fresh_id :: "store \<Rightarrow> int" where
  "fresh_id T = Max (insert 1 (dom T)) + 1"

lemma store_finite: "store_but E s T \<Longrightarrow> finite (dom T)"
  by (auto simp: store_but_def)

lemma fresh_id_above: "store_but E s T \<Longrightarrow> i \<in> dom T \<Longrightarrow> i < fresh_id T"
  using store_finite [of E s T] by (auto simp: fresh_id_def)

lemma fresh_id_ge: "store_but E s T \<Longrightarrow> 2 \<le> fresh_id T"
proof -
  assume "store_but E s T"
  then have "1 \<le> Max (insert 1 (dom T))" using store_finite by (intro Max_ge) auto
  then show ?thesis by (simp add: fresh_id_def)
qed

lemma next_id_spec:
  assumes st: "store_but E s T"
  shows "next_id s = (if fresh_id T < 2 ^ 31 then Inr (word_of_int (fresh_id T)) else Inl (Undef SignedOverflow))"
proof -
  obtain as where as: "in_tree s as" "\<forall>a \<in> set as. 1 \<le> id_of s a" "dom T = id_of s ` set as"
    using st by (auto simp: store_but_def)
  show ?thesis
  proof (cases as rule: rev_cases)
    case Nil
    then show ?thesis using max_node [OF as(1)] as(3) by (simp add: next_id_def fresh_id_def METATAG_ID_def)
  next
    case (snoc bs b)
    obtain n where n: "tags_heap s b = Some n" using in_tree_alive [OF as(1), of b] snoc by auto
    have b: "b \<noteq> NULL" using in_tree_not_null [OF as(1)] snoc by auto
    have "\<forall>i \<in> insert 1 (dom T). i \<le> id_of s b"
      using in_tree_sorted [OF as(1)] as(2,3) snoc by (auto simp: sorted_wrt_append intro: less_imp_le)
    then have "Max (insert 1 (dom T)) = id_of s b"
      using store_finite [OF st] as(2,3) snoc by (intro Max_eqI) auto
    then have f: "fresh_id T = sint (tag_id n) + 1" using n by (simp add: fresh_id_def id_of_def)
    have "next_id s = (if tag_id n = INT_MAX then Inl (Undef SignedOverflow) else Inr (tag_id n + 1))"
      using max_node [OF as(1)] snoc n b by (simp add: next_id_def get_node_def)
    moreover have "sint (tag_id n) < 2 ^ 31" using sint_lt [of "tag_id n"] by simp
    moreover have "tag_id n = INT_MAX \<longleftrightarrow> sint (tag_id n) = 2 ^ 31 - 1"
      by (auto simp: signed_word_eqI INT_MAX_def)
    moreover have "word_of_int (fresh_id T) = tag_id n + 1" by (simp add: f)
    ultimately show ?thesis by (auto simp: f)
  qed
qed

text \<open>The next \<open>n\<close> allocations succeed, those of nodes included.\<close>

definition alloc_ready :: "nat \<Rightarrow> lib \<Rightarrow> bool" where
  "alloc_ready n s \<longleftrightarrow> malloc_ready n (types s) \<and> (\<forall>a \<in> set (take n (pool (types s))). tags_heap s a = None)"

text \<open>From \<open>s\<close> to \<open>s'\<close>, \<open>k\<close> answers of \<open>malloc\<close> were used, and no other block became live.\<close>

definition consumes :: "nat \<Rightarrow> lib \<Rightarrow> lib \<Rightarrow> bool" where
  "consumes k s s' \<longleftrightarrow> pool (types s') = drop k (pool (types s))
     \<and> dom (objs (types s')) \<subseteq> dom (objs (types s)) \<union> set (take k (pool (types s)))
     \<and> dom (tags_heap s') \<subseteq> dom (tags_heap s) \<union> set (take k (pool (types s)))"

lemma consumes_ready:
  assumes "consumes k s s'" and "alloc_ready (k + n) s"
  shows "alloc_ready n s'"
proof -
  let ?P = "take k (pool (types s))" and ?Q = "take n (drop k (pool (types s)))"
  have t: "take (k + n) (pool (types s)) = ?P @ ?Q" by (rule take_add)
  have "set ?P \<inter> set ?Q = {}" "distinct ?Q" "\<forall>a \<in> set ?Q. fresh_answer (types s) a \<and> tags_heap s a = None"
    "n \<le> length (drop k (pool (types s)))"
    using assms(2) unfolding alloc_ready_def malloc_ready_def t by (auto simp del: take_append)
  moreover have "objs (types s') a = None \<and> tags_heap s' a = None" if "a \<in> set ?Q" for a
  proof -
    have "a \<notin> dom (objs (types s))" "a \<notin> dom (tags_heap s)" "a \<notin> set ?P"
      using calculation that by (auto simp: fresh_answer_def)
    then show ?thesis using assms(1) unfolding consumes_def by (metis (no_types, lifting) UnE domIff subsetD)
  qed
  ultimately show ?thesis using assms(1) by (auto simp: alloc_ready_def malloc_ready_def consumes_def fresh_answer_def)
qed

lemma consumes_trans:
  assumes "consumes k s s'" and "consumes j s' s''"
  shows "consumes (k + j) s s''"
proof -
  let ?P = "pool (types s)"
  have t: "set (take (k + j) ?P) = set (take k ?P) \<union> set (take j (drop k ?P))" unfolding take_add by simp
  have d: "drop (k + j) ?P = drop j (drop k ?P)" by (simp add: add.commute)
  have a: "pool (types s') = drop k ?P" "dom (objs (types s')) \<subseteq> dom (objs (types s)) \<union> set (take k ?P)"
    "dom (tags_heap s') \<subseteq> dom (tags_heap s) \<union> set (take k ?P)" using assms(1) by (simp_all add: consumes_def)
  have b: "pool (types s'') = drop j (drop k ?P)"
    "dom (objs (types s'')) \<subseteq> dom (objs (types s')) \<union> set (take j (drop k ?P))"
    "dom (tags_heap s'') \<subseteq> dom (tags_heap s') \<union> set (take j (drop k ?P))"
    using assms(2) by (simp_all only: consumes_def a(1))
  show ?thesis unfolding consumes_def t d
  proof (intro conjI b(1))
    show "dom (objs (types s'')) \<subseteq> dom (objs (types s)) \<union> (set (take k ?P) \<union> set (take j (drop k ?P)))"
      using a(2) b(2) by blast
    show "dom (tags_heap s'') \<subseteq> dom (tags_heap s) \<union> (set (take k ?P) \<union> set (take j (drop k ?P)))"
      using a(3) b(3) by blast
  qed
qed

lemma copied_dom:
  assumes "copied m ty a' m'"
  shows "dom (objs m') \<subseteq> dom (objs m) \<union> set (take (blocks ty) (pool m))"
proof
  fix x assume x: "x \<in> dom (objs m')"
  show "x \<in> dom (objs m) \<union> set (take (blocks ty) (pool m))"
  proof (cases "x \<in> set (owned (objs m') a' ty)")
    case True
    then show ?thesis using assms by (simp only: copied_def) simp
  next
    case False
    then have "objs m' x = objs m x" using assms by (simp add: copied_def)
    with x show ?thesis by (simp add: domIff)
  qed
qed

lemma consumes_none:
  "types s' = types s \<Longrightarrow> dom (tags_heap s') \<subseteq> dom (tags_heap s) \<Longrightarrow> consumes 0 s s'"
  by (simp add: consumes_def)

text \<open>A tag as \<open>tag_tree_node_create\<close> leaves it: at least eight bytes, each \<open>0x42\<close>.\<close>

definition new_tag :: "string \<Rightarrow> ty \<Rightarrow> nat option \<Rightarrow> tag" where
  "new_tag x ty me = \<lparr>t_name = x, t_type = ty, t_cb = NULL, t_mtx = me,
     t_data = replicate (max 8 (unat (of_nat (ty_size ty) :: size_t))) 0x42\<rparr>"

lemma new_tag_sized: "struct_free ty \<Longrightarrow> sized (new_tag x ty me)"
  by (simp add: sized_def new_tag_def)

definition locked :: "store \<Rightarrow> int \<Rightarrow> bool" where
  "locked T i \<longleftrightarrow> (\<exists>t. T i = Some t \<and> t_mtx t \<noteq> None)"

lemma malloc_value_cases:
  "malloc_value m = (pool m \<noteq> [] \<and> hd (pool m) \<noteq> NULL, m\<lparr>pool := tl (pool m)\<rparr>)"
  by (cases "pool m") (auto simp: malloc_value_def)

lemma alloc_ready_Suc:
  "alloc_ready (Suc n) s \<Longrightarrow> pool (types s) \<noteq> [] \<and> hd (pool (types s)) \<noteq> NULL
     \<and> fresh_answer (types s) (hd (pool (types s))) \<and> tags_heap s (hd (pool (types s))) = None
     \<and> alloc_ready n (s\<lparr>types := (types s)\<lparr>pool := tl (pool (types s))\<rparr>\<rparr>)"
  by (cases "pool (types s)") (auto simp: alloc_ready_def malloc_ready_def fresh_answer_def)

lemma alloc_malloc_node:
  assumes "alloc_ready (Suc n) s"
  shows "malloc_node s = (hd (pool (types s)), s\<lparr>types := (types s)\<lparr>pool := tl (pool (types s))\<rparr>,
      tags_heap := (tags_heap s)(hd (pool (types s)) \<mapsto> zero_node)\<rparr>)"
  using alloc_ready_Suc [OF assms] by (cases "pool (types s)") (auto simp: malloc_node_def fresh_answer_def)

lemma denotes_null: "denotes os 0 ty \<longleftrightarrow> ty = Simple TAG_ERROR"
proof (cases ty)
  case (Simple e)
  then show ?thesis by (cases e) (auto simp: SIMPLE_TYPE_def)
qed auto

text \<open>The function up to the point where the node is complete: what it does with the memory, and what that means for the store.\<close>

definition made_node :: "string \<Rightarrow> ty \<Rightarrow> addr \<Rightarrow> c_int \<Rightarrow> tag_tree_node" where
  "made_node x ty p i = zero_node\<lparr>name := CStr x, tag_type := p,
     data := replicate (max 8 (unat (of_nat (ty_size ty) :: size_t))) 0x42, tag_id := i\<rparr>"

definition node_insert :: "addr \<Rightarrow> lib \<Rightarrow> stop + addr \<times> lib" where
  "node_insert a s = bindE (tag_tree_link a s) (\<lambda>s.
     bindE (drop_metatag (s\<lparr>tree_size := tree_size s + 1\<rparr>)) (\<lambda>s.
     bindE (MTX_LOCK a s) (\<lambda>s. Inr (a, s))))"

lemma malloc_node_cases: "malloc_node s = (a, s') \<Longrightarrow> a = NULL \<or> (\<exists>q. pool (types s) = a # q
    \<and> s' = s\<lparr>types := (types s)\<lparr>pool := q\<rparr>, tags_heap := (tags_heap s)(a \<mapsto> zero_node)\<rparr>)"
  by (auto simp: malloc_node_def Let_def split: list.splits if_splits)

lemma node_create_run:
  assumes ty: "struct_free ty" "denotes (objs (types s)) p ty" "ty_depth ty \<le> stack (types s)" and i: "next_id s = Inr i"
  shows "tag_tree_node_create (CStr x) p s = Inl Exit \<and> \<not> (alloc_ready (3 + blocks ty) s \<and> ty \<noteq> Simple TAG_ERROR)
    \<or> (\<exists>a b q p' m s1. pool (types s) = a # b # q \<and> a \<noteq> NULL \<and> malloc_node s = (a, s1) \<and> copied ((types s)\<lparr>pool := q\<rparr>) ty p' m
      \<and> tag_tree_node_create (CStr x) p s
        = node_insert a (s\<lparr>types := m\<lparr>pool := tl (pool m)\<rparr>, tags_heap := (tags_heap s)(a \<mapsto> made_node x ty p' i)\<rparr>))"
proof -
  have size: "type_size_bytes (types s) p = Inr (of_nat (ty_size ty))"
    using type_size_at_refine [OF ty(2,3)] by (simp add: type_size_bytes_def)
  obtain a s1 where m1: "malloc_node s = (a, s1)" by (cases "malloc_node s")
  note go = tag_tree_node_create_def size i m1 Let_def
  consider "a = NULL" | q where "a \<noteq> NULL" "pool (types s) = a # q" "q = [] \<or> hd q = NULL"
    | b q where "a \<noteq> NULL" "pool (types s) = a # b # q" "b \<noteq> NULL"
    using malloc_node_cases [OF m1] by (metis list.collapse)
  then show ?thesis
  proof cases
    case 1
    then show ?thesis using m1 alloc_malloc_node [of "2 + blocks ty" s] alloc_ready_Suc [of "2 + blocks ty" s]
      by (auto simp: go numeral_3_eq_3)
  next
    case 2
    have s1: "s1 = s\<lparr>types := (types s)\<lparr>pool := q\<rparr>, tags_heap := (tags_heap s)(a \<mapsto> zero_node)\<rparr>"
      using malloc_node_cases [OF m1] 2 by auto
    have "tag_tree_node_create (CStr x) p s = Inl Exit"
      using 2 by (auto simp: go s1 strdup_def malloc_value_cases upd_node_def get_node_def)
    moreover have "\<not> alloc_ready (3 + blocks ty) s"
      using 2 alloc_ready_Suc [of "2 + blocks ty" s] alloc_ready_Suc [of "1 + blocks ty" "s\<lparr>types := (types s)\<lparr>pool := q\<rparr>\<rparr>"]
      by (auto simp: numeral_3_eq_3)
    ultimately show ?thesis by blast
  next
    case 3
    let ?m = "(types s)\<lparr>pool := q\<rparr>"
    have s1: "s1 = s\<lparr>types := (types s)\<lparr>pool := b # q\<rparr>, tags_heap := (tags_heap s)(a \<mapsto> zero_node)\<rparr>"
      using malloc_node_cases [OF m1] 3 by auto
    have sd: "strdup (CStr x) (types s1) = Inr (CStr x, ?m)" using 3 by (simp add: s1 strdup_def malloc_value_cases)
    have ready: "malloc_ready (blocks ty + 1) ?m" if "alloc_ready (3 + blocks ty) s"
      using that 3 by (auto simp: alloc_ready_def malloc_ready_def fresh_answer_def numeral_3_eq_3)
    have dup: "case type_dup p ?m of Inr (p', m') \<Rightarrow> copied ?m ty p' m' | Inl e \<Rightarrow> e = Exit \<and> \<not> malloc_ready (blocks ty) ?m"
      using type_dup_at_copied [OF ty(1), of ?m p "stack ?m"] ty(2,3) by (simp add: type_dup_def)
    show ?thesis
    proof (cases "type_dup p ?m")
      case (Inl e)
      then have "tag_tree_node_create (CStr x) p s = Inl Exit"
        using 3 sd dup by (simp add: go) (simp add: s1 upd_node_def get_node_def)
      then show ?thesis using dup ready malloc_ready_add [of "blocks ty" 1 ?m] Inl by auto
    next
      case (Inr y)
      then obtain p' m where d: "type_dup p ?m = Inr (p', m)" "copied ?m ty p' m" using dup by (cases y) auto
      have null: "p' = NULL \<longleftrightarrow> ty = Simple TAG_ERROR"
        using d(2) denotes_null [of "objs m" ty] by (auto simp: copied_def SIMPLE_TYPE_def)
      define ok where "ok = (pool m \<noteq> [] \<and> hd (pool m) \<noteq> NULL)"
      have mv: "malloc_value m = (ok, m\<lparr>pool := tl (pool m)\<rparr>)" by (simp add: malloc_value_cases ok_def)
      have okr: "ok" if "alloc_ready (3 + blocks ty) s"
        using malloc_ready_copied [OF ready [OF that] d(2)] by (cases "pool m") (auto simp: ok_def malloc_ready_def fresh_answer_def)
      have max: "max 8 (unat sz) = unat (if sz < 8 then 8 else sz)" for sz :: size_t by (simp add: word_less_nat_alt)
      show ?thesis
      proof (cases "p' = NULL \<or> \<not> ok")
        case True
        then have "tag_tree_node_create (CStr x) p s = Inl Exit"
          using 3 sd d(1) mv by (simp add: go) (auto simp: s1 upd_node_def get_node_def)
        then show ?thesis using null okr True by blast
      next
        case False
        then have "tag_tree_node_create (CStr x) p s
          = node_insert a (s\<lparr>types := m\<lparr>pool := tl (pool m)\<rparr>, tags_heap := (tags_heap s)(a \<mapsto> made_node x ty p' i)\<rparr>)"
          using 3 sd d(1) mv by (simp add: go) (simp add: s1 upd_node_def get_node_def node_insert_def made_node_def max)
        then show ?thesis using 3 m1 d(2) by blast
      qed
    qed
  qed
qed

lemma node_create_prepare:
  assumes st: "store_but E s T" and ty: "struct_free ty" "denotes (objs (types s)) p ty" "ty_depth ty \<le> stack (types s)"
    and i: "next_id s = Inr i"
  shows "tag_tree_node_create (CStr x) p s = Inl Exit
        \<and> \<not> (alloc_ready (3 + blocks ty) s \<and> ty \<noteq> Simple TAG_ERROR)
    \<or> (\<exists>a s1 n. tag_tree_node_create (CStr x) p s = node_insert a s1
        \<and> store_but (insert a E) s1 T \<and> env s s1 \<and> tree_size s1 = tree_size s \<and> a \<noteq> NULL \<and> aligned a \<and> a \<notin> E
        \<and> tags_heap s a = None \<and> tags_heap s1 = (tags_heap s)(a \<mapsto> n) \<and> tag_id n = i \<and> node_is (types s1) n (new_tag x ty None)
        \<and> consumes (3 + blocks ty) s s1)"
  using node_create_run [OF ty i, of x]
proof (elim disjE exE conjE)
  fix a b q p' m s1
  assume q: "pool (types s) = a # b # q" and a: "a \<noteq> NULL" and m1: "malloc_node s = (a, s1)"
    and d: "copied ((types s)\<lparr>pool := q\<rparr>) ty p' m"
    and run: "tag_tree_node_create (CStr x) p s
      = node_insert a (s\<lparr>types := m\<lparr>pool := tl (pool m)\<rparr>, tags_heap := (tags_heap s)(a \<mapsto> made_node x ty p' i)\<rparr>)"
  define m4 where "m4 = m\<lparr>pool := tl (pool m)\<rparr>"
  define n where "n = made_node x ty p' i"
  define s8 where "s8 = s\<lparr>types := m4, tags_heap := (tags_heap s)(a \<mapsto> n)\<rparr>"
  note sm = store_malloc [OF st m1, unfolded if_not_P [OF a]]
  have s1: "s1 = s\<lparr>types := (types s)\<lparr>pool := b # q\<rparr>, tags_heap := (tags_heap s)(a \<mapsto> zero_node)\<rparr>" using sm q by simp
  have ext: "objs (types s) \<subseteq>\<^sub>m objs m4" "stack m4 = stack (types s)"
    using copied_extends [OF d] d by (simp_all add: m4_def copied_def)
  have "store_but (insert a E) s1 T" using sm by blast
  then have "store_but (insert a E) (s1\<lparr>types := m4\<rparr>) T" using ext by (intro store_types) (simp_all add: s1)
  then have "store_but (insert a E) s8 T"
    using store_upd_extra [of "insert a E" "s1\<lparr>types := m4\<rparr>" T a "\<lambda>_. n"] a by (auto simp: s1 s8_def)
  moreover have "node_is m4 n (new_tag x ty None)"
    using d ty(3) ext new_tag_sized [OF ty(1)]
    by (simp add: node_is_def n_def made_node_def zero_node_def copied_def m4_def) (simp add: new_tag_def)
  moreover have "consumes (3 + blocks ty) s s8"
  proof -
    have "pool m4 = drop (3 + blocks ty) (pool (types s))"
      using d by (simp add: m4_def copied_def q drop_Suc drop_tl numeral_3_eq_3)
    moreover have "set (take (blocks ty) q) \<subseteq> set (take (3 + blocks ty) (pool (types s)))"
      using set_take_subset_set_take [of "blocks ty" "Suc (blocks ty)" q] by (auto simp: q numeral_3_eq_3)
    moreover have "dom (objs m4) \<subseteq> dom (objs (types s)) \<union> set (take (blocks ty) q)"
      using copied_dom [OF d] by (simp add: m4_def)
    moreover have "a \<in> set (take (3 + blocks ty) (pool (types s)))" by (simp add: q numeral_3_eq_3)
    ultimately show ?thesis by (auto simp: consumes_def s8_def)
  qed
  moreover have "env s s8" "tree_size s8 = tree_size s" "types s8 = m4" "tags_heap s8 = (tags_heap s)(a \<mapsto> n)" "tag_id n = i"
    using ext by (simp_all add: env_def s8_def n_def made_node_def)
  moreover have "aligned a" "a \<notin> E" "tags_heap s a = None" using sm by blast+
  moreover have "tag_tree_node_create (CStr x) p s = node_insert a s8" using run by (simp add: s8_def n_def m4_def)
  ultimately show ?thesis using a by (intro disjI2 exI [of _ a] exI [of _ s8] exI [of _ n]) (simp del: fun_upd_apply)
qed blast

lemma mtx_lock_spec:
  assumes st: "store_but E s T" and t: "T i = Some t" and a: "points s a i" "a \<notin> E"
  shows "MTX_LOCK a s = (if t_mtx t = None
      then Inr (s\<lparr>tags_heap := (tags_heap s)(a \<mapsto> (the (tags_heap s a))\<lparr>mtx := Some (self s)\<rparr>)\<rparr>) else Inl Blocked)
    \<and> (let s' = s\<lparr>tags_heap := (tags_heap s)(a \<mapsto> (the (tags_heap s a))\<lparr>mtx := Some (self s)\<rparr>)\<rparr> in
       store_but E s' (T(i \<mapsto> t\<lparr>t_mtx := Some (self s)\<rparr>)) \<and> points s' a i)"
proof -
  obtain n where n: "tags_heap s a = Some n" "node_is (types s) n t"
    "upd_node a (\<lambda>n. n\<lparr>mtx := Some (self s)\<rparr>) s = Inr (s\<lparr>tags_heap := (tags_heap s)(a \<mapsto> n\<lparr>mtx := Some (self s)\<rparr>)\<rparr>)"
    "store_but E (s\<lparr>tags_heap := (tags_heap s)(a \<mapsto> n\<lparr>mtx := Some (self s)\<rparr>)\<rparr>) (T(i \<mapsto> t\<lparr>t_mtx := Some (self s)\<rparr>))"
    "points (s\<lparr>tags_heap := (tags_heap s)(a \<mapsto> n\<lparr>mtx := Some (self s)\<rparr>)\<rparr>) a i"
    using store_upd [OF st t a, of "\<lambda>n. n\<lparr>mtx := Some (self s)\<rparr>" "t\<lparr>t_mtx := Some (self s)\<rparr>"]
    by (auto simp: node_is_def sized_def)
  then have "mtx n = t_mtx t" "get_node s a = Inr n" using a(1) by (simp_all add: node_is_def get_node_def points_def)
  then show ?thesis using n by (simp add: MTX_LOCK_def Let_def)
qed

lemma mtx_unlock_spec:
  assumes st: "store_but E s T" and t: "T i = Some t" and a: "points s a i" "a \<notin> E"
  shows "MTX_UNLOCK a s = (if t_mtx t = Some (self s)
      then Inr (s\<lparr>tags_heap := (tags_heap s)(a \<mapsto> (the (tags_heap s a))\<lparr>mtx := None\<rparr>)\<rparr>) else Inl (Undef BadUnlock))
    \<and> (let s' = s\<lparr>tags_heap := (tags_heap s)(a \<mapsto> (the (tags_heap s a))\<lparr>mtx := None\<rparr>)\<rparr> in
       store_but E s' (T(i \<mapsto> t\<lparr>t_mtx := None\<rparr>)) \<and> points s' a i)"
proof -
  obtain n where n: "tags_heap s a = Some n" "node_is (types s) n t"
    "upd_node a (\<lambda>n. n\<lparr>mtx := None\<rparr>) s = Inr (s\<lparr>tags_heap := (tags_heap s)(a \<mapsto> n\<lparr>mtx := None\<rparr>)\<rparr>)"
    "store_but E (s\<lparr>tags_heap := (tags_heap s)(a \<mapsto> n\<lparr>mtx := None\<rparr>)\<rparr>) (T(i \<mapsto> t\<lparr>t_mtx := None\<rparr>))"
    "points (s\<lparr>tags_heap := (tags_heap s)(a \<mapsto> n\<lparr>mtx := None\<rparr>)\<rparr>) a i"
    using store_upd [OF st t a, of "\<lambda>n. n\<lparr>mtx := None\<rparr>" "t\<lparr>t_mtx := None\<rparr>"]
    by (auto simp: node_is_def sized_def)
  then have "mtx n = t_mtx t" "get_node s a = Inr n" using a(1) by (simp_all add: node_is_def get_node_def points_def)
  then show ?thesis using n by (simp add: MTX_UNLOCK_def Let_def)
qed

lemma sint_of_id: "- (2 ^ 31) \<le> i \<Longrightarrow> i < 2 ^ 31 \<Longrightarrow> sint (word_of_int i :: c_int) = i"
  by (simp add: sint_sbintrunc' signed_take_bit_int_eq_self)

text \<open>Why a call that creates a node may not return.\<close>

definition create_stops :: "stop \<Rightarrow> lib \<Rightarrow> store \<Rightarrow> ty \<Rightarrow> bool" where
  "create_stops e s T ty \<longleftrightarrow>
     e = Exit \<and> \<not> (alloc_ready (3 + blocks ty) s \<and> ty \<noteq> Simple TAG_ERROR)
   \<or> e = Undef SignedOverflow \<and> 2 ^ 31 \<le> fresh_id T
   \<or> e = Blocked \<and> locked T 1"

lemma node_insert_spec:
  assumes st: "store_but (insert a E) s T" and a: "tags_heap s a = Some n" "a \<noteq> NULL" "aligned a" "a \<notin> E"
    and i: "sint (tag_id n) = i" "2 \<le> i" "\<forall>j \<in> dom T. j < i" and u: "node_is (types s) n u" "t_mtx u = None"
  shows "case node_insert a s of
     Inl e \<Rightarrow> e = Blocked \<and> locked T 1
   | Inr (b, s') \<Rightarrow> b = a \<and> \<not> locked T 1 \<and> env s s' \<and> store_but E s' (T(1 := None, i \<mapsto> u\<lparr>t_mtx := Some (self s)\<rparr>)) \<and> points s' a i
       \<and> tree_size s' = tree_size s + 1 - (if T 1 = None then 0 else 1) \<and> consumes 0 s s' \<and> kept E s s'"
proof -
  obtain s2 where s2: "tag_tree_link a s = Inr s2" "relinked s s2" "store_but E s2 (T(i \<mapsto> u))" "points s2 a i"
    using store_link [OF st a _ _ u(1)] i by auto
  define s3 where "s3 = s2\<lparr>tree_size := tree_size s2 + 1\<rparr>"
  have st3: "store_but E s3 (T(i \<mapsto> u))" using s2(3) by (simp add: s3_def)
  note d = drop_metatag_spec [OF st3]
  have one: "(T(i \<mapsto> u)) 1 = T 1" and upd: "(T(i \<mapsto> u))(1 := None) = T(1 := None, i \<mapsto> u)"
    using i(2) by (simp_all add: fun_upd_twist)
  show ?thesis
  proof (cases "drop_metatag s3")
    case (Inl e)
    then show ?thesis using s2(1) d one by (auto simp: node_insert_def s3_def locked_def)
  next
    case (Inr s4)
    have s4: "store_but E s4 (T(1 := None, i \<mapsto> u))" "\<not> locked T 1" "env s3 s4"
      "tree_size s4 = tree_size s3 - (if T 1 = None then 0 else 1)" "types s4 = types s3"
      "\<And>b i. i \<noteq> 1 \<Longrightarrow> points s3 b i \<Longrightarrow> points s4 b i" "\<And>b. tags_heap s3 b = None \<Longrightarrow> tags_heap s4 b = None" "kept E s3 s4"
      using d one Inr upd by (auto simp: locked_def)
    have p4: "points s4 a i" using s4(6) [of i a] s2(4) i(2) by (simp add: s3_def)
    have e: "env s s4" using env_trans [OF env_relinked [OF s2(2)], of s4] s4(3) by (simp add: env_def s3_def)
    note l = mtx_lock_spec [OF s4(1) _ p4 a(4), of u]
    define s5 where "s5 = s4\<lparr>tags_heap := (tags_heap s4)(a \<mapsto> (the (tags_heap s4 a))\<lparr>mtx := Some (self s4)\<rparr>)\<rparr>"
    have l5: "MTX_LOCK a s4 = Inr s5" "points s5 a i" "store_but E s5 (T(1 := None, i \<mapsto> u\<lparr>t_mtx := Some (self s)\<rparr>))"
      using l e u(2) by (simp_all add: s5_def Let_def env_def)
    have "tags_heap s4 b = None" if "tags_heap s2 b = None" for b using s4(7) that by (simp add: s3_def)
    then have "dom (tags_heap s4) \<subseteq> dom (tags_heap s2)" by (metis domIff subsetI)
    moreover have "a \<in> dom (tags_heap s4)" using p4 by (auto simp: points_def)
    ultimately have "dom (tags_heap s5) \<subseteq> dom (tags_heap s)" using relinked_dom [OF s2(2)] by (auto simp: s5_def)
    moreover have types: "types s5 = types s" using relinked_other(1) [OF s2(2)] s4(5) by (simp add: s5_def s3_def)
    ultimately have "consumes 0 s s5" by (intro consumes_none)
    moreover have "kept E s s5"
    proof -
      have "kept E s2 s4" using s4(8) by (simp add: kept_def s3_def)
      then have "kept E s s4" using kept_relinked [OF s2(2)] kept_trans by blast
      moreover have "mtx n = None" using u by (simp add: node_is_def)
      ultimately show ?thesis using a(1,4) by (auto simp: kept_def s5_def)
    qed
    ultimately show ?thesis using s2(1) Inr l5 s4(2,4) e relinked_other(2) [OF s2(2)]
      by (simp add: node_insert_def s3_def [symmetric]) (simp add: s5_def s3_def env_def)
  qed
qed

lemma node_create_spec:
  assumes st: "store_but E s T" and ty: "struct_free ty" "denotes (objs (types s)) p ty" "ty_depth ty \<le> stack (types s)"
  shows "case tag_tree_node_create (CStr x) p s of
     Inl e \<Rightarrow> create_stops e s T ty
   | Inr (a, s') \<Rightarrow> fresh_id T < 2 ^ 31 \<and> \<not> locked T 1 \<and> env s s'
       \<and> store_but E s' (T(1 := None, fresh_id T \<mapsto> new_tag x ty (Some (self s)))) \<and> points s' a (fresh_id T)
       \<and> tree_size s' = tree_size s + 1 - (if T 1 = None then 0 else 1) \<and> consumes (3 + blocks ty) s s' \<and> kept E s s' \<and> a \<notin> E"
proof (cases "fresh_id T < 2 ^ 31")
  case False
  then have "next_id s = Inl (Undef SignedOverflow)" using next_id_spec [OF st] by simp
  moreover have "\<exists>sz. type_size_bytes (types s) p = Inr sz"
    using type_size_at_refine [OF ty(2,3)] by (simp add: type_size_bytes_def)
  ultimately show ?thesis using False by (auto simp: tag_tree_node_create_def Let_def create_stops_def)
next
  case True
  let ?i = "fresh_id T"
  have ni: "next_id s = Inr (word_of_int ?i)" using next_id_spec [OF st] True by simp
  have i2: "2 \<le> ?i" using fresh_id_ge [OF st] .
  have si: "sint (word_of_int ?i :: c_int) = ?i" using True i2 by (intro sint_of_id) auto
  have new: "new_tag x ty None\<lparr>t_mtx := m\<rparr> = new_tag x ty m" "t_mtx (new_tag x ty None) = None" for m
    by (simp_all add: new_tag_def)
  from node_create_prepare [OF st ty ni, of x] show ?thesis
  proof (elim disjE exE conjE)
    assume "tag_tree_node_create (CStr x) p s = Inl Exit" "\<not> (alloc_ready (3 + blocks ty) s \<and> ty \<noteq> Simple TAG_ERROR)"
    then show ?thesis by (simp add: create_stops_def)
  next
    fix a s1 n
    assume run: "tag_tree_node_create (CStr x) p s = node_insert a s1"
      and s1: "store_but (insert a E) s1 T" "env s s1" "tree_size s1 = tree_size s" "consumes (3 + blocks ty) s s1"
      and a: "a \<noteq> NULL" "aligned a" "a \<notin> E" "tags_heap s a = None" "tags_heap s1 = (tags_heap s)(a \<mapsto> n)"
      and n: "tag_id n = word_of_int ?i" "node_is (types s1) n (new_tag x ty None)"
    have kept: "kept E s s1" using a(4,5) by (intro kept_heap) auto
    have "tags_heap s1 a = Some n" "sint (tag_id n) = ?i" "\<forall>j \<in> dom T. j < ?i"
      using a(5) n(1) si fresh_id_above [OF st] by simp_all
    note ins = node_insert_spec [OF s1(1) this(1) a(1-3) this(2) i2 this(3) n(2) new(2)]
    show ?thesis
    proof (cases "node_insert a s1")
      case (Inl e)
      then show ?thesis using ins run by (simp add: create_stops_def)
    next
      case (Inr y)
      then obtain s' where y: "y = (a, s')" using ins by (cases y) simp
      have "self s1 = self s" using s1(2) by (simp add: env_def)
      with ins Inr y have s': "\<not> locked T 1" "env s1 s'" "store_but E s' (T(1 := None, ?i \<mapsto> new_tag x ty (Some (self s))))"
        "points s' a ?i" "tree_size s' = tree_size s + 1 - (if T 1 = None then 0 else 1)" "consumes 0 s1 s'" "kept E s1 s'"
        using s1(3) by (simp_all add: new)
      then show ?thesis using run Inr y True a(3) env_trans [OF s1(2)] consumes_trans [OF s1(4), of 0 s'] kept_trans [OF kept]
        by simp
    qed
  qed
qed

section \<open>The metatag\<close>

text \<open>What the metatag says of a tag, and of all tags in the order of their identifiers.\<close>

definition tag_record :: "int \<Rightarrow> tag \<Rightarrow> byte list" where
  "tag_record i t = metatag_bytes
       \<lparr>mt_id = word_of_int i, mt_type = push_bit 13 1, mt_elem_size = ucast (of_nat (ty_size (t_type t)) :: size_t),
        mt_array_dims = (case t_type t of Arr n _ \<Rightarrow> ucast n | _ \<Rightarrow> 0, 0, 0),
        mt_length = of_nat (length (t_name t))\<rparr>
     @ map of_char (take (unat (of_nat (length (t_name t)) :: 16 word)) (t_name t))"

definition metatag_image :: "store \<Rightarrow> byte list" where
  "metatag_image T = concat (map (\<lambda>i. tag_record i (the (T i))) (sorted_list_of_set (dom T)))"

definition names_total :: "store \<Rightarrow> nat" where
  "names_total T = sum_list (map (\<lambda>i. sizeof_metatag + length (t_name (the (T i)))) (sorted_list_of_set (dom T)))"

lemma length_metatag_bytes: "length (metatag_bytes mt) = sizeof_metatag"
  by (simp add: metatag_bytes_def sizeof_metatag_def split: prod.split)

lemma length_tag_record: "length (tag_record i t) = sizeof_metatag + unat (of_nat (length (t_name t)) :: 16 word)"
proof -
  have "unat (of_nat (length (t_name t)) :: 16 word) \<le> length (t_name t)" by (simp add: unat_of_nat)
  then show ?thesis by (simp add: tag_record_def length_metatag_bytes)
qed

lemma length_tag_record_le: "length (tag_record i t) \<le> sizeof_metatag + length (t_name t)"
  by (simp add: length_tag_record unat_of_nat)

lemma store_nodes:
  assumes "store_but E s T"
  shows "\<exists>as. tag_tree_nodes s = Inr as \<and> map (id_of s) as = sorted_list_of_set (dom T)
    \<and> (\<forall>a \<in> set as. \<exists>n t. a \<noteq> NULL \<and> tags_heap s a = Some n \<and> T (id_of s a) = Some t \<and> node_is (types s) n t)"
proof -
  obtain as where as: "in_tree s as"
    "\<forall>a \<in> set as. \<exists>t. T (id_of s a) = Some t \<and> node_is (types s) (the (tags_heap s a)) t \<and> 1 \<le> id_of s a"
    "dom T = id_of s ` set as" using assms by (auto simp: store_but_def)
  have "map (id_of s) as = sorted_list_of_set (dom T)"
    using in_tree_sorted [OF as(1)] as(3)
    by (intro sorted_distinct_set_unique) (simp_all add: strict_sorted_iff)
  moreover have "\<exists>n t. a \<noteq> NULL \<and> tags_heap s a = Some n \<and> T (id_of s a) = Some t \<and> node_is (types s) n t"
    if a: "a \<in> set as" for a
  proof -
    obtain n where "tags_heap s a = Some n" using in_tree_alive [OF as(1) a] by blast
    moreover have "a \<noteq> NULL" using in_tree_not_null [OF as(1)] a by auto
    ultimately show ?thesis using as(2) a by force
  qed
  ultimately show ?thesis using each_node [OF as(1)] by blast
qed

lemma metatag_of_spec:
  assumes n: "node_is (types s) n t"
  shows "metatag_of s n (t_name t) = Inr
     \<lparr>mt_id = tag_id n, mt_type = push_bit 13 1, mt_elem_size = ucast (of_nat (ty_size (t_type t)) :: size_t),
        mt_array_dims = (case t_type t of Arr n _ \<Rightarrow> ucast n | _ \<Rightarrow> 0, 0, 0),
        mt_length = of_nat (length (t_name t))\<rparr>"
proof -
  have d: "denotes (objs (types s)) (tag_type n) (t_type t)" "ty_depth (t_type t) \<le> stack (types s)"
    "struct_free (t_type t)" using n by (simp_all add: node_is_def sized_def)
  note e = type_to_enum_denotes [OF d(1)]
  have sz: "type_size_bytes (types s) (tag_type n) = Inr (of_nat (ty_size (t_type t)))"
    using type_size_at_refine [OF d(1,2)] by (simp add: type_size_bytes_def)
  show ?thesis
  proof (cases "t_type t")
    case (Simple x)
    then have "x \<noteq> TAG_ARRAY" "x \<noteq> TAG_STRUCT" using d(1) by auto
    then show ?thesis using Simple e sz by (simp add: metatag_of_def type_is_scalar_def)
  next
    case (Arr k ty)
    then obtain mt where "as_array (types s) (tag_type n) = Inr (mt, k)" using as_array_denotes d(1) by metis
    then show ?thesis using Arr e sz by (simp add: metatag_of_def type_is_scalar_def)
  next
    case (Str fs)
    then show ?thesis using d(3) by simp
  qed
qed

lemma metatag_total_spec:
  "\<forall>a \<in> set as. \<exists>n t. a \<noteq> NULL \<and> tags_heap s a = Some n \<and> T (id_of s a) = Some t \<and> node_is (types s) n t \<Longrightarrow>
     metatag_total s as tot = Inr (tot + of_nat (sum_list (map
       (\<lambda>i. sizeof_metatag + length (t_name (the (T i)))) (map (id_of s) as))))"
proof (induction as arbitrary: tot)
  case (Cons a as)
  then obtain n t where a: "a \<noteq> NULL" "tags_heap s a = Some n" "T (id_of s a) = Some t" "node_is (types s) n t" by auto
  then have "name n = CStr (t_name t)" by (simp add: node_is_def)
  with a show ?case using Cons.IH [of "tot + (of_nat sizeof_metatag + of_nat (length (t_name t)))"] Cons.prems
    by (simp add: get_node_def strlen_def add.assoc)
qed simp

lemma write_at_end:
  "length xs = p \<Longrightarrow> length bs \<le> length ys \<Longrightarrow>
     write_bytes (xs @ ys) p bs = Inr ((xs @ bs) @ drop (length bs) ys)"
  by (simp add: write_bytes_def)

lemma metatag_fill_spec:
  "\<forall>a \<in> set as. \<exists>n t. a \<noteq> NULL \<and> tags_heap s a = Some n \<and> T (id_of s a) = Some t \<and> node_is (types s) n t \<Longrightarrow>
   sum_list (map (\<lambda>i. length (tag_record i (the (T i)))) (map (id_of s) as)) \<le> length ys \<Longrightarrow> length xs = p \<Longrightarrow>
     metatag_fill s as (xs @ ys) p = Inr (xs @ concat (map (\<lambda>i. tag_record i (the (T i))) (map (id_of s) as))
       @ drop (sum_list (map (\<lambda>i. length (tag_record i (the (T i)))) (map (id_of s) as))) ys)"
proof (induction as arbitrary: xs ys p)
  case (Cons a as)
  then obtain n t where a: "a \<noteq> NULL" "tags_heap s a = Some n" "T (id_of s a) = Some t" "node_is (types s) n t" by auto
  then have nm: "name n = CStr (t_name t)" by (simp add: node_is_def)
  define mt where "mt = \<lparr>mt_id = tag_id n, mt_type = push_bit 13 1,
        mt_elem_size = ucast (of_nat (ty_size (t_type t)) :: size_t),
        mt_array_dims = (case t_type t of Arr n _ \<Rightarrow> ucast n | _ \<Rightarrow> 0, 0, 0),
        mt_length = (of_nat (length (t_name t)) :: 16 word)\<rparr>"
  define len where "len = unat (mt_length mt)"
  define nmb where "nmb = (map of_char (take len (t_name t)) :: byte list)"
  have len: "len \<le> length (t_name t)" by (simp add: len_def mt_def unat_of_nat)
  have "(word_of_int (id_of s a) :: 32 word) = tag_id n" using a(2) by (simp add: id_of_def)
  then have rec: "tag_record (id_of s a) t = metatag_bytes mt @ nmb"
    by (simp add: tag_record_def nmb_def len_def mt_def)
  have lens: "length (metatag_bytes mt) = sizeof_metatag" "length nmb = len"
    using len by (simp_all add: length_metatag_bytes nmb_def)
  have room: "sizeof_metatag + len \<le> length ys" "sum_list (map (\<lambda>i. length (tag_record i (the (T i)))) (map (id_of s) as))
      \<le> length (drop (sizeof_metatag + len) ys)"
    using Cons.prems(2) a(3) lens by (simp_all add: rec)
  have "metatag_fill s (a # as) (xs @ ys) p =
      metatag_fill s as ((xs @ metatag_bytes mt @ nmb) @ drop (sizeof_metatag + len) ys) (p + sizeof_metatag + len)"
  proof -
    have m: "metatag_of s n (t_name t) = Inr mt" using metatag_of_spec [OF a(4)] by (simp add: mt_def)
    have w1: "write_bytes (xs @ ys) p (metatag_bytes mt) = Inr ((xs @ metatag_bytes mt) @ drop sizeof_metatag ys)"
      using write_at_end [of xs p "metatag_bytes mt" ys] Cons.prems(3) lens room(1) by simp
    have w2: "write_bytes ((xs @ metatag_bytes mt) @ drop sizeof_metatag ys) (p + sizeof_metatag) nmb
        = Inr (((xs @ metatag_bytes mt) @ nmb) @ drop len (drop sizeof_metatag ys))"
      using write_at_end [of "xs @ metatag_bytes mt" "p + sizeof_metatag" nmb "drop sizeof_metatag ys"]
        Cons.prems(3) lens room(1) by simp
    have d: "drop len (drop sizeof_metatag ys) = drop (sizeof_metatag + len) ys" by (simp add: add.commute)
    show ?thesis
      using a(1,2) nm m w1 w2 unfolding d
      by (simp only: metatag_fill.simps get_node_def strlen_def bindE_simps deref_simps if_False cstr.case
          nmb_def [symmetric] len_def [symmetric] append_assoc)
  qed
  also have "\<dots> = Inr ((xs @ metatag_bytes mt @ nmb) @ concat (map (\<lambda>i. tag_record i (the (T i))) (map (id_of s) as))
       @ drop (sum_list (map (\<lambda>i. length (tag_record i (the (T i)))) (map (id_of s) as))) (drop (sizeof_metatag + len) ys))"
    using Cons.prems lens by (intro Cons.IH [OF _ room(2)]) auto
  finally show ?case using a(3) lens by (simp add: rec add.commute)
qed simp

text \<open>The tag \<open>tag_tree_metanode_create\<close> makes of the tags \<open>T\<close>, which may include the old
  metatag; \<open>junk\<close> is what the fresh buffer contained.\<close>

definition metatag :: "store \<Rightarrow> (nat \<Rightarrow> byte) \<Rightarrow> tag" where
  "metatag T junk = \<lparr>t_name = ''@tags'', t_type = Arr (of_nat (names_total T)) (Simple TAG_SINT), t_cb = NULL,
     t_mtx = None, t_data = metatag_image (T(1 := None))
       @ drop (length (metatag_image (T(1 := None)))) (map junk [0..<names_total T])\<rparr>"

lemma sum_list_mono_sub:
  assumes "finite B" and "A \<subseteq> B" and "\<And>i. i \<in> A \<Longrightarrow> f i \<le> (g i :: nat)"
  shows "sum_list (map f (sorted_list_of_set A)) \<le> sum_list (map g (sorted_list_of_set B))"
proof -
  have "sum_list (map f (sorted_list_of_set A)) = sum f A"
    using assms(1,2) by (simp add: sum_list_distinct_conv_sum_set finite_subset)
  also have "\<dots> \<le> sum g A" using assms(3) by (rule sum_mono)
  also have "\<dots> \<le> sum g B" using assms(1,2) by (simp add: sum_mono2)
  also have "\<dots> = sum_list (map g (sorted_list_of_set B))"
    using assms(1) by (simp add: sum_list_distinct_conv_sum_set)
  finally show ?thesis .
qed

lemma length_metatag_image:
  "length (metatag_image T) = sum_list (map (\<lambda>i. length (tag_record i (the (T i)))) (sorted_list_of_set (dom T)))"
  by (simp add: metatag_image_def length_concat comp_def)

lemma metatag_image_fits:
  assumes "finite (dom T)"
  shows "length (metatag_image (T(1 := None))) \<le> names_total T"
  unfolding length_metatag_image names_total_def
  by (rule sum_list_mono_sub [OF assms]) (auto intro: length_tag_record_le)

lemma store_ge: "store_but E s T \<Longrightarrow> i \<in> dom T \<Longrightarrow> 1 \<le> i"
  using store_tag by blast

lemma unat_of_nat_le: "unat (of_nat k :: 'a::len word) \<le> k"
  by (simp add: unat_of_nat)

lemma length_metatag_data:
  "finite (dom T) \<Longrightarrow> length (t_data (metatag T junk)) = names_total T"
  using metatag_image_fits [of T] by (simp add: metatag_def)

lemma metatag_sized: "finite (dom T) \<Longrightarrow> sized (metatag T junk)"
proof -
  assume f: "finite (dom T)"
  have "unat (of_nat (unat (of_nat (names_total T) :: 16 word)) :: size_t) \<le> unat (of_nat (names_total T) :: 16 word)"
    by (rule unat_of_nat_le)
  also have "\<dots> \<le> names_total T" by (rule unat_of_nat_le)
  finally show ?thesis using length_metatag_data [OF f, of junk]
    by (simp add: sized_def metatag_def del: length_append map_append)
qed

lemma lib_swap: "s\<lparr>tags_heap := h, types := m\<rparr> = s\<lparr>types := m, tags_heap := h\<rparr>" for s :: lib
  by simp

text \<open>The four allocations of the metatag, its records and its node.\<close>

lemma metatag_memory:
  assumes st: "store_but E s T" and ready: "alloc_ready 4 s"
  obtains a m2 m3 p m4 m5 where "malloc_node s = (a, s\<lparr>types := m2, tags_heap := (tags_heap s)(a \<mapsto> zero_node)\<rparr>)"
    "a \<noteq> NULL" "aligned a" "a \<notin> E" "tags_heap s a = None" "strdup (CStr ''@tags'') m2 = Inr (CStr ''@tags'', m3)"
    "type_new_array k (type_new_simple TAG_SINT) m3 = Inr (p, m4)" "malloc_value m4 = (True, m5)"
    "denotes (objs m5) p (Arr k (Simple TAG_SINT))" "stack m5 = stack (types s)" "2 \<le> stack m5"
    "\<forall>n. store_but (insert a E) (s\<lparr>types := m5, tags_heap := (tags_heap s)(a \<mapsto> n)\<rparr>) T"
    "objs (types s) \<subseteq>\<^sub>m objs m5"
    "\<forall>s'. types s' = m5 \<longrightarrow> dom (tags_heap s') \<subseteq> insert a (dom (tags_heap s)) \<longrightarrow> consumes 4 s s'"
proof -
  have r1: "alloc_ready (Suc (Suc (Suc (Suc 0)))) s" using ready by (simp add: numeral_eq_Suc)
  define a where "a = hd (pool (types s))"
  define m2 where "m2 = (types s)\<lparr>pool := tl (pool (types s))\<rparr>"
  define s2 where "s2 = s\<lparr>types := m2, tags_heap := (tags_heap s)(a \<mapsto> zero_node)\<rparr>"
  have m: "malloc_node s = (a, s2)" using alloc_malloc_node [OF r1] by (simp add: a_def s2_def m2_def)
  have a0: "a \<noteq> NULL" using alloc_ready_Suc [OF r1] by (simp add: a_def)
  note sm = store_malloc [OF st m, unfolded if_not_P [OF a0]]
  have r2: "alloc_ready (Suc (Suc (Suc 0))) (s\<lparr>types := m2\<rparr>)" using alloc_ready_Suc [OF r1] by (simp add: m2_def)
  define m3 where "m3 = m2\<lparr>pool := tl (pool m2)\<rparr>"
  have sd: "strdup (CStr ''@tags'') m2 = Inr (CStr ''@tags'', m3)"
    using alloc_ready_Suc [OF r2] by (simp add: strdup_def malloc_value_cases m3_def)
  have "alloc_ready (Suc (Suc 0)) (s\<lparr>types := m3\<rparr>)" using alloc_ready_Suc [OF r2] by (simp add: m3_def)
  then have r3: "malloc_ready (blocks (Arr k (Simple TAG_SINT)) + 1) m3" by (simp add: alloc_ready_def)
  have simple: "type_new_simple TAG_SINT = SIMPLE_TYPE TAG_SINT" by (simp add: type_new_simple_def)
  have stack: "2 \<le> stack m3" using st by (simp add: store_but_def m3_def m2_def)
  then have "case type_new_array k (SIMPLE_TYPE TAG_SINT) m3 of
     Inr (a', m') \<Rightarrow> copied m3 (Arr k (Simple TAG_SINT)) a' m' | Inl e \<Rightarrow> e = Exit \<and> \<not> malloc_ready (Suc (blocks (Simple TAG_SINT))) m3"
    by (intro type_new_array_copied) auto
  then obtain p m4 where p: "type_new_array k (SIMPLE_TYPE TAG_SINT) m3 = Inr (p, m4)" "copied m3 (Arr k (Simple TAG_SINT)) p m4"
    using malloc_ready_add [OF r3] by (auto split: sum.splits)
  define m5 where "m5 = m4\<lparr>pool := tl (pool m4)\<rparr>"
  have "malloc_ready 1 m4" using malloc_ready_copied [of "Arr k (Simple TAG_SINT)" 1 m3] r3 p(2) by simp
  then have mv: "malloc_value m4 = (True, m5)"
    by (cases "pool m4") (auto simp: malloc_ready_def fresh_answer_def malloc_value_cases m5_def)
  have ext: "objs (types s) \<subseteq>\<^sub>m objs m5" "stack m5 = stack (types s)"
    using copied_extends [OF p(2)] p(2) by (simp_all add: m5_def m3_def m2_def copied_def)
  have "store_but (insert a E) s2 T" using sm by blast
  then have "store_but (insert a E) (s2\<lparr>types := m5\<rparr>) T" using ext by (intro store_types) (simp_all add: s2_def m2_def)
  then have st5: "store_but (insert a E) (s\<lparr>types := m5, tags_heap := (tags_heap s)(a \<mapsto> n)\<rparr>) T" for n
    using store_upd_extra [of "insert a E" "s2\<lparr>types := m5\<rparr>" T a "\<lambda>_. n"] a0 by (auto simp: s2_def)
  have "consumes 4 s s'" if "types s' = m5" "dom (tags_heap s') \<subseteq> insert a (dom (tags_heap s))" for s'
  proof -
    obtain b q where q: "pool (types s) = a # b # q" "pool m3 = q"
      using alloc_ready_Suc [OF r1] alloc_ready_Suc [OF r2] by (cases "pool (types s)"; cases "tl (pool (types s))")
        (auto simp: a_def m3_def m2_def)
    have "pool m5 = drop 4 (pool (types s))" using p(2) by (simp add: m5_def copied_def q drop_Suc drop_tl numeral_eq_Suc)
    moreover have "dom (objs m5) \<subseteq> dom (objs (types s)) \<union> set (take 1 q)"
      using copied_dom [OF p(2)] unfolding q(2) by (simp add: m5_def m3_def m2_def)
    moreover have "set (take 1 q) \<subseteq> set (take 4 (pool (types s)))" "a \<in> set (take 4 (pool (types s)))"
      using set_take_subset_set_take [of 1 2 q] by (auto simp: q numeral_eq_Suc)
    ultimately show ?thesis using that unfolding consumes_def by blast
  qed
  then have used: "\<forall>s'. types s' = m5 \<longrightarrow> dom (tags_heap s') \<subseteq> insert a (dom (tags_heap s)) \<longrightarrow> consumes 4 s s'" by blast
  have "denotes (objs m5) p (Arr k (Simple TAG_SINT))" using p(2) by (simp add: copied_def m5_def del: denotes.simps)
  moreover have "2 \<le> stack m5" using stack p(2) by (simp add: copied_def m5_def)
  moreover have "aligned a" "a \<notin> E" "tags_heap s a = None" using sm by blast+
  ultimately show thesis
    using m [unfolded s2_def] a0 sd p(1) [folded simple] mv ext allI [OF st5] used by (intro that [of a m2 m3 p m4 m5])
qed

lemma metatag_filled:
  assumes st: "store_but E s (T(1 := None))" and fin: "finite (dom T)"
  obtains bs where "tag_tree_nodes s = Inr bs" "metatag_fill s bs (map junk [0..<names_total T]) 0 = Inr (t_data (metatag T junk))"
proof -
  obtain bs where bs: "tag_tree_nodes s = Inr bs" "map (id_of s) bs = sorted_list_of_set (dom (T(1 := None)))"
    "\<forall>a \<in> set bs. \<exists>n t. a \<noteq> NULL \<and> tags_heap s a = Some n \<and> (T(1 := None)) (id_of s a) = Some t \<and> node_is (types s) n t"
    using store_nodes [OF st] by blast
  have "sum_list (map (\<lambda>i. length (tag_record i (the ((T(1 := None)) i)))) (map (id_of s) bs)) \<le> names_total T"
    unfolding bs(2) using metatag_image_fits [OF fin] by (simp only: length_metatag_image)
  then have "metatag_fill s bs ([] @ map junk [0..<names_total T]) 0 = Inr (t_data (metatag T junk))"
    using metatag_fill_spec [OF bs(3), where xs = "[]" and p = 0 and ys = "map junk [0..<names_total T]"]
    unfolding bs(2) by (simp add: metatag_def metatag_image_def length_metatag_image length_concat comp_def)
  then show thesis using that bs(1) by simp
qed

definition metatag_node :: "addr \<Rightarrow> byte list \<Rightarrow> tag_tree_node" where
  "metatag_node p buf = zero_node\<lparr>name := CStr ''@tags'', tag_id := METATAG_ID, cb := NULL, tag_type := p, data := buf\<rparr>"

lemma metatag_node_is:
  assumes "finite (dom T)" and "denotes (objs m) p (Arr (of_nat (names_total T)) (Simple TAG_SINT))" and "2 \<le> stack m"
  shows "node_is m (metatag_node p (t_data (metatag T junk))) (metatag T junk)"
  using assms metatag_sized [OF assms(1), of junk] unfolding node_is_def
  by (simp add: metatag_node_def zero_node_def del: denotes.simps) (simp add: metatag_def del: denotes.simps)

lemma metanode_create_spec:
  assumes st: "store_but E s T" and tot: "names_total T < 2 ^ 64" and ready: "alloc_ready 4 s"
  shows "if locked T 1 then tag_tree_metanode_create s = Inl Blocked
    else \<exists>a s'. tag_tree_metanode_create s = Inr (a, s') \<and> store_but E s' (T(1 \<mapsto> metatag T (dirt s)))
      \<and> points s' a 1 \<and> env s s' \<and> tree_size s' = tree_size s - (if T 1 = None then 0 else 1) \<and> consumes 4 s s' \<and> kept E s s' \<and> a \<notin> E"
proof -
  have fin: "finite (dom T)" by (rule store_finite [OF st])
  obtain as where as: "tag_tree_nodes s = Inr as" "map (id_of s) as = sorted_list_of_set (dom T)"
    "\<forall>a \<in> set as. \<exists>n t. a \<noteq> NULL \<and> tags_heap s a = Some n \<and> T (id_of s a) = Some t \<and> node_is (types s) n t"
    using store_nodes [OF st] by blast
  define total where "total = names_total T"
  have mt: "metatag_total s as 0 = Inr (of_nat total)"
    using metatag_total_spec [OF as(3), of 0] by (simp add: as(2) total_def names_total_def)
  have unat_total: "unat (of_nat total :: size_t) = total" using tot by (simp add: unat_of_nat total_def)
  note d = drop_metatag_spec [OF st]
  note go = tag_tree_metanode_create_def as(1) mt
  show ?thesis
  proof (cases "drop_metatag s")
    case (Inl e)
    then show ?thesis using d by (auto simp: go locked_def)
  next
    case (Inr s1)
    let ?T = "T(1 := None)" and ?mt = "metatag T (dirt s)"
    have s1: "store_but E s1 ?T" "\<not> locked T 1" "env s s1" "types s1 = types s"
      "tree_size s1 = tree_size s - (if T 1 = None then 0 else 1)" "\<And>b. tags_heap s b = None \<Longrightarrow> tags_heap s1 b = None"
      "kept E s s1"
      using d Inr by (auto simp: locked_def)
    have "alloc_ready 4 s1" using ready s1(4,6) by (simp add: alloc_ready_def)
    then obtain a m2 m3 p m4 m5 where a: "malloc_node s1 = (a, s1\<lparr>types := m2, tags_heap := (tags_heap s1)(a \<mapsto> zero_node)\<rparr>)"
      "a \<noteq> NULL" "aligned a" "a \<notin> E" "tags_heap s1 a = None"
      and m: "strdup (CStr ''@tags'') m2 = Inr (CStr ''@tags'', m3)" "type_new_array (of_nat total) (type_new_simple TAG_SINT) m3 = Inr (p, m4)"
        "malloc_value m4 = (True, m5)" "denotes (objs m5) p (Arr (of_nat total) (Simple TAG_SINT))" "stack m5 = stack (types s1)" "2 \<le> stack m5"
      and heap: "\<forall>n. store_but (insert a E) (s1\<lparr>types := m5, tags_heap := (tags_heap s1)(a \<mapsto> n)\<rparr>) ?T"
      and ext: "objs (types s1) \<subseteq>\<^sub>m objs m5"
      and use4: "\<forall>s'. types s' = m5 \<longrightarrow> dom (tags_heap s') \<subseteq> insert a (dom (tags_heap s1)) \<longrightarrow> consumes 4 s1 s'"
      by (rule metatag_memory [OF s1(1), where k = "of_nat total"])
    note st5 = heap [rule_format] and used = use4 [rule_format]
    define n where "n = metatag_node p (t_data ?mt)"
    define s5 where "s5 = s1\<lparr>types := m5, tags_heap := (tags_heap s1)(a \<mapsto> metatag_node p (data zero_node))\<rparr>"
    define s6 where "s6 = s1\<lparr>types := m5, tags_heap := (tags_heap s1)(a \<mapsto> n)\<rparr>"
    have dirt: "dirt s5 = dirt s" using s1(3) by (simp add: s5_def env_def)
    obtain bs where bs: "tag_tree_nodes s5 = Inr bs" "metatag_fill s5 bs (map (dirt s5) [0..<total]) 0 = Inr (t_data ?mt)"
      unfolding total_def dirt using metatag_filled [OF st5 [of "metatag_node p (data zero_node)"] fin, of "dirt s"] by (auto simp: s5_def)
    have step: "tag_tree_metanode_create s = bindE (tag_tree_link a s6) (\<lambda>s. Inr (a, s))"
    proof -
      have "(ucast (of_nat total :: size_t) :: 16 word) = of_nat (unat (of_nat total :: size_t))" by simp
      then have ucast: "(ucast (of_nat total :: size_t) :: 16 word) = of_nat total" by (simp only: unat_total)
      have s5: "s5 = s1\<lparr>types := m5, tags_heap := (tags_heap s1)(a \<mapsto> zero_node\<lparr>name := CStr ''@tags'', tag_id := METATAG_ID, cb := NULL, tag_type := p\<rparr>)\<rparr>"
        by (simp add: s5_def metatag_node_def zero_node_def)
      show ?thesis using Inr a(1,2) m(1-3) bs
        by (simp add: go upd_node_def get_node_def Let_def lib_swap ucast unat_total) (simp add: s5 s6_def n_def metatag_node_def)
    qed
    have n: "tags_heap s6 a = Some n" "sint (tag_id n) = 1" by (simp_all add: s6_def n_def metatag_node_def)
    have "\<forall>i \<in> dom ?T. 1 < i"
    proof
      fix i assume "i \<in> dom ?T"
      then have "i \<in> dom T" "i \<noteq> 1" by auto
      with store_ge [OF st] show "1 < i" by force
    qed
    moreover have "node_is (types s6) n ?mt"
      using metatag_node_is [OF fin m(4) [unfolded total_def] m(6)] by (simp add: n_def s6_def)
    ultimately obtain s7 where s7: "tag_tree_link a s6 = Inr s7" "relinked s6 s7" "store_but E s7 (?T(1 \<mapsto> ?mt))" "points s7 a 1"
      using store_link [of a E s6 ?T n ?mt] st5 [of n] n a by (auto simp: s6_def)
    have o: "types s7 = m5" "tree_size s7 = tree_size s1" using relinked_other [OF s7(2)] by (simp_all add: s6_def)
    have "env s s7"
      using env_trans [OF s1(3) env_trans [OF _ env_relinked [OF s7(2)], of s1]] ext m(5) by (simp add: env_def s6_def)
    moreover have "consumes 0 s s1" using s1(4,6) by (intro consumes_none) force+
    then have "consumes 4 s s7"
      using consumes_trans [OF _ used [OF o(1)], of 0 s] relinked_dom [OF s7(2)] by (simp add: s6_def)
    moreover have "kept E s s7"
    proof -
      have "kept E s1 s6" using a(5) by (intro kept_heap) (auto simp: s6_def)
      then show ?thesis using kept_trans [OF kept_trans [OF s1(7)] kept_relinked [OF s7(2)]] by blast
    qed
    ultimately show ?thesis using step s7 s1(2,5) a(4) o(2) by simp
  qed
qed

end
