(* ===== verification/Rb_Loops.thy ===== *)
theory Rb_Loops
  imports Rb_Index
begin

text \<open>
  The macros of the rank-balanced tree that \<^verbatim>\<open>tagtree.c\<close> does not use: \<open>RB_INIT\<close>, \<open>RB_EMPTY\<close>, \<open>RB_COLOR\<close> and the
  loops whose body may change the tree, which read the next node before the body runs.
\<close>

definition RB_INIT :: "'a heap \<Rightarrow> 'a rb_state" where
  "RB_INIT h = (NULL, h)"

definition RB_EMPTY :: "'a rb_state \<Rightarrow> bool" where
  "RB_EMPTY s = (fst s = NULL)"

definition RB_COLOR :: "'a heap \<Rightarrow> addr \<Rightarrow> bool option" where
  "RB_COLOR h elm = do {
     p \<leftarrow> RB_PARENT h elm;
     if p = NULL then Some False
     else do {
       l \<leftarrow> RB_LEFT h p;
       if l = elm then RB_RED_LEFT h p else RB_RED_RIGHT h p
     }
   }"

text \<open>
  A body works on the node at hand and may change the tree. The result is the final state and the nodes the loop visited, in
  the order of the visits.
\<close>

type_synonym 'a loop_body = "addr \<Rightarrow> 'a rb_state \<Rightarrow> 'a rb_state option"

partial_function (option) rb_foreach_safe_from ::
  "'a loop_body \<Rightarrow> 'a rb_state \<Rightarrow> addr \<Rightarrow> ('a rb_state \<times> addr list) option" where
  "rb_foreach_safe_from body s x = (if x = NULL then Some (s, []) else do {
     y \<leftarrow> RB_NEXT (snd s) x;
     s \<leftarrow> body x s;
     (s, as) \<leftarrow> rb_foreach_safe_from body s y;
     Some (s, x # as)
   })"

definition RB_FOREACH_FROM :: "'a loop_body \<Rightarrow> 'a rb_state \<Rightarrow> addr \<Rightarrow> ('a rb_state \<times> addr list) option" where
  "RB_FOREACH_FROM body s y = rb_foreach_safe_from body s y"

definition RB_FOREACH_SAFE :: "'a loop_body \<Rightarrow> 'a rb_state \<Rightarrow> ('a rb_state \<times> addr list) option" where
  "RB_FOREACH_SAFE body s = do { x \<leftarrow> RB_MIN s; rb_foreach_safe_from body s x }"

partial_function (option) rb_foreach_reverse_safe_from ::
  "'a loop_body \<Rightarrow> 'a rb_state \<Rightarrow> addr \<Rightarrow> ('a rb_state \<times> addr list) option" where
  "rb_foreach_reverse_safe_from body s x = (if x = NULL then Some (s, []) else do {
     y \<leftarrow> RB_PREV (snd s) x;
     s \<leftarrow> body x s;
     (s, as) \<leftarrow> rb_foreach_reverse_safe_from body s y;
     Some (s, x # as)
   })"

definition RB_FOREACH_REVERSE_FROM :: "'a loop_body \<Rightarrow> 'a rb_state \<Rightarrow> addr \<Rightarrow> ('a rb_state \<times> addr list) option" where
  "RB_FOREACH_REVERSE_FROM body s y = rb_foreach_reverse_safe_from body s y"

definition RB_FOREACH_REVERSE_SAFE :: "'a loop_body \<Rightarrow> 'a rb_state \<Rightarrow> ('a rb_state \<times> addr list) option" where
  "RB_FOREACH_REVERSE_SAFE body s = do { x \<leftarrow> RB_MAX s; rb_foreach_reverse_safe_from body s x }"

declare rb_foreach_safe_from.simps [code]
  rb_foreach_reverse_safe_from.simps [code]

section \<open>The contract of a body\<close>

text \<open>
  What the header calls safe: the body keeps the sequence of the nodes, or takes the node at hand out of it (\<open>drops\<close>), and
  may free it.
\<close>

definition safe_body :: "('a \<Rightarrow> 'k::linorder) \<Rightarrow> (addr \<Rightarrow> bool) \<Rightarrow> 'a loop_body \<Rightarrow> bool" where
  "safe_body key drops body \<longleftrightarrow> (\<forall>s xs x ys. rb_holds key s (xs @ x # ys)
     \<longrightarrow> (\<exists>s'. body x s = Some s' \<and> rb_holds key s' (if drops x then xs @ ys else xs @ x # ys)))"

lemma safe_bodyD:
  assumes "safe_body key drops body" and "rb_holds key s (xs @ x # ys)"
  obtains s' where "body x s = Some s'" "rb_holds key s' (if drops x then xs @ ys else xs @ x # ys)"
  using assms unfolding safe_body_def by blast

lemma holds_not_null: "rb_holds key s as \<Longrightarrow> a \<in> set as \<Longrightarrow> a \<noteq> NULL"
  by (auto simp: rb_holds_def dest: rep_not_null)

lemma holds_neighbours:
  assumes "rb_holds key s (xs @ a # ys)"
  shows "RB_NEXT (snd s) a = Some (first_or_null ys)" and "RB_PREV (snd s) a = Some (last_or_null xs)"
  using assms neighbours by (auto simp: rb_holds_def)

lemma holds_ends:
  assumes "rb_holds key s as"
  shows "RB_MIN s = Some (first_or_null as)" and "RB_MAX s = Some (last_or_null as)"
  using assms RB_MINMAX_refine [of "snd s" "snd s" "fst s"] by (auto simp: rb_holds_def)

lemma foreach_safe_from_ok:
  assumes body: "safe_body key drops body"
  shows "rb_holds key s (xs @ ys) \<Longrightarrow>
    \<exists>s'. rb_foreach_safe_from body s (first_or_null ys) = Some (s', ys) \<and> rb_holds key s' (xs @ filter (\<lambda>a. \<not> drops a) ys)"
proof (induction ys arbitrary: s xs)
  case Nil
  then show ?case by (simp add: rb_foreach_safe_from.simps)
next
  case (Cons x ys)
  obtain s1 where s1: "body x s = Some s1" "rb_holds key s1 (if drops x then xs @ ys else xs @ x # ys)"
    by (rule safe_bodyD [OF body Cons.prems])
  define ks where "ks = (if drops x then xs else xs @ [x])"
  have "rb_holds key s1 (ks @ ys)" using s1(2) by (simp add: ks_def split: if_splits)
  from Cons.IH [OF this] obtain s' where s': "rb_foreach_safe_from body s1 (first_or_null ys) = Some (s', ys)"
    "rb_holds key s' (ks @ filter (\<lambda>a. \<not> drops a) ys)" by blast
  have "x \<noteq> NULL" using holds_not_null [OF Cons.prems, of x] by simp
  then have "rb_foreach_safe_from body s x = Some (s', x # ys)"
    using s1(1) s'(1) holds_neighbours(1) [OF Cons.prems] by (simp add: rb_foreach_safe_from.simps [of body s x])
  then show ?case using s'(2) by (auto simp: ks_def split: if_splits)
qed

lemma foreach_reverse_safe_from_ok:
  assumes body: "safe_body key drops body"
  shows "rb_holds key s (xs @ ys) \<Longrightarrow>
    \<exists>s'. rb_foreach_reverse_safe_from body s (last_or_null xs) = Some (s', rev xs) \<and> rb_holds key s' (filter (\<lambda>a. \<not> drops a) xs @ ys)"
proof (induction xs arbitrary: s ys rule: rev_induct)
  case Nil
  then show ?case by (simp add: rb_foreach_reverse_safe_from.simps)
next
  case (snoc x xs)
  then have prem: "rb_holds key s (xs @ x # ys)" by simp
  obtain s1 where s1: "body x s = Some s1" "rb_holds key s1 (if drops x then xs @ ys else xs @ x # ys)"
    by (rule safe_bodyD [OF body prem])
  define ks where "ks = (if drops x then ys else x # ys)"
  have "rb_holds key s1 (xs @ ks)" using s1(2) by (simp add: ks_def split: if_splits)
  from snoc.IH [OF this] obtain s' where s': "rb_foreach_reverse_safe_from body s1 (last_or_null xs) = Some (s', rev xs)"
    "rb_holds key s' (filter (\<lambda>a. \<not> drops a) xs @ ks)" by blast
  have "x \<noteq> NULL" using holds_not_null [OF prem, of x] by simp
  then have "rb_foreach_reverse_safe_from body s x = Some (s', x # rev xs)"
    using s1(1) s'(1) holds_neighbours(2) [OF prem] by (simp add: rb_foreach_reverse_safe_from.simps [of body s x])
  then show ?case using s'(2) by (auto simp: ks_def split: if_splits)
qed

section \<open>Removing and freeing the node at hand\<close>

definition remove_and_free :: "(addr \<Rightarrow> bool) \<Rightarrow> 'a loop_body" where
  "remove_and_free drops x s =
     (if drops x then do { (s, _) \<leftarrow> RB_REMOVE s x; Some (fst s, (snd s)(x := None)) } else Some s)"

lemma remove_and_free_safe:
  assumes o: "rb_order cmp key"
  shows "safe_body key drops (remove_and_free drops)"
  unfolding safe_body_def
proof (intro allI impI)
  fix s xs x ys assume h: "rb_holds key s (xs @ x # ys)"
  show "\<exists>s'. remove_and_free drops x s = Some s' \<and> rb_holds key s' (if drops x then xs @ ys else xs @ x # ys)"
  proof (cases "drops x")
    case True
    obtain s1 where s1: "RB_REMOVE s x = Some (s1, x)" "rb_holds key s1 (remove1 x (xs @ x # ys))"
      using rb_order.remove_law [OF o h, of x] by auto
    have "distinct (xs @ x # ys)" using h by (auto simp: rb_holds_def rb_rep_def)
    then have x: "remove1 x (xs @ x # ys) = xs @ ys" "x \<notin> set (xs @ ys)" by (auto simp: remove1_append)
    have "rb_holds key (fst s1, (snd s1)(x := None)) (xs @ ys)"
      by (rule rb_holds_frame [OF s1(2) [unfolded x(1)]]) (use x(2) in \<open>auto simp: akey_def pay_def lk_def\<close>)
    then show ?thesis using True s1(1) by (simp add: remove_and_free_def)
  qed (use h in \<open>simp add: remove_and_free_def\<close>)
qed

section \<open>Initialisation and colours\<close>

lemma init_holds: "rb_holds key (RB_INIT h) []"
  unfolding rb_holds_def RB_INIT_def by (intro exI [of _ Tip]) (simp add: rb_rep_def)

lemma empty_iff: "rb_holds key s as \<Longrightarrow> RB_EMPTY s \<longleftrightarrow> as = []"
  by (auto simp: rb_holds_def RB_EMPTY_def rb_rep_def repr_rootp)

text \<open>The colour of a node is that of the edge to it: red where its rank is two below that of its parent.\<close>

fun edge_red :: "'a path \<Rightarrow> bool" where
  "edge_red [] = False"
| "edge_red (InL rl a rr r # c) = rl"
| "edge_red (InR l rl a rr # c) = rr"

lemma color_of_edge:
  assumes "rb_rep H h rt (plug c (Nd l rl a rr r))"
  shows "RB_COLOR h a = Some (edge_red c)"
proof (cases c rule: edge_red.cases)
  case 1
  then show ?thesis using focus_read [OF assms] by (simp add: RB_COLOR_def)
next
  case (2 dl p dr r' d)
  have rep: "rb_rep H h rt (plug d (Nd (Nd l rl a rr r) dl p dr r'))" using assms 2 by simp
  show ?thesis using 2 focus_read [OF assms] focus_read [OF rep] focus_cell(1) [OF rep] by (simp add: RB_COLOR_def)
next
  case (3 l' dl p dr d)
  have rep: "rb_rep H h rt (plug d (Nd l' dl p dr (Nd l rl a rr r)))" using assms 3 by simp
  have "rootp l' \<noteq> a" using right_child_differs [OF rep] by simp
  then show ?thesis using 3 focus_read [OF assms] focus_read [OF rep] focus_cell(1) [OF rep] by (simp add: RB_COLOR_def)
qed

end
