(* ===== verification/Rb_Props.thy ===== *)
theory Rb_Props
  imports Tag_Store Rb_Loops
begin

text \<open>
  The properties of the tree of \<^verbatim>\<open>include/sys/tree.h\<close>, stated for any comparison that satisfies
  the contract \<open>rb_order\<close> and for heaps whose nodes have any payload; the witnesses use the
  comparison and the nodes of the tag tree.
\<close>

section \<open>A tree of three tags, and a fourth node\<close>

definition demo_heap :: "addr \<rightharpoonup> tag_tree_node" where
  "demo_heap = [16 \<mapsto> (find_key 2)\<lparr>rbe_parent := 32\<rparr>,
     32 \<mapsto> (find_key 3)\<lparr>rbe_left := 16, rbe_right := 48\<rparr>,
     48 \<mapsto> (find_key 5)\<lparr>rbe_parent := 32\<rparr>,
     64 \<mapsto> find_key 4, 80 \<mapsto> find_key 3]"

lemma demo_keys:
  "akey tag_key (rt, demo_heap) 16 = 2" "akey tag_key (rt, demo_heap) 32 = 3" "akey tag_key (rt, demo_heap) 48 = 5"
  "akey tag_key (rt, demo_heap) 64 = 4" "akey tag_key (rt, demo_heap) 80 = 3"
  by (simp_all add: akey_def pay_def demo_heap_def tag_key_def find_key_def zero_node_def rb_entry.extend_def)

lemma demo_aligned: "aligned 16" "aligned 32" "aligned 48" "aligned 64" "aligned 80"
  by (simp_all add: aligned_def)

lemma demo_holds: "rb_holds tag_key (32, demo_heap) [16, 32, 48]"
proof -
  let ?t = "Nd (Nd Tip False 16 False Tip) False (32 :: addr) False (Nd Tip False 48 False Tip)"
  have "rb_rep demo_heap demo_heap 32 ?t"
    by (simp add: rb_rep_def lk_def demo_heap_def demo_aligned find_key_def zero_node_def pack_none)
  then have "rb_rep (snd (32, demo_heap)) (snd (32, demo_heap)) (fst (32, demo_heap)) ?t" by simp
  then show ?thesis unfolding rb_holds_def
    by (intro exI [of _ ?t]) (simp add: demo_keys, simp add: demo_heap_def)
qed

lemma tag_order: "rb_order tagcmp tag_key"
  by (rule tags.rb_order_axioms)

section \<open>Insertion and removal\<close>

lemma rb_insert_cases:
  assumes "rb_order cmp key" and "rb_holds key s as" and "rb_allocated s a" and "a \<notin> set as"
  shows "case find (\<lambda>b. akey key s b = akey key s a) as of
     Some b \<Rightarrow> RB_INSERT cmp s a = Some (s, b)
   | None \<Rightarrow> \<exists>s'. RB_INSERT cmp s a = Some (s', NULL) \<and> rb_same s s'
       \<and> rb_holds key s' (insort_key (akey key s) a as)"
proof (cases "find (\<lambda>b. akey key s b = akey key s a) as")
  case None
  then have "akey key s a \<notin> akey key s ` set as" by (auto simp: find_None_iff)
  with None show ?thesis using rb_order.insert_law_new [OF assms] by simp
next
  case (Some b)
  then have "b \<in> set as" "akey key s a = akey key s b" by (auto simp: find_Some_iff)
  with Some show ?thesis using rb_order.insert_law_old [OF assms(1-3)] by simp
qed

text \<open>C2: inserting a node into a tree that holds the nodes \<open>as\<close> in the order of their keys
  returns the node of the tree with the same key and changes nothing, when there is one; otherwise it
  returns \<open>NULL\<close>, and the heap then holds a balanced tree of exactly the old nodes and the new one, in order,
  with every payload as it was. In both cases the loops end and no null or dangling pointer is followed.\<close>

theorem rb_insert_correct:
  assumes "rb_order cmp key" and "rb_holds key s as" and "rb_allocated s a" and "a \<notin> set as"
  shows "case find (\<lambda>b. akey key s b = akey key s a) as of
     Some b \<Rightarrow> RB_INSERT cmp s a = Some (s, b)
   | None \<Rightarrow> \<exists>s'. RB_INSERT cmp s a = Some (s', NULL) \<and> rb_same s s'
       \<and> rb_holds key s' (insort_key (akey key s) a as)"
  by (rule rb_insert_cases [OF assms])

theorem rb_insert_correct_witness:
  "(\<exists>s'. RB_INSERT tagcmp (32, demo_heap) 64 = Some (s', NULL) \<and> rb_holds tag_key s' [16, 32, 64, 48])
   \<and> RB_INSERT tagcmp (32, demo_heap) 80 = Some ((32, demo_heap), 32)"
proof -
  have al: "rb_allocated (32, demo_heap) 64" "rb_allocated (32, demo_heap) 80"
    by (simp_all add: rb_allocated_def demo_aligned) (simp_all add: demo_heap_def)
  show ?thesis
    using rb_insert_correct [OF tag_order demo_holds al(1)] rb_insert_correct [OF tag_order demo_holds al(2)]
    by (auto simp: demo_keys)
qed

text \<open>C3: removing a node of the tree returns it, and the heap then holds a balanced tree of
  exactly the other nodes, in order, with every payload as it was; the loops end and no null or
  dangling pointer is followed.\<close>

theorem rb_remove_correct:
  assumes "rb_order cmp key" and "rb_holds key s as" and "a \<in> set as"
  shows "\<exists>s'. RB_REMOVE s a = Some (s', a) \<and> rb_same s s' \<and> rb_holds key s' (remove1 a as)"
  by (rule rb_order.remove_law [OF assms])

theorem rb_remove_correct_witness:
  "\<exists>s'. RB_REMOVE (32, demo_heap) 32 = Some (s', 32) \<and> rb_holds tag_key s' [16, 48]"
  using rb_remove_correct [OF tag_order demo_holds, of 32] by auto

section \<open>Searching and walking\<close>

text \<open>C25: \<open>RB_NFIND\<close> returns the first node, in order, whose key is not below the probe's, and
  \<open>NULL\<close> when there is none.\<close>

theorem rb_nfind_correct:
  assumes o: "rb_order cmp key" and h: "rb_holds key s as"
  shows "RB_NFIND cmp s e = Some (first_or_null (filter (\<lambda>a. key (rb_entry.more e) \<le> akey key s a) as))"
proof -
  obtain t where t: "rb_rep (snd s) (snd s) (fst s) t" "nodes t = as"
    "sorted_wrt (<) (map (akey key s) (nodes t))" "\<forall>a \<in> set (nodes t). snd s a \<noteq> None"
    using rb_order.rb_holdsD [OF o h] by metis
  let ?f = "against cmp e s"
  have sorted: "sorted_wrt (\<lambda>a b. ?f a \<le> 0 \<longrightarrow> ?f b < 0) (nodes t)"
    by (rule sorted_wrt_mono_rel [OF _ rb_order.against_order [OF o t(3,4), of e]]) simp
  have "rootp t = fst s" "repr (lk (snd s)) NULL t" using t(1) by (simp_all add: rb_rep_def)
  then have "RB_NFIND cmp s e = Some (case filter (\<lambda>a. ?f a \<le> 0) (nodes t) of [] \<Rightarrow> NULL | a # _ \<Rightarrow> a)"
    using rb_nfind_loop_refine [of "snd s" NULL t "against cmp e s" cmp e NULL] sorted
      rb_order.against_nodes [OF o t(4), of e] by (simp add: RB_NFIND_def)
  moreover have "filter (\<lambda>a. ?f a \<le> 0) (nodes t) = filter (\<lambda>a. key (rb_entry.more e) \<le> akey key s a) as"
    using rb_order.against_signs [OF o] t(2,4) by (intro filter_cong) (auto simp: not_less simp flip: not_less)
  ultimately show ?thesis by (simp add: first_or_null_def)
qed

theorem rb_nfind_correct_witness:
  "RB_NFIND tagcmp (32, demo_heap) (find_key 4) = Some 48 \<and> RB_NFIND tagcmp (32, demo_heap) (find_key 6) = Some NULL"
  using rb_nfind_correct [OF tag_order demo_holds, of "find_key 4"]
    rb_nfind_correct [OF tag_order demo_holds, of "find_key 6"]
  by (simp add: demo_keys find_key_key)

text \<open>C27: \<open>RB_FOREACH\<close> visits the nodes of the tree once each, in the order of their keys, and
  \<open>RB_FOREACH_REVERSE\<close> in the opposite order; \<open>RB_MIN\<close> and \<open>RB_MAX\<close> are the first and the last; \<open>RB_NEXT\<close>
  and \<open>RB_PREV\<close> of a node are its neighbours, \<open>NULL\<close> at the ends.\<close>

theorem rb_walk_correct:
  assumes "rb_holds key s as"
  shows "RB_FOREACH s = Some as \<and> RB_FOREACH_REVERSE s = Some (rev as)
    \<and> RB_MIN s = Some (first_or_null as) \<and> RB_MAX s = Some (last_or_null as)
    \<and> (\<forall>i < length as. RB_NEXT (snd s) (as ! i) = Some (first_or_null (drop (Suc i) as))
        \<and> RB_PREV (snd s) (as ! i) = Some (last_or_null (take i as)))
    \<and> sorted_wrt (<) (map (akey key s) as)"
proof -
  obtain t where t: "rb_rep (snd s) (snd s) (fst s) t" "nodes t = as" "sorted_wrt (<) (map (akey key s) as)"
    using assms by (auto simp: rb_holds_def)
  have "RB_NEXT (snd s) (as ! i) = Some (first_or_null (drop (Suc i) as))
      \<and> RB_PREV (snd s) (as ! i) = Some (last_or_null (take i as))" if "i < length as" for i
    using neighbours [OF t(1), of "take i as" "as ! i" "drop (Suc i) as"] id_take_nth_drop [OF that] t(2) by simp
  then show ?thesis using RB_FOREACH_refine [OF t(1)] RB_MINMAX_refine [OF t(1)] t(2,3) by simp
qed

theorem rb_walk_correct_witness:
  "RB_FOREACH (32, demo_heap) = Some [16, 32, 48] \<and> RB_NEXT demo_heap 16 = Some 32 \<and> RB_PREV demo_heap 16 = Some NULL"
proof -
  have "\<forall>i < length [16, 32, 48 :: addr]. RB_NEXT demo_heap ([16, 32, 48] ! i) = Some (first_or_null (drop (Suc i) [16, 32, 48]))
        \<and> RB_PREV demo_heap ([16, 32, 48] ! i) = Some (last_or_null (take i [16, 32, 48]))"
    and "RB_FOREACH (32, demo_heap) = Some [16, 32, 48]"
    using rb_walk_correct [OF demo_holds] by simp_all
  from this(1) [rule_format, of 0] this(2) show ?thesis by simp
qed

text \<open>C39: \<open>RB_FOREACH_SAFE\<close> and \<open>RB_FOREACH_REVERSE_SAFE\<close>, and the two that start from a given node, visit every
  node once, in order, although the body takes nodes out of the tree and may free them, as long as it only takes the one at
  hand; what is left is a balanced tree of the nodes that were not taken. The loops end.\<close>

theorem rb_foreach_safe_correct:
  assumes "rb_holds key s as" and "safe_body key drops body"
  shows "(\<exists>s'. RB_FOREACH_SAFE body s = Some (s', as) \<and> rb_holds key s' (filter (\<lambda>a. \<not> drops a) as))
    \<and> (\<exists>s'. RB_FOREACH_REVERSE_SAFE body s = Some (s', rev as) \<and> rb_holds key s' (filter (\<lambda>a. \<not> drops a) as))
    \<and> (\<forall>xs ys. as = xs @ ys \<longrightarrow>
        (\<exists>s'. RB_FOREACH_FROM body s (first_or_null ys) = Some (s', ys) \<and> rb_holds key s' (xs @ filter (\<lambda>a. \<not> drops a) ys))
      \<and> (\<exists>s'. RB_FOREACH_REVERSE_FROM body s (last_or_null xs) = Some (s', rev xs)
            \<and> rb_holds key s' (filter (\<lambda>a. \<not> drops a) xs @ ys)))"
proof -
  note fwd = foreach_safe_from_ok [OF assms(2), of s] and bwd = foreach_reverse_safe_from_ok [OF assms(2), of s]
  show ?thesis using fwd [of "[]" as] bwd [of as "[]"] fwd bwd holds_ends [OF assms(1)] assms(1)
    by (auto simp: RB_FOREACH_SAFE_def RB_FOREACH_REVERSE_SAFE_def RB_FOREACH_FROM_def RB_FOREACH_REVERSE_FROM_def)
qed

theorem rb_foreach_safe_correct_witness:
  "(\<exists>s'. RB_FOREACH_SAFE (remove_and_free (\<lambda>a. a \<noteq> 32)) (32, demo_heap) = Some (s', [16, 32, 48]) \<and> rb_holds tag_key s' [32])
   \<and> (\<exists>s'. RB_FOREACH_REVERSE_SAFE (remove_and_free (\<lambda>_. True)) (32, demo_heap) = Some (s', [48, 32, 16]) \<and> rb_holds tag_key s' [])"
  using rb_foreach_safe_correct [OF demo_holds remove_and_free_safe [OF tag_order, of "\<lambda>a. a \<noteq> 32"]]
    rb_foreach_safe_correct [OF demo_holds remove_and_free_safe [OF tag_order, of "\<lambda>_. True"]] by simp

section \<open>Changing a key in place\<close>

text \<open>The node \<open>a\<close> of the tree has got a new payload, and with it a key that may be out of order.\<close>

lemma akey_upd: "akey key (rt, h(a \<mapsto> n)) b = (if b = a then key (rb_entry.more n) else akey key (rt, h) b)"
  by (simp add: akey_def pay_def)

lemma last_or_null_cases: "last_or_null xs = (if xs = [] then NULL else last xs)" "first_or_null xs = (if xs = [] then NULL else hd xs)"
  by (simp_all add: last_or_null_def first_or_null_def split: list.splits)

lemma reinsert_decides:
  assumes o: "rb_order cmp key" and t: "rb_rep (snd s) (snd s) (fst s) t" "nodes t = xs @ a # ys" and n: "snd s a = Some n"
    and alive: "\<forall>b \<in> set (nodes t). snd s b \<noteq> None"
  shows "RB_REINSERT cmp s a =
    (if (xs = [] \<or> akey key s (last xs) < key (rb_entry.more n)) \<and> (ys = [] \<or> key (rb_entry.more n) < akey key s (hd ys))
     then Some (s, NULL)
     else Option.bind (RB_REMOVE s a) (\<lambda>(s, _). RB_INSERT cmp s a))"
proof -
  have nn: "b \<noteq> NULL" if "b \<in> set (nodes t)" for b using rep_not_null [OF t(1)] that by auto
  have rd: "rd (snd s) b = snd s b" if "b \<in> set (nodes t)" for b using nn [OF that] by (simp add: rd_def)
  have p: "RB_PREV (snd s) a = Some (last_or_null xs)" and q: "RB_NEXT (snd s) a = Some (first_or_null ys)"
    using neighbours [OF t] by simp_all
  have before: "map_option (\<lambda>m. cmp m n \<ge> 0) (rd (snd s) (last xs)) = Some (\<not> akey key s (last xs) < key (rb_entry.more n))" if "xs \<noteq> []"
  proof -
    have i: "last xs \<in> set (nodes t)" using that t(2) by simp
    obtain m where m: "snd s (last xs) = Some m" using alive i by blast
    show ?thesis using rd [OF i] m rb_order.cmp_less [OF o, of m n] by (simp add: akey_def pay_def not_less [symmetric])
  qed
  have after: "map_option (\<lambda>m. cmp n m \<ge> 0) (rd (snd s) (hd ys)) = Some (\<not> key (rb_entry.more n) < akey key s (hd ys))" if "ys \<noteq> []"
  proof -
    have i: "hd ys \<in> set (nodes t)" using that t(2) by simp
    obtain m where m: "snd s (hd ys) = Some m" using alive i by blast
    show ?thesis using rd [OF i] m rb_order.cmp_less [OF o, of n m] by (simp add: akey_def pay_def not_less [symmetric])
  qed
  have e: "rd (snd s) a = Some n" using rd [of a] n t(2) by simp
  have "last xs \<noteq> NULL" if "xs \<noteq> []" using nn [of "last xs"] that t(2) by simp
  moreover have "hd ys \<noteq> NULL" if "ys \<noteq> []" using nn [of "hd ys"] that t(2) by simp
  ultimately show ?thesis using e p q before after unfolding RB_REINSERT_def last_or_null_cases
    by (cases "xs = []"; cases "ys = []") auto
qed

text \<open>The tree at the moment \<open>RB_REINSERT\<close> is called: the program has changed the payload of one of its
  nodes, so that the shape is the one of before and only the order around that node is open.\<close>

lemma changed_node_tree:
  assumes h: "rb_holds key (rt, h) (xs @ a # ys)" and n: "h a = Some n"
    and links: "rbe_left n' = rbe_left n" "rbe_right n' = rbe_right n" "rbe_parent n' = rbe_parent n"
    and s: "s = (rt, h(a \<mapsto> n'))"
  obtains t where "rb_rep (snd s) (snd s) (fst s) t" "ranked t" "nodes t = xs @ a # ys" "distinct (xs @ a # ys)"
    "\<forall>b \<in> set (nodes t). snd s b \<noteq> None" "sorted_wrt (<) (map (akey key s) xs)" "sorted_wrt (<) (map (akey key s) ys)"
    "\<forall>x \<in> set xs. \<forall>y \<in> set ys. akey key s x < akey key s y"
proof -
  obtain t where t: "rb_rep h h rt t" "ranked t" "nodes t = xs @ a # ys" "sorted_wrt (<) (map (akey key (rt, h)) (xs @ a # ys))"
    "\<forall>b \<in> set (xs @ a # ys). h b \<noteq> None" using h by (auto simp: rb_holds_def)
  have dist: "distinct (xs @ a # ys)" using t(1,3) by (simp add: rb_rep_def)
  have lk: "lk (snd s) = lk h" using n links by (auto simp: s lk_def fun_eq_iff)
  have rep: "rb_rep (snd s) (snd s) (fst s) t" using t(1) lk by (simp add: rb_rep_def s)
  have k: "akey key s b = (if b = a then key (rb_entry.more n') else akey key (rt, h) b)" for b by (simp add: s akey_upd)
  have others: "map (akey key s) zs = map (akey key (rt, h)) zs" if "a \<notin> set zs" for zs using that by (auto simp: k)
  have so: "sorted_wrt (<) (map (akey key s) xs)" "sorted_wrt (<) (map (akey key s) ys)"
    "\<forall>x \<in> set xs. \<forall>y \<in> set ys. akey key s x < akey key s y"
    using t(4) dist by (simp_all add: others sorted_wrt_append) (auto simp: k)
  have "\<forall>b \<in> set (nodes t). snd s b \<noteq> None" using t(3,5) by (auto simp: s)
  then show thesis by (rule that [OF rep t(2,3) dist _ so])
qed

text \<open>C34: \<open>RB_REINSERT\<close> of a node whose key was changed in place moves it to where its new key belongs,
  leaves it where it is when that is still there, and, when another node has the new key, takes it out of the tree
  and returns that node; the tree stays balanced, and the other nodes stay in their order.\<close>

theorem rb_reinsert_correct:
  assumes o: "rb_order cmp key" and h: "rb_holds key (rt, h) (xs @ a # ys)" and n: "h a = Some n"
    and links: "rbe_left n' = rbe_left n" "rbe_right n' = rbe_right n" "rbe_parent n' = rbe_parent n"
    and s: "s = (rt, h(a \<mapsto> n'))"
  shows "case find (\<lambda>b. akey key s b = akey key s a) (xs @ ys) of
     None \<Rightarrow> \<exists>s'. RB_REINSERT cmp s a = Some (s', NULL) \<and> rb_same s s' \<and> rb_holds key s' (insort_key (akey key s) a (xs @ ys))
   | Some b \<Rightarrow> \<exists>s'. RB_REINSERT cmp s a = Some (s', b) \<and> rb_same s s' \<and> rb_holds key s' (xs @ ys)"
proof -
  obtain t where rep: "rb_rep (snd s) (snd s) (fst s) t" and t: "ranked t" "nodes t = xs @ a # ys" and dist: "distinct (xs @ a # ys)"
    and alive: "\<forall>b \<in> set (nodes t). snd s b \<noteq> None"
    and so: "sorted_wrt (<) (map (akey key s) xs)" "sorted_wrt (<) (map (akey key s) ys)"
      "\<forall>x \<in> set xs. \<forall>y \<in> set ys. akey key s x < akey key s y"
    using changed_node_tree [OF h n links s] by blast
  have sn: "snd s a = Some n'" by (simp add: s)
  note decide = reinsert_decides [OF o rep t(2) sn alive]
  let ?k = "key (rb_entry.more n')"
  have ka: "akey key s a = ?k" by (simp add: s akey_upd)
  show ?thesis
  proof (cases "(xs = [] \<or> akey key s (last xs) < ?k) \<and> (ys = [] \<or> ?k < akey key s (hd ys))")
    case True
    have below: "\<forall>x \<in> set xs. akey key s x < ?k"
      using True so(1) by (cases xs rule: rev_cases) (auto simp: sorted_wrt_append)
    have above: "\<forall>y \<in> set ys. ?k < akey key s y" using True so(2) by (cases ys) auto
    have "insort_key (akey key s) a (xs @ ys) = xs @ a # ys"
      using below above by (intro insort_between) (simp_all add: ka)
    moreover have "rb_holds key s (xs @ a # ys)"
      using rep t alive so below above by (auto simp: rb_holds_def sorted_wrt_append ka)
    moreover have "find (\<lambda>b. akey key s b = akey key s a) (xs @ ys) = None"
      using below above by (auto simp: find_None_iff ka)
    ultimately show ?thesis using decide True by (simp add: rb_same_def)
  next
    case False
    obtain s1 u where s1: "RB_REMOVE s a = Some (s1, a)" "rb_rep (snd s1) (snd s1) (fst s1) u" "ranked u"
      "nodes u = remove1 a (nodes t)" "pay (snd s1) = pay (snd s)"
      using remove_structure [OF rep t(1), of a] t(2) by auto
    have nodes: "nodes u = xs @ ys" using s1(4) t(2) dist by (simp add: remove1_append)
    have k1: "akey key s1 = akey key s" using s1(5) by (simp add: akey_def fun_eq_iff)
    have alive1: "snd s1 b \<noteq> None" if "b \<in> set (xs @ a # ys)" for b
      using alive that t(2) rb_order.same_alive [OF o s1(5), of b] by (metis (no_types))
    have "rb_holds key s1 (xs @ ys)"
      using s1(2,3) nodes so alive1 by (auto simp: rb_holds_def sorted_wrt_append k1)
    moreover have "rb_allocated s1 a"
      using alive1 [of a] t(2) rep rep_not_null [OF rep] node_focus [of a t] by (auto simp: rb_allocated_def rb_rep_plug)
    moreover have "a \<notin> set (xs @ ys)" using dist by simp
    moreover have "RB_REINSERT cmp s a = RB_INSERT cmp s1 a" using decide False s1(1) by auto
    ultimately show ?thesis
      using rb_insert_cases [OF o, of s1 "xs @ ys" a] s1(5)
      by (cases "find (\<lambda>b. akey key s b = akey key s a) (xs @ ys)") (simp_all add: k1 rb_same_def)
  qed
qed

text \<open>The key of the node 16 becomes 4, then 5, in the tree of the keys 2, 3 and 5.\<close>

theorem rb_reinsert_correct_witness:
  "(\<exists>s'. RB_REINSERT tagcmp (32, demo_heap(16 \<mapsto> (find_key 4)\<lparr>rbe_parent := 32\<rparr>)) 16 = Some (s', NULL) \<and> rb_holds tag_key s' [32, 16, 48])
   \<and> (\<exists>s'. RB_REINSERT tagcmp (32, demo_heap(16 \<mapsto> (find_key 5)\<lparr>rbe_parent := 32\<rparr>)) 16 = Some (s', 48) \<and> rb_holds tag_key s' [32, 48])"
proof -
  have h: "rb_holds tag_key (32, demo_heap) ([] @ 16 # [32, 48])" using demo_holds by simp
  have n: "demo_heap 16 = Some ((find_key 2)\<lparr>rbe_parent := 32\<rparr>)" by (simp add: demo_heap_def)
  have k: "tag_key (rb_entry.more ((find_key i)\<lparr>rbe_parent := p\<rparr>)) = sint i" "tag_key (rb_entry.more (find_key i)) = sint i" for i p
    by (simp_all add: tag_key_def find_key_def zero_node_def rb_entry.extend_def)
  have l: "rbe_left ((find_key i)\<lparr>rbe_parent := 32\<rparr>) = rbe_left ((find_key 2)\<lparr>rbe_parent := 32\<rparr>)"
    "rbe_right ((find_key i)\<lparr>rbe_parent := 32\<rparr>) = rbe_right ((find_key 2)\<lparr>rbe_parent := 32\<rparr>)"
    "rbe_parent ((find_key i)\<lparr>rbe_parent := 32\<rparr>) = rbe_parent ((find_key 2)\<lparr>rbe_parent := 32\<rparr>)" for i
    by (simp_all add: find_key_def zero_node_def)
  show ?thesis
    using rb_reinsert_correct [OF tag_order h n l [of 4] refl] rb_reinsert_correct [OF tag_order h n l [of 5] refl]
    by (simp add: akey_upd k demo_keys) blast
qed

section \<open>The cost of a search\<close>

text \<open>The loop of \<open>RB_FIND\<close>, given up after \<open>k\<close> rounds.\<close>

fun find_within :: "nat \<Rightarrow> 'a cmp \<Rightarrow> 'a heap \<Rightarrow> 'a rb_entry_scheme \<Rightarrow> addr \<Rightarrow> addr option" where
  "find_within 0 cmp h e tmp = (if tmp = NULL then Some NULL else None)"
| "find_within (Suc k) cmp h e tmp = (if tmp = NULL then Some NULL
     else case rd h tmp of None \<Rightarrow> None | Some n \<Rightarrow>
       if cmp e n < 0 then find_within k cmp h e (rbe_left n)
       else if cmp e n > 0 then find_within k cmp h e (rbe_right n)
       else Some tmp)"

lemma find_within_refine:
  assumes "repr (lk h) p t" and "\<forall>a \<in> set (nodes t). \<exists>n. h a = Some n \<and> f a = cmp e n" and "height t \<le> k"
  shows "find_within k cmp h e (rootp t) = Some (case find_path f c t of Inl a \<Rightarrow> a | Inr _ \<Rightarrow> NULL)"
  using assms
proof (induction t arbitrary: p c k)
  case Tip
  then show ?case by (cases k) simp_all
next
  case (Nd l rl a rr r)
  then obtain j where k: "k = Suc j" "height l \<le> j" "height r \<le> j" by (cases k) auto
  obtain n where n: "h a = Some n" "f a = cmp e n" "a \<noteq> NULL" "rbe_left n = rootp l" "rbe_right n = rootp r"
    using Nd.prems(1,2) by (auto simp: lk_def)
  show ?case using Nd.IH(1) [of a j] Nd.IH(2) [of a j] Nd.prems(1,2) k n by (auto simp: rd_def)
qed

text \<open>C21: a search looks at no more than \<open>k\<close> nodes, where \<open>2 ^ k \<le> (n + 1)\<^sup>2\<close> in a tree of \<open>n\<close>, and
  returns the node with the key of the probe, or \<open>NULL\<close> when the tree has none.\<close>

theorem rb_find_bound:
  assumes o: "rb_order cmp key" and h: "rb_holds key s as"
  shows "\<exists>k. 2 ^ k \<le> (length as + 1)\<^sup>2 \<and> find_within k cmp (snd s) e (fst s) = RB_FIND cmp s e
     \<and> RB_FIND cmp s e = Some (case find (\<lambda>a. akey key s a = key (rb_entry.more e)) as of None \<Rightarrow> NULL | Some a \<Rightarrow> a)"
proof -
  obtain t where t: "rb_rep (snd s) (snd s) (fst s) t" "nodes t = as"
    "sorted_wrt (<) (map (akey key s) (nodes t))" "\<forall>a \<in> set (nodes t). snd s a \<noteq> None" "ranked t"
    using rb_order.rb_holdsD [OF o h] by metis
  have r: "rootp t = fst s" "repr (lk (snd s)) NULL t" using t(1) by (simp_all add: rb_rep_def)
  note nodes = rb_order.against_nodes [OF o t(4), of e]
  have "find_within (height t) cmp (snd s) e (fst s) = RB_FIND cmp s e"
    using find_within_refine [of "snd s" NULL t "against cmp e s" cmp e "height t" "[]"]
      rb_find_loop_refine [of "snd s" NULL t "against cmp e s" cmp e "[]"] r nodes
    by (simp add: RB_FIND_def)
  moreover have "2 ^ height t \<le> (length as + 1)\<^sup>2" using ranked_height [OF t(5)] t(2) by simp
  moreover have "RB_FIND cmp s e = Some (case find (\<lambda>a. akey key s a = key (rb_entry.more e)) as of None \<Rightarrow> NULL | Some a \<Rightarrow> a)"
  proof (cases "find (\<lambda>a. akey key s a = key (rb_entry.more e)) as")
    case None
    then have "key (rb_entry.more e) \<notin> akey key s ` set as" by (auto simp: find_None_iff)
    with None show ?thesis using rb_order.find_law_missing [OF o h] by simp
  next
    case (Some a)
    then have "a \<in> set as" "akey key s a = key (rb_entry.more e)" by (auto simp: find_Some_iff)
    with Some show ?thesis using rb_order.find_law_found [OF o h] by simp
  qed
  ultimately show ?thesis by blast
qed

theorem rb_find_bound_witness:
  "\<exists>k. 2 ^ k \<le> (4 :: nat)\<^sup>2 \<and> find_within k tagcmp demo_heap (find_key 5) 32 = Some 48"
proof -
  have n: "length [16, 32, 48 :: addr] + 1 = 4" by simp
  show ?thesis using rb_find_bound [OF tag_order demo_holds, of "find_key 5", unfolded n]
    by (auto simp: demo_keys find_key_key)
qed

end
