(* ===== verification/Splay_Heap.thy ===== *)
theory Splay_Heap
  imports Prelude
begin

text \<open>
  The splay tree macros of \<^verbatim>\<open>include/sys/tree.h\<close>, as programs on a heap, in the manner of \<open>Rb_Heap\<close>: a node is
  a record that extends \<open>splay_entry\<close>, the head of the tree is its pointer \<open>sph_root\<close>, carried beside the heap, and a
  bad pointer or a loop that does not end is \<open>None\<close>. The library does not instantiate these macros, so the comparison is a parameter.
\<close>

section \<open>Nodes, heaps and the field macros\<close>

record splay_entry =
  spe_left :: addr
  spe_right :: addr

type_synonym 'a splay_heap = "addr \<rightharpoonup> 'a splay_entry_scheme"
type_synonym 'a splay_head = "addr \<times> 'a splay_heap"
type_synonym 'a splay_cmp = "'a splay_entry_scheme \<Rightarrow> 'a splay_entry_scheme \<Rightarrow> int"

definition spe_rd :: "'a splay_heap \<Rightarrow> addr \<Rightarrow> 'a splay_entry_scheme option" where
  "spe_rd h a = (if a = NULL then None else h a)"

definition spe_wr :: "'a splay_heap \<Rightarrow> addr \<Rightarrow> ('a splay_entry_scheme \<Rightarrow> 'a splay_entry_scheme) \<Rightarrow> 'a splay_heap option" where
  "spe_wr h a f = do { n \<leftarrow> spe_rd h a; Some (h(a \<mapsto> f n)) }"

definition SPLAY_LEFT :: "'a splay_heap \<Rightarrow> addr \<Rightarrow> addr option" where
  "SPLAY_LEFT h elm = map_option spe_left (spe_rd h elm)"

definition SPLAY_RIGHT :: "'a splay_heap \<Rightarrow> addr \<Rightarrow> addr option" where
  "SPLAY_RIGHT h elm = map_option spe_right (spe_rd h elm)"

definition SPLAY_SET_LEFT :: "'a splay_heap \<Rightarrow> addr \<Rightarrow> addr \<Rightarrow> 'a splay_heap option" where
  "SPLAY_SET_LEFT h elm v = spe_wr h elm (\<lambda>n. n\<lparr>spe_left := v\<rparr>)"

definition SPLAY_SET_RIGHT :: "'a splay_heap \<Rightarrow> addr \<Rightarrow> addr \<Rightarrow> 'a splay_heap option" where
  "SPLAY_SET_RIGHT h elm v = spe_wr h elm (\<lambda>n. n\<lparr>spe_right := v\<rparr>)"

definition SPLAY_INIT :: "'a splay_heap \<Rightarrow> 'a splay_head" where
  "SPLAY_INIT h = (NULL, h)"

definition SPLAY_EMPTY :: "'a splay_head \<Rightarrow> bool" where
  "SPLAY_EMPTY s = (fst s = NULL)"

section \<open>Splaying\<close>

text \<open>
  The variables of \<open>SPLAY\<close>: the head, and the locals. \<open>__node\<close> is a structure on the stack of which only the two
  links are used; \<open>__left\<close> and \<open>__right\<close> point to it (\<open>Local\<close>) or to a node of the heap.
\<close>

datatype place = Local | At addr

record 'a splay_vars =
  sph_root :: addr
  sph_heap :: "'a splay_heap"
  node_left :: addr
  node_right :: addr
  v_left :: place
  v_right :: place

definition put_right :: "place \<Rightarrow> addr \<Rightarrow> 'a splay_vars \<Rightarrow> 'a splay_vars option" where
  "put_right p v f = (case p of
     Local \<Rightarrow> Some (f\<lparr>node_right := v\<rparr>)
   | At a \<Rightarrow> do { h \<leftarrow> SPLAY_SET_RIGHT (sph_heap f) a v; Some (f\<lparr>sph_heap := h\<rparr>) })"

definition put_left :: "place \<Rightarrow> addr \<Rightarrow> 'a splay_vars \<Rightarrow> 'a splay_vars option" where
  "put_left p v f = (case p of
     Local \<Rightarrow> Some (f\<lparr>node_left := v\<rparr>)
   | At a \<Rightarrow> do { h \<leftarrow> SPLAY_SET_LEFT (sph_heap f) a v; Some (f\<lparr>sph_heap := h\<rparr>) })"

definition SPLAY_ROTATE_RIGHT :: "'a splay_vars \<Rightarrow> addr \<Rightarrow> 'a splay_vars option" where
  "SPLAY_ROTATE_RIGHT f tmp = do {
     b \<leftarrow> SPLAY_RIGHT (sph_heap f) tmp;
     h \<leftarrow> SPLAY_SET_LEFT (sph_heap f) (sph_root f) b;
     h \<leftarrow> SPLAY_SET_RIGHT h tmp (sph_root f);
     Some (f\<lparr>sph_heap := h, sph_root := tmp\<rparr>)
   }"

definition SPLAY_ROTATE_LEFT :: "'a splay_vars \<Rightarrow> addr \<Rightarrow> 'a splay_vars option" where
  "SPLAY_ROTATE_LEFT f tmp = do {
     b \<leftarrow> SPLAY_LEFT (sph_heap f) tmp;
     h \<leftarrow> SPLAY_SET_RIGHT (sph_heap f) (sph_root f) b;
     h \<leftarrow> SPLAY_SET_LEFT h tmp (sph_root f);
     Some (f\<lparr>sph_heap := h, sph_root := tmp\<rparr>)
   }"

text \<open>\<open>SPLAY_LINKLEFT(head, __right)\<close> and \<open>SPLAY_LINKRIGHT(head, __left)\<close>, their only uses.\<close>

definition SPLAY_LINKLEFT :: "'a splay_vars \<Rightarrow> 'a splay_vars option" where
  "SPLAY_LINKLEFT f = do {
     f \<leftarrow> put_left (v_right f) (sph_root f) f;
     let f = f\<lparr>v_right := At (sph_root f)\<rparr>;
     l \<leftarrow> SPLAY_LEFT (sph_heap f) (sph_root f);
     Some (f\<lparr>sph_root := l\<rparr>)
   }"

definition SPLAY_LINKRIGHT :: "'a splay_vars \<Rightarrow> 'a splay_vars option" where
  "SPLAY_LINKRIGHT f = do {
     f \<leftarrow> put_right (v_left f) (sph_root f) f;
     let f = f\<lparr>v_left := At (sph_root f)\<rparr>;
     r \<leftarrow> SPLAY_RIGHT (sph_heap f) (sph_root f);
     Some (f\<lparr>sph_root := r\<rparr>)
   }"

definition SPLAY_ASSEMBLE :: "'a splay_vars \<Rightarrow> 'a splay_vars option" where
  "SPLAY_ASSEMBLE f = do {
     l \<leftarrow> SPLAY_LEFT (sph_heap f) (sph_root f);
     f \<leftarrow> put_right (v_left f) l f;
     r \<leftarrow> SPLAY_RIGHT (sph_heap f) (sph_root f);
     f \<leftarrow> put_left (v_right f) r f;
     h \<leftarrow> SPLAY_SET_LEFT (sph_heap f) (sph_root f) (node_right f);
     h \<leftarrow> SPLAY_SET_RIGHT h (sph_root f) (node_left f);
     Some (f\<lparr>sph_heap := h\<rparr>)
   }"

text \<open>The state in which both loops start.\<close>

definition splay_start :: "'a splay_head \<Rightarrow> 'a splay_vars" where
  "splay_start s = \<lparr>sph_root = fst s, sph_heap = snd s, node_left = NULL, node_right = NULL, v_left = Local, v_right = Local\<rparr>"

partial_function (option) splay_loop ::
  "'a splay_cmp \<Rightarrow> 'a splay_entry_scheme \<Rightarrow> 'a splay_vars \<Rightarrow> 'a splay_vars option" where
  "splay_loop cmp elm f = do {
     n \<leftarrow> spe_rd (sph_heap f) (sph_root f);
     if cmp elm n < 0 then do {
       tmp \<leftarrow> SPLAY_LEFT (sph_heap f) (sph_root f);
       if tmp = NULL then Some f
       else do {
         m \<leftarrow> spe_rd (sph_heap f) tmp;
         if cmp elm m < 0 then do {
           f \<leftarrow> SPLAY_ROTATE_RIGHT f tmp;
           l \<leftarrow> SPLAY_LEFT (sph_heap f) (sph_root f);
           if l = NULL then Some f
           else do { f \<leftarrow> SPLAY_LINKLEFT f; splay_loop cmp elm f }
         } else do { f \<leftarrow> SPLAY_LINKLEFT f; splay_loop cmp elm f }
       }
     } else if cmp elm n > 0 then do {
       tmp \<leftarrow> SPLAY_RIGHT (sph_heap f) (sph_root f);
       if tmp = NULL then Some f
       else do {
         m \<leftarrow> spe_rd (sph_heap f) tmp;
         if cmp elm m > 0 then do {
           f \<leftarrow> SPLAY_ROTATE_LEFT f tmp;
           r \<leftarrow> SPLAY_RIGHT (sph_heap f) (sph_root f);
           if r = NULL then Some f
           else do { f \<leftarrow> SPLAY_LINKRIGHT f; splay_loop cmp elm f }
         } else do { f \<leftarrow> SPLAY_LINKRIGHT f; splay_loop cmp elm f }
       }
     } else Some f
   }"

text \<open>\<open>elm\<close> is the node, or the probe, at the start of the call: the comparison must not depend on its links.\<close>

definition SPLAY :: "'a splay_cmp \<Rightarrow> 'a splay_head \<Rightarrow> 'a splay_entry_scheme \<Rightarrow> 'a splay_head option" where
  "SPLAY cmp s elm = do {
     f \<leftarrow> splay_loop cmp elm (splay_start s);
     f \<leftarrow> SPLAY_ASSEMBLE f;
     Some (sph_root f, sph_heap f)
   }"

text \<open>The same with the sign of \<open>__comp\<close> in place of the comparison.\<close>

partial_function (option) splay_minmax_loop :: "int \<Rightarrow> 'a splay_vars \<Rightarrow> 'a splay_vars option" where
  "splay_minmax_loop dir f =
     (if dir < 0 then do {
        tmp \<leftarrow> SPLAY_LEFT (sph_heap f) (sph_root f);
        if tmp = NULL then Some f
        else do {
          f \<leftarrow> SPLAY_ROTATE_RIGHT f tmp;
          l \<leftarrow> SPLAY_LEFT (sph_heap f) (sph_root f);
          if l = NULL then Some f
          else do { f \<leftarrow> SPLAY_LINKLEFT f; splay_minmax_loop dir f }
        }
      } else if dir > 0 then do {
        tmp \<leftarrow> SPLAY_RIGHT (sph_heap f) (sph_root f);
        if tmp = NULL then Some f
        else do {
          f \<leftarrow> SPLAY_ROTATE_LEFT f tmp;
          r \<leftarrow> SPLAY_RIGHT (sph_heap f) (sph_root f);
          if r = NULL then Some f
          else do { f \<leftarrow> SPLAY_LINKRIGHT f; splay_minmax_loop dir f }
        }
      } else splay_minmax_loop dir f)"

definition SPLAY_MINMAX :: "'a splay_head \<Rightarrow> int \<Rightarrow> 'a splay_head option" where
  "SPLAY_MINMAX s dir = do {
     f \<leftarrow> splay_minmax_loop dir (splay_start s);
     f \<leftarrow> SPLAY_ASSEMBLE f;
     Some (sph_root f, sph_heap f)
   }"

section \<open>The operations\<close>

definition SPLAY_FIND :: "'a splay_cmp \<Rightarrow> 'a splay_head \<Rightarrow> 'a splay_entry_scheme \<Rightarrow> ('a splay_head \<times> addr) option" where
  "SPLAY_FIND cmp s elm =
     (if SPLAY_EMPTY s then Some (s, NULL)
      else do {
        s \<leftarrow> SPLAY cmp s elm;
        n \<leftarrow> spe_rd (snd s) (fst s);
        Some (s, if cmp elm n = 0 then fst s else NULL)
      })"

text \<open>The loop of \<open>SPLAY_NEXT\<close>.\<close>

partial_function (option) splay_leftmost :: "'a splay_heap \<Rightarrow> addr \<Rightarrow> addr option" where
  "splay_leftmost h elm = do {
     l \<leftarrow> SPLAY_LEFT h elm;
     if l \<noteq> NULL then splay_leftmost h l else Some elm
   }"

definition SPLAY_NEXT :: "'a splay_cmp \<Rightarrow> 'a splay_head \<Rightarrow> addr \<Rightarrow> ('a splay_head \<times> addr) option" where
  "SPLAY_NEXT cmp s elm = do {
     e \<leftarrow> spe_rd (snd s) elm;
     s \<leftarrow> SPLAY cmp s e;
     r \<leftarrow> SPLAY_RIGHT (snd s) elm;
     if r \<noteq> NULL then do { a \<leftarrow> splay_leftmost (snd s) r; Some (s, a) }
     else Some (s, NULL)
   }"

definition SPLAY_MIN_MAX :: "'a splay_head \<Rightarrow> int \<Rightarrow> ('a splay_head \<times> addr) option" where
  "SPLAY_MIN_MAX s val = do { s \<leftarrow> SPLAY_MINMAX s val; Some (s, fst s) }"

definition SPLAY_MIN :: "'a splay_head \<Rightarrow> ('a splay_head \<times> addr) option" where
  "SPLAY_MIN s = (if SPLAY_EMPTY s then Some (s, NULL) else SPLAY_MIN_MAX s (- 1))"

definition SPLAY_MAX :: "'a splay_head \<Rightarrow> ('a splay_head \<times> addr) option" where
  "SPLAY_MAX s = (if SPLAY_EMPTY s then Some (s, NULL) else SPLAY_MIN_MAX s 1)"

definition SPLAY_INSERT :: "'a splay_cmp \<Rightarrow> 'a splay_head \<Rightarrow> addr \<Rightarrow> ('a splay_head \<times> addr) option" where
  "SPLAY_INSERT cmp s elm =
     (if SPLAY_EMPTY s then do {
        h \<leftarrow> SPLAY_SET_RIGHT (snd s) elm NULL;
        h \<leftarrow> SPLAY_SET_LEFT h elm NULL;
        Some ((elm, h), NULL)
      } else do {
        e \<leftarrow> spe_rd (snd s) elm;
        (root, h) \<leftarrow> SPLAY cmp s e;
        n \<leftarrow> spe_rd h root;
        if cmp e n < 0 then do {
          l \<leftarrow> SPLAY_LEFT h root;
          h \<leftarrow> SPLAY_SET_LEFT h elm l;
          h \<leftarrow> SPLAY_SET_RIGHT h elm root;
          h \<leftarrow> SPLAY_SET_LEFT h root NULL;
          Some ((elm, h), NULL)
        } else if cmp e n > 0 then do {
          r \<leftarrow> SPLAY_RIGHT h root;
          h \<leftarrow> SPLAY_SET_RIGHT h elm r;
          h \<leftarrow> SPLAY_SET_LEFT h elm root;
          h \<leftarrow> SPLAY_SET_RIGHT h root NULL;
          Some ((elm, h), NULL)
        } else Some ((root, h), root)
      })"

definition SPLAY_REMOVE :: "'a splay_cmp \<Rightarrow> 'a splay_head \<Rightarrow> addr \<Rightarrow> ('a splay_head \<times> addr) option" where
  "SPLAY_REMOVE cmp s elm =
     (if SPLAY_EMPTY s then Some (s, NULL)
      else do {
        e \<leftarrow> spe_rd (snd s) elm;
        (root, h) \<leftarrow> SPLAY cmp s e;
        n \<leftarrow> spe_rd h root;
        if cmp e n = 0 then do {
          l \<leftarrow> SPLAY_LEFT h root;
          if l = NULL then do { r \<leftarrow> SPLAY_RIGHT h root; Some ((r, h), elm) }
          else do {
            tmp \<leftarrow> SPLAY_RIGHT h root;
            (root, h) \<leftarrow> SPLAY cmp (l, h) e;
            h \<leftarrow> SPLAY_SET_RIGHT h root tmp;
            Some ((root, h), elm)
          }
        } else Some ((root, h), NULL)
      })"

text \<open>\<open>SPLAY_FOREACH\<close>, for a body that does not touch the tree: the nodes in the order they are visited.\<close>

partial_function (option) splay_foreach_from ::
  "'a splay_cmp \<Rightarrow> 'a splay_head \<Rightarrow> addr \<Rightarrow> ('a splay_head \<times> addr list) option" where
  "splay_foreach_from cmp s x = (if x = NULL then Some (s, []) else do {
     (s, y) \<leftarrow> SPLAY_NEXT cmp s x;
     (s, as) \<leftarrow> splay_foreach_from cmp s y;
     Some (s, x # as)
   })"

definition SPLAY_FOREACH :: "'a splay_cmp \<Rightarrow> 'a splay_head \<Rightarrow> ('a splay_head \<times> addr list) option" where
  "SPLAY_FOREACH cmp s = do { (s, x) \<leftarrow> SPLAY_MIN s; splay_foreach_from cmp s x }"

end
