(* ===== verification/Splay_Tree.thy ===== *)
theory Splay_Tree
  imports Splay_Heap "HOL-Library.Tree" "HOL-Library.Product_Lexorder"
begin

text \<open>
  The splay loops as programs on trees. While a loop runs, the nodes are in three parts: a chain of subtrees whose keys
  are below the one searched for, the tree that is left, and a chain of subtrees whose keys are above. Each macro moves
  nodes between the parts without changing their order.
\<close>

section \<open>Trees and chains in the heap\<close>

fun srep :: "'a splay_heap \<Rightarrow> addr \<Rightarrow> addr tree \<Rightarrow> bool" where
  "srep h a Leaf = (a = NULL)"
| "srep h a (Node l x r) = (a = x \<and> x \<noteq> NULL \<and> (\<exists>n. h x = Some n \<and> srep h (spe_left n) l \<and> srep h (spe_right n) r))"

text \<open>
  The chain of the left parts: nodes with their left subtrees, each the right child of the one before it; the right link of
  the last one is not set yet. The chain of the right parts is its mirror image.
\<close>

type_synonym chain = "(addr tree \<times> addr) list"

fun lchain :: "'a splay_heap \<Rightarrow> addr \<Rightarrow> chain \<Rightarrow> bool" where
  "lchain h p [] = True"
| "lchain h p ((l, x) # c) = (p = x \<and> x \<noteq> NULL \<and> (\<exists>n. h x = Some n \<and> srep h (spe_left n) l \<and> lchain h (spe_right n) c))"

fun rchain :: "'a splay_heap \<Rightarrow> addr \<Rightarrow> chain \<Rightarrow> bool" where
  "rchain h p [] = True"
| "rchain h p ((r, x) # c) = (p = x \<and> x \<noteq> NULL \<and> (\<exists>n. h x = Some n \<and> srep h (spe_right n) r \<and> rchain h (spe_left n) c))"

fun lnodes :: "chain \<Rightarrow> addr list" where
  "lnodes [] = []"
| "lnodes ((l, x) # c) = inorder l @ x # lnodes c"

fun rnodes :: "chain \<Rightarrow> addr list" where
  "rnodes [] = []"
| "rnodes ((r, x) # c) = rnodes c @ x # inorder r"

text \<open>The trees the chains become when their ends are closed.\<close>

fun lclose :: "chain \<Rightarrow> addr tree \<Rightarrow> addr tree" where
  "lclose [] t = t"
| "lclose ((l, x) # c) t = Node l x (lclose c t)"

fun rclose :: "chain \<Rightarrow> addr tree \<Rightarrow> addr tree" where
  "rclose [] t = t"
| "rclose ((r, x) # c) t = Node (rclose c t) x r"

definition end_of :: "chain \<Rightarrow> place" where
  "end_of c = (if c = [] then Local else At (snd (last c)))"

lemma lnodes_snoc [simp]: "lnodes (c @ [(l, x)]) = lnodes c @ inorder l @ [x]"
  by (induction c) auto

lemma rnodes_snoc [simp]: "rnodes (c @ [(r, x)]) = x # inorder r @ rnodes c"
  by (induction c) auto

lemma end_of_snoc [simp]: "end_of (c @ [(t, x)]) = At x"
  by (simp add: end_of_def)

lemma inorder_lclose [simp]: "inorder (lclose c t) = lnodes c @ inorder t"
  by (induction c t rule: lclose.induct) auto

lemma inorder_rclose [simp]: "inorder (rclose c t) = inorder t @ rnodes c"
  by (induction c t rule: rclose.induct) auto

lemma set_lclose [simp]: "set_tree (lclose c t) = set (lnodes c) \<union> set_tree t"
  by (induction c t rule: lclose.induct) auto

lemma set_rclose [simp]: "set_tree (rclose c t) = set_tree t \<union> set (rnodes c)"
  by (induction c t rule: rclose.induct) auto

lemma srep_upd: "y \<notin> set_tree t \<Longrightarrow> srep (h(y \<mapsto> n)) a t = srep h a t"
  by (induction t arbitrary: a) auto

lemmas upd_simps = srep_upd fun_upd_same fun_upd_other

lemma lchain_upd: "y \<notin> set (lnodes c) \<Longrightarrow> lchain (h(y \<mapsto> n)) p c = lchain h p c"
  by (induction c arbitrary: p) (auto simp: srep_upd)

lemma rchain_upd: "y \<notin> set (rnodes c) \<Longrightarrow> rchain (h(y \<mapsto> n)) p c = rchain h p c"
  by (induction c arbitrary: p) (auto simp: srep_upd)

lemma srep_null: "srep h 0 t \<longleftrightarrow> t = Leaf"
  by (cases t) auto

lemma srep_alive: "srep h a t \<Longrightarrow> x \<in> set (inorder t) \<Longrightarrow> x \<noteq> NULL \<and> (\<exists>n. h x = Some n)"
  by (induction t arbitrary: a) auto

lemma lchain_end:
  "lchain h p c \<Longrightarrow> c \<noteq> [] \<Longrightarrow>
     snd (last c) \<in> set (lnodes c) \<and> snd (last c) \<noteq> NULL \<and> (\<exists>n. h (snd (last c)) = Some n)"
proof (induction c arbitrary: p)
  case (Cons e c)
  then show ?case by (cases e; cases "c = []") auto
qed simp

lemma rchain_end:
  "rchain h p c \<Longrightarrow> c \<noteq> [] \<Longrightarrow>
     snd (last c) \<in> set (rnodes c) \<and> snd (last c) \<noteq> NULL \<and> (\<exists>n. h (snd (last c)) = Some n)"
proof (induction c arbitrary: p)
  case (Cons e c)
  then show ?case by (cases e; cases "c = []") auto
qed simp

text \<open>Writing the open link at the end of a chain: it is extended by a node, or closed by a tree.\<close>

lemma lchain_extend:
  "lchain h p c \<Longrightarrow> c \<noteq> [] \<Longrightarrow> h (snd (last c)) = Some n \<Longrightarrow> distinct (lnodes c @ inorder l @ [a]) \<Longrightarrow>
     a \<noteq> NULL \<Longrightarrow> h a = Some m \<Longrightarrow> srep h (spe_left m) l \<Longrightarrow>
     lchain (h(snd (last c) \<mapsto> n\<lparr>spe_right := a\<rparr>)) p (c @ [(l, a)])"
proof (induction c arbitrary: p)
  case (Cons e c)
  obtain t x where e: "e = (t, x)" by (cases e)
  show ?case
  proof (cases "c = []")
    case True
    then show ?thesis using Cons.prems e by (auto simp: upd_simps simp del: fun_upd_apply)
  next
    case False
    then have "snd (last c) \<in> set (lnodes c)" using Cons.prems lchain_end [of h _ c] e by auto
    then have "snd (last c) \<noteq> x" "x \<noteq> snd (last c)" "snd (last c) \<notin> set_tree t" using Cons.prems e by auto
    then show ?thesis using Cons False e by (auto simp: upd_simps simp del: fun_upd_apply)
  qed
qed simp

lemma rchain_extend:
  "rchain h p c \<Longrightarrow> c \<noteq> [] \<Longrightarrow> h (snd (last c)) = Some n \<Longrightarrow> distinct (a # inorder r @ rnodes c) \<Longrightarrow>
     a \<noteq> NULL \<Longrightarrow> h a = Some m \<Longrightarrow> srep h (spe_right m) r \<Longrightarrow>
     rchain (h(snd (last c) \<mapsto> n\<lparr>spe_left := a\<rparr>)) p (c @ [(r, a)])"
proof (induction c arbitrary: p)
  case (Cons e c)
  obtain t x where e: "e = (t, x)" by (cases e)
  show ?case
  proof (cases "c = []")
    case True
    then show ?thesis using Cons.prems e by (auto simp: upd_simps simp del: fun_upd_apply)
  next
    case False
    then have "snd (last c) \<in> set (rnodes c)" using Cons.prems rchain_end [of h _ c] e by auto
    then have "snd (last c) \<noteq> x" "x \<noteq> snd (last c)" "snd (last c) \<notin> set_tree t" using Cons.prems e by auto
    then show ?thesis using Cons False e by (auto simp: upd_simps simp del: fun_upd_apply)
  qed
qed simp

lemma lchain_close:
  "lchain h p c \<Longrightarrow> c \<noteq> [] \<Longrightarrow> h (snd (last c)) = Some n \<Longrightarrow> distinct (lnodes c @ inorder t) \<Longrightarrow> srep h a t \<Longrightarrow>
     srep (h(snd (last c) \<mapsto> n\<lparr>spe_right := a\<rparr>)) p (lclose c t)"
proof (induction c arbitrary: p)
  case (Cons e c)
  obtain u x where e: "e = (u, x)" by (cases e)
  show ?case
  proof (cases "c = []")
    case True
    then show ?thesis using Cons.prems e by (auto simp: upd_simps simp del: fun_upd_apply)
  next
    case False
    then have "snd (last c) \<in> set (lnodes c)" using Cons.prems lchain_end [of h _ c] e by auto
    then have "snd (last c) \<noteq> x" "x \<noteq> snd (last c)" "snd (last c) \<notin> set_tree u" using Cons.prems e by auto
    then show ?thesis using Cons False e by (auto simp: upd_simps simp del: fun_upd_apply)
  qed
qed simp

lemma rchain_close:
  "rchain h p c \<Longrightarrow> c \<noteq> [] \<Longrightarrow> h (snd (last c)) = Some n \<Longrightarrow> distinct (inorder t @ rnodes c) \<Longrightarrow> srep h a t \<Longrightarrow>
     srep (h(snd (last c) \<mapsto> n\<lparr>spe_left := a\<rparr>)) p (rclose c t)"
proof (induction c arbitrary: p)
  case (Cons e c)
  obtain u x where e: "e = (u, x)" by (cases e)
  show ?case
  proof (cases "c = []")
    case True
    then show ?thesis using Cons.prems e by (auto simp: upd_simps simp del: fun_upd_apply)
  next
    case False
    then have "snd (last c) \<in> set (rnodes c)" using Cons.prems rchain_end [of h _ c] e by auto
    then have "snd (last c) \<noteq> x" "x \<noteq> snd (last c)" "snd (last c) \<notin> set_tree u" using Cons.prems e by auto
    then show ?thesis using Cons False e by (auto simp: upd_simps simp del: fun_upd_apply)
  qed
qed simp

section \<open>The macros\<close>

definition content :: "chain \<Rightarrow> addr tree \<Rightarrow> chain \<Rightarrow> addr list" where
  "content lc t rc = lnodes lc @ inorder t @ rnodes rc"

definition vars_ok :: "'a splay_vars \<Rightarrow> chain \<Rightarrow> addr tree \<Rightarrow> chain \<Rightarrow> bool" where
  "vars_ok f lc t rc \<longleftrightarrow> srep (sph_heap f) (sph_root f) t \<and> lchain (sph_heap f) (node_right f) lc
     \<and> rchain (sph_heap f) (node_left f) rc \<and> v_left f = end_of lc \<and> v_right f = end_of rc \<and> distinct (content lc t rc)"

text \<open>Only links of the nodes \<open>as\<close> have changed.\<close>

definition links_only :: "addr list \<Rightarrow> 'a splay_heap \<Rightarrow> 'a splay_heap \<Rightarrow> bool" where
  "links_only as h h' \<longleftrightarrow> (\<forall>a. map_option splay_entry.more (h' a) = map_option splay_entry.more (h a))
     \<and> (\<forall>a. a \<notin> set as \<longrightarrow> h' a = h a)"

lemma links_only_refl [simp]: "links_only as h h"
  by (simp add: links_only_def)

lemma links_only_trans: "links_only as h h' \<Longrightarrow> links_only as h' h'' \<Longrightarrow> links_only as h h''"
  by (simp add: links_only_def)

lemma links_only_upd: "links_only as h h' \<Longrightarrow> h' a = Some n \<Longrightarrow> a \<in> set as \<Longrightarrow> splay_entry.more m = splay_entry.more n
    \<Longrightarrow> links_only as h (h'(a \<mapsto> m))"
  unfolding links_only_def by (auto simp: option.map_sel) (metis option.simps(9))

lemma rotate_right_ok:
  assumes "vars_ok f lc (Node (Node a y b) x c) rc"
  shows "\<exists>f'. SPLAY_ROTATE_RIGHT f y = Some f' \<and> vars_ok f' lc (Node a y (Node b x c)) rc
    \<and> links_only (content lc (Node (Node a y b) x c) rc) (sph_heap f) (sph_heap f')"
  using assms unfolding vars_ok_def content_def
  by (auto simp: SPLAY_ROTATE_RIGHT_def SPLAY_RIGHT_def SPLAY_SET_LEFT_def SPLAY_SET_RIGHT_def spe_rd_def spe_wr_def
      upd_simps lchain_upd rchain_upd intro!: links_only_upd simp del: fun_upd_apply)

lemma rotate_left_ok:
  assumes "vars_ok f lc (Node a x (Node b y c)) rc"
  shows "\<exists>f'. SPLAY_ROTATE_LEFT f y = Some f' \<and> vars_ok f' lc (Node (Node a x b) y c) rc
    \<and> links_only (content lc (Node a x (Node b y c)) rc) (sph_heap f) (sph_heap f')"
  using assms unfolding vars_ok_def content_def
  by (auto simp: SPLAY_ROTATE_LEFT_def SPLAY_LEFT_def SPLAY_SET_LEFT_def SPLAY_SET_RIGHT_def spe_rd_def spe_wr_def
      upd_simps lchain_upd rchain_upd intro!: links_only_upd simp del: fun_upd_apply)

lemma end_of_cases: "end_of c = Local \<and> c = [] \<or> end_of c = At (snd (last c)) \<and> c \<noteq> []"
  by (simp add: end_of_def)

lemma put_left_end:
  assumes "rchain (sph_heap f) (node_left f) rc" and "p = end_of rc"
  shows "put_left p v f = Some (if rc = [] then f\<lparr>node_left := v\<rparr>
    else f\<lparr>sph_heap := (sph_heap f)(snd (last rc) \<mapsto> (the (sph_heap f (snd (last rc))))\<lparr>spe_left := v\<rparr>)\<rparr>)"
  using assms rchain_end [of "sph_heap f" "node_left f" rc]
  by (auto simp: put_left_def end_of_def SPLAY_SET_LEFT_def spe_wr_def spe_rd_def)

lemma put_right_end:
  assumes "lchain (sph_heap f) (node_right f) lc" and "p = end_of lc"
  shows "put_right p v f = Some (if lc = [] then f\<lparr>node_right := v\<rparr>
    else f\<lparr>sph_heap := (sph_heap f)(snd (last lc) \<mapsto> (the (sph_heap f (snd (last lc))))\<lparr>spe_right := v\<rparr>)\<rparr>)"
  using assms lchain_end [of "sph_heap f" "node_right f" lc]
  by (auto simp: put_right_def end_of_def SPLAY_SET_RIGHT_def spe_wr_def spe_rd_def)

lemma link_left_ok:
  assumes ok: "vars_ok f lc (Node l x r) rc"
  shows "\<exists>f'. SPLAY_LINKLEFT f = Some f' \<and> vars_ok f' lc l (rc @ [(r, x)])
    \<and> links_only (content lc (Node l x r) rc) (sph_heap f) (sph_heap f')"
proof -
  let ?h = "sph_heap f"
  obtain n where n: "sph_root f = x" "x \<noteq> NULL" "?h x = Some n" "srep ?h (spe_left n) l" "srep ?h (spe_right n) r"
    "lchain ?h (node_right f) lc" "rchain ?h (node_left f) rc" "v_left f = end_of lc" "v_right f = end_of rc"
    and d: "distinct (content lc (Node l x r) rc)" using ok by (auto simp: vars_ok_def)
  note put = put_left_end [OF n(7,9), of x]
  show ?thesis
  proof (cases "rc = []")
    case True
    then show ?thesis using n d put
      by (auto simp: SPLAY_LINKLEFT_def vars_ok_def content_def SPLAY_LEFT_def spe_rd_def end_of_def)
  next
    case False
    then obtain m where m: "?h (snd (last rc)) = Some m" "snd (last rc) \<in> set (rnodes rc)"
      using rchain_end [OF n(7)] by blast
    let ?h' = "?h(snd (last rc) \<mapsto> m\<lparr>spe_left := x\<rparr>)"
    have away: "snd (last rc) \<notin> set_tree l" "snd (last rc) \<notin> set_tree r" "snd (last rc) \<noteq> x" "x \<noteq> snd (last rc)"
      "snd (last rc) \<notin> set (lnodes lc)" using m(2) d by (auto simp: content_def)
    have "rchain ?h' (node_left f) (rc @ [(r, x)])"
      by (rule rchain_extend [OF n(7) False m(1) _ n(2,3,5)]) (use d in \<open>auto simp: content_def\<close>)
    moreover have "links_only (content lc (Node l x r) rc) ?h ?h'"
      using m by (intro links_only_upd) (auto simp: content_def)
    moreover have "distinct (content lc l (rc @ [(r, x)]))" using d by (simp add: content_def)
    ultimately show ?thesis using n put False m away
      by (simp add: SPLAY_LINKLEFT_def vars_ok_def SPLAY_LEFT_def spe_rd_def upd_simps lchain_upd del: fun_upd_apply)
  qed
qed

lemma link_right_ok:
  assumes ok: "vars_ok f lc (Node l x r) rc"
  shows "\<exists>f'. SPLAY_LINKRIGHT f = Some f' \<and> vars_ok f' (lc @ [(l, x)]) r rc
    \<and> links_only (content lc (Node l x r) rc) (sph_heap f) (sph_heap f')"
proof -
  let ?h = "sph_heap f"
  obtain n where n: "sph_root f = x" "x \<noteq> NULL" "?h x = Some n" "srep ?h (spe_left n) l" "srep ?h (spe_right n) r"
    "lchain ?h (node_right f) lc" "rchain ?h (node_left f) rc" "v_left f = end_of lc" "v_right f = end_of rc"
    and d: "distinct (content lc (Node l x r) rc)" using ok by (auto simp: vars_ok_def)
  note put = put_right_end [OF n(6,8), of x]
  show ?thesis
  proof (cases "lc = []")
    case True
    then show ?thesis using n d put
      by (auto simp: SPLAY_LINKRIGHT_def vars_ok_def content_def SPLAY_RIGHT_def spe_rd_def end_of_def)
  next
    case False
    then obtain m where m: "?h (snd (last lc)) = Some m" "snd (last lc) \<in> set (lnodes lc)"
      using lchain_end [OF n(6)] by blast
    let ?h' = "?h(snd (last lc) \<mapsto> m\<lparr>spe_right := x\<rparr>)"
    have away: "snd (last lc) \<notin> set_tree l" "snd (last lc) \<notin> set_tree r" "snd (last lc) \<noteq> x" "x \<noteq> snd (last lc)"
      "snd (last lc) \<notin> set (rnodes rc)" using m(2) d by (auto simp: content_def)
    have "lchain ?h' (node_right f) (lc @ [(l, x)])"
      by (rule lchain_extend [OF n(6) False m(1) _ n(2,3,4)]) (use d in \<open>auto simp: content_def\<close>)
    moreover have "links_only (content lc (Node l x r) rc) ?h ?h'"
      using m by (intro links_only_upd) (auto simp: content_def)
    moreover have "distinct (content (lc @ [(l, x)]) r rc)" using d by (simp add: content_def)
    ultimately show ?thesis using n put False m away
      by (simp add: SPLAY_LINKRIGHT_def vars_ok_def SPLAY_RIGHT_def spe_rd_def upd_simps rchain_upd del: fun_upd_apply)
  qed
qed

lemma close_left:
  assumes "lchain (sph_heap f) (node_right f) lc" and "v_left f = end_of lc" and "distinct (lnodes lc @ inorder l)"
    and "srep (sph_heap f) a l"
  shows "\<exists>h' p. put_right (v_left f) a f = Some (f\<lparr>sph_heap := h', node_right := p\<rparr>) \<and> srep h' p (lclose lc l)
    \<and> links_only (lnodes lc) (sph_heap f) h'"
proof (cases "lc = []")
  case True
  then show ?thesis using put_right_end [OF assms(1,2), of a] assms(4)
    by (intro exI [of _ "sph_heap f"] exI [of _ a]) simp
next
  case False
  then obtain m where m: "sph_heap f (snd (last lc)) = Some m" "snd (last lc) \<in> set (lnodes lc)"
    using lchain_end [OF assms(1)] by blast
  then show ?thesis using put_right_end [OF assms(1,2), of a] lchain_close [OF assms(1) False m(1) assms(3,4)] False
    by (intro exI [of _ "(sph_heap f)(snd (last lc) \<mapsto> m\<lparr>spe_right := a\<rparr>)"] exI [of _ "node_right f"])
      (auto intro!: links_only_upd)
qed

lemma close_right:
  assumes "rchain (sph_heap f) (node_left f) rc" and "v_right f = end_of rc" and "distinct (inorder r @ rnodes rc)"
    and "srep (sph_heap f) a r"
  shows "\<exists>h' p. put_left (v_right f) a f = Some (f\<lparr>sph_heap := h', node_left := p\<rparr>) \<and> srep h' p (rclose rc r)
    \<and> links_only (rnodes rc) (sph_heap f) h'"
proof (cases "rc = []")
  case True
  then show ?thesis using put_left_end [OF assms(1,2), of a] assms(4)
    by (intro exI [of _ "sph_heap f"] exI [of _ a]) simp
next
  case False
  then obtain m where m: "sph_heap f (snd (last rc)) = Some m" "snd (last rc) \<in> set (rnodes rc)"
    using rchain_end [OF assms(1)] by blast
  then show ?thesis using put_left_end [OF assms(1,2), of a] rchain_close [OF assms(1) False m(1) assms(3,4)] False
    by (intro exI [of _ "(sph_heap f)(snd (last rc) \<mapsto> m\<lparr>spe_left := a\<rparr>)"] exI [of _ "node_left f"])
      (auto intro!: links_only_upd)
qed

text \<open>What is not reached by a change of links is what it was.\<close>

lemma srep_frame: "(\<And>x. x \<in> set_tree t \<Longrightarrow> h' x = h x) \<Longrightarrow> srep h' a t = srep h a t"
  by (induction t arbitrary: a) auto

lemma rchain_frame: "(\<And>x. x \<in> set (rnodes c) \<Longrightarrow> h' x = h x) \<Longrightarrow> rchain h' p c = rchain h p c"
proof (induction c arbitrary: p)
  case (Cons e c)
  then show ?case by (cases e) (auto cong: srep_frame)
qed simp

lemma links_only_same: "links_only as h h' \<Longrightarrow> a \<notin> set as \<Longrightarrow> h' a = h a"
  by (simp add: links_only_def)

lemma links_only_mono: "links_only as h h' \<Longrightarrow> set as \<subseteq> set bs \<Longrightarrow> links_only bs h h'"
  by (auto simp: links_only_def)

lemma assemble_ok:
  assumes ok: "vars_ok f lc (Node l x r) rc"
  shows "\<exists>f'. SPLAY_ASSEMBLE f = Some f' \<and> sph_root f' = x
    \<and> srep (sph_heap f') x (Node (lclose lc l) x (rclose rc r))
    \<and> links_only (content lc (Node l x r) rc) (sph_heap f) (sph_heap f')"
proof -
  let ?h = "sph_heap f"
  obtain n where n: "sph_root f = x" "x \<noteq> NULL" "?h x = Some n" "srep ?h (spe_left n) l" "srep ?h (spe_right n) r"
    "lchain ?h (node_right f) lc" "rchain ?h (node_left f) rc" "v_left f = end_of lc" "v_right f = end_of rc"
    and d: "distinct (content lc (Node l x r) rc)" using ok by (auto simp: vars_ok_def)
  have d': "distinct (lnodes lc @ inorder l)" "distinct (inorder r @ rnodes rc)" using d by (auto simp: content_def)
  obtain h1 p1 where 1: "put_right (v_left f) (spe_left n) f = Some (f\<lparr>sph_heap := h1, node_right := p1\<rparr>)"
    "srep h1 p1 (lclose lc l)" "links_only (lnodes lc) ?h h1" using close_left [OF n(6,8) d'(1) n(4)] by blast
  have same1: "h1 y = ?h y" if "y = x \<or> y \<in> set_tree r \<or> y \<in> set (rnodes rc)" for y
    using links_only_same [OF 1(3), of y] that d by (auto simp: content_def)
  let ?f1 = "f\<lparr>sph_heap := h1, node_right := p1\<rparr>"
  have n1: "rchain h1 (node_left f) rc" "srep h1 (spe_right n) r" "h1 x = Some n"
    using n(3,5,7) same1 rchain_frame [of rc h1 ?h] srep_frame [of r h1 ?h] by auto
  obtain h2 p2 where 2: "put_left (v_right f) (spe_right n) ?f1 = Some (?f1\<lparr>sph_heap := h2, node_left := p2\<rparr>)"
    "srep h2 p2 (rclose rc r)" "links_only (rnodes rc) h1 h2"
    using close_right [of ?f1 rc r "spe_right n"] n(9) n1(1,2) d'(2) by auto
  have "h2 y = h1 y" if "y = x \<or> y \<in> set_tree (lclose lc l)" for y
  proof -
    have "y \<notin> set (rnodes rc)" using that d by (auto simp: content_def)
    then show ?thesis using links_only_same [OF 2(3)] by blast
  qed
  then have n2: "srep h2 p1 (lclose lc l)" "h2 x = Some n" using 1(2) n1(3) srep_frame [of "lclose lc l" h2 h1] by auto
  let ?h3 = "h2(x \<mapsto> n\<lparr>spe_left := p1, spe_right := p2\<rparr>)"
  have out: "x \<notin> set_tree (lclose lc l)" "x \<notin> set_tree (rclose rc r)"
    using d by (auto simp: content_def)
  have "links_only (content lc (Node l x r) rc) ?h h2"
    by (rule links_only_trans [OF links_only_mono [OF 1(3)] links_only_mono [OF 2(3)]]) (auto simp: content_def)
  then have "links_only (content lc (Node l x r) rc) ?h ?h3"
    using n2(2) by (rule links_only_upd) (simp_all add: content_def)
  moreover have "SPLAY_ASSEMBLE f = Some (f\<lparr>sph_heap := ?h3, node_right := p1, node_left := p2\<rparr>)"
    using n(1-3) n1(3) n2(2) 1(1) 2(1)
    by (simp add: SPLAY_ASSEMBLE_def SPLAY_LEFT_def SPLAY_RIGHT_def SPLAY_SET_LEFT_def SPLAY_SET_RIGHT_def spe_rd_def spe_wr_def)
  ultimately show ?thesis using n(1,2) n2(1) 2(2) out by (simp add: upd_simps)
qed

section \<open>The loop\<close>

text \<open>
  A comparison by a key that does not look at the links, as the macros need it: \<open>probes\<close> says it of one element \<open>e\<close> that
  is searched for, which stands for the key \<open>k\<close>.
\<close>

definition probes :: "'a splay_cmp \<Rightarrow> 'a splay_entry_scheme \<Rightarrow> ('a \<Rightarrow> 'k::linorder) \<Rightarrow> 'k \<Rightarrow> bool" where
  "probes cmp e key k \<longleftrightarrow> (\<forall>m. (cmp e m < 0 \<longleftrightarrow> k < key (splay_entry.more m)) \<and> (cmp e m = 0 \<longleftrightarrow> k = key (splay_entry.more m)))"

definition keyed :: "'a splay_cmp \<Rightarrow> ('a \<Rightarrow> 'k::linorder) \<Rightarrow> bool" where
  "keyed cmp key \<longleftrightarrow> (\<forall>e. probes cmp e key (key (splay_entry.more e)))"

lemma probes_simps:
  assumes "probes cmp e key k"
  shows "cmp e m < 0 \<longleftrightarrow> k < key (splay_entry.more m)"
    and "0 < cmp e m \<longleftrightarrow> key (splay_entry.more m) < k"
    and "cmp e m = 0 \<longleftrightarrow> k = key (splay_entry.more m)"
proof -
  show lt: "cmp e m < 0 \<longleftrightarrow> k < key (splay_entry.more m)"
    and eq: "cmp e m = 0 \<longleftrightarrow> k = key (splay_entry.more m)" using assms by (simp_all add: probes_def)
  have "0 < cmp e m \<longleftrightarrow> \<not> cmp e m < 0 \<and> cmp e m \<noteq> 0" by linarith
  then show "0 < cmp e m \<longleftrightarrow> key (splay_entry.more m) < k" unfolding lt eq by auto
qed

lemma keyed_probes: "keyed cmp key \<Longrightarrow> probes cmp e key (key (splay_entry.more e))"
  by (simp add: keyed_def)

definition skey :: "('a \<Rightarrow> 'k) \<Rightarrow> 'a splay_heap \<Rightarrow> addr \<Rightarrow> 'k" where
  "skey key h a = key (splay_entry.more (the (h a)))"

lemma skey_links: "links_only as h h' \<Longrightarrow> skey key h' = skey key h"
proof
  fix a assume "links_only as h h'"
  then have "map_option splay_entry.more (h' a) = map_option splay_entry.more (h a)" by (simp add: links_only_def)
  then show "skey key h' a = skey key h a" by (cases "h a"; cases "h' a") (simp_all add: skey_def)
qed

definition splay_pre :: "('a \<Rightarrow> 'k::linorder) \<Rightarrow> 'k \<Rightarrow> 'a splay_vars \<Rightarrow> chain \<Rightarrow> addr tree \<Rightarrow> chain \<Rightarrow> addr list \<Rightarrow> bool" where
  "splay_pre key k f lc t rc as \<longleftrightarrow> vars_ok f lc t rc \<and> content lc t rc = as
     \<and> sorted_wrt (<) (map (skey key (sph_heap f)) as)
     \<and> (\<forall>a \<in> set (lnodes lc). skey key (sph_heap f) a < k) \<and> (\<forall>a \<in> set (rnodes rc). k < skey key (sph_heap f) a)"

definition splay_post :: "('a \<Rightarrow> 'k::linorder) \<Rightarrow> 'k \<Rightarrow> 'a splay_heap \<Rightarrow> addr list \<Rightarrow> 'a splay_vars option \<Rightarrow> bool" where
  "splay_post key k h as res \<longleftrightarrow> (\<exists>f lc l x r rc. res = Some f \<and> vars_ok f lc (Node l x r) rc
     \<and> content lc (Node l x r) rc = as \<and> links_only as h (sph_heap f)
     \<and> (\<forall>a \<in> set (lnodes lc) \<union> set_tree l. skey key h a < k) \<and> (\<forall>a \<in> set_tree r \<union> set (rnodes rc). k < skey key h a))"

lemma splay_post_step:
  assumes "splay_post key k h' as res" and l: "links_only as h h'"
  shows "splay_post key k h as res"
  using assms(1) skey_links [OF l, of key] links_only_trans [OF l] unfolding splay_post_def by (simp only:) blast

lemma splay_pre_step:
  assumes "splay_pre key k f lc t rc as" and "vars_ok f' lc' t' rc'" and "content lc' t' rc' = as"
    and "links_only as (sph_heap f) (sph_heap f')"
    and "\<forall>a \<in> set (lnodes lc'). skey key (sph_heap f) a < k" and "\<forall>a \<in> set (rnodes rc'). k < skey key (sph_heap f) a"
  shows "splay_pre key k f' lc' t' rc' as"
  using assms skey_links [OF assms(4), of key] by (simp add: splay_pre_def)

text \<open>The root of what is left, and its children.\<close>

lemma root_reads:
  assumes "vars_ok f lc (Node l x r) rc"
  shows "\<exists>n. spe_rd (sph_heap f) (sph_root f) = Some n \<and> sph_root f = x \<and> sph_heap f x = Some n
    \<and> SPLAY_LEFT (sph_heap f) (sph_root f) = Some (spe_left n) \<and> SPLAY_RIGHT (sph_heap f) (sph_root f) = Some (spe_right n)
    \<and> srep (sph_heap f) (spe_left n) l \<and> srep (sph_heap f) (spe_right n) r"
  using assms by (auto simp: vars_ok_def SPLAY_LEFT_def SPLAY_RIGHT_def spe_rd_def)

text \<open>One round of a loop: it ends as it should, or goes on with less.\<close>

definition round_ok :: "('a \<Rightarrow> 'k::linorder) \<Rightarrow> 'k \<Rightarrow> 'a splay_vars \<Rightarrow> addr list \<Rightarrow> nat
    \<Rightarrow> 'a splay_vars option \<Rightarrow> ('a splay_vars \<Rightarrow> 'a splay_vars option) \<Rightarrow> bool" where
  "round_ok key k f as n res again \<longleftrightarrow> splay_post key k (sph_heap f) as res
     \<or> (\<exists>f' lc t rc. res = again f' \<and> splay_pre key k f' lc t rc as \<and> t \<noteq> Leaf \<and> size t < n
         \<and> links_only as (sph_heap f) (sph_heap f'))"

lemma round_stop:
  assumes "vars_ok f' lc (Node l x r) rc" and "content lc (Node l x r) rc = as" and "links_only as (sph_heap f) (sph_heap f')"
    and "\<forall>a \<in> set (lnodes lc) \<union> set_tree l. skey key (sph_heap f) a < k"
    and "\<forall>a \<in> set_tree r \<union> set (rnodes rc). k < skey key (sph_heap f) a"
  shows "round_ok key k f as n (Some f') again"
  using assms unfolding round_ok_def splay_post_def by blast

lemma round_again:
  assumes "splay_pre key k f lc t rc as" and "vars_ok f' lc' t' rc'" and "content lc' t' rc' = as"
    and "links_only as (sph_heap f) (sph_heap f')" and "t' \<noteq> Leaf" and "size t' < n"
    and "\<forall>a \<in> set (lnodes lc'). skey key (sph_heap f) a < k" and "\<forall>a \<in> set (rnodes rc'). k < skey key (sph_heap f) a"
  shows "round_ok key k f as n (again f') again"
  using splay_pre_step [OF assms(1-4,7,8)] assms(4,5,6) unfolding round_ok_def by blast

lemma rounds:
  assumes "\<And>f lc t rc. splay_pre key k f lc t rc as \<Longrightarrow> t \<noteq> Leaf \<Longrightarrow> round_ok key k f as (size t) (loop f) loop"
  shows "splay_pre key k f lc t rc as \<Longrightarrow> t \<noteq> Leaf \<Longrightarrow> splay_post key k (sph_heap f) as (loop f)"
proof (induction "size t" arbitrary: f lc t rc rule: less_induct)
  case less
  from assms [OF less.prems] consider (stop) "splay_post key k (sph_heap f) as (loop f)"
    | (again) f' lc' t' rc' where "loop f = loop f'" "splay_pre key k f' lc' t' rc' as" "t' \<noteq> Leaf" "size t' < size t"
      "links_only as (sph_heap f) (sph_heap f')" unfolding round_ok_def by blast
  then show ?case
  proof cases
    case again
    then show ?thesis using splay_post_step [OF less.hyps [OF again(4,2,3)] again(5)] by simp
  qed
qed

text \<open>The keys around the root.\<close>

lemma pre_order:
  assumes "splay_pre key k f lc (Node l x r) rc as"
  shows "\<forall>a \<in> set_tree l. skey key (sph_heap f) a < skey key (sph_heap f) x"
    and "\<forall>a \<in> set_tree r. skey key (sph_heap f) x < skey key (sph_heap f) a"
    and "vars_ok f lc (Node l x r) rc" and "content lc (Node l x r) rc = as"
    and "\<forall>a \<in> set (lnodes lc). skey key (sph_heap f) a < k" and "\<forall>a \<in> set (rnodes rc). k < skey key (sph_heap f) a"
    and "l = Node b y c \<Longrightarrow> \<forall>a \<in> set_tree c. skey key (sph_heap f) y < skey key (sph_heap f) a"
    and "r = Node b y c \<Longrightarrow> \<forall>a \<in> set_tree b. skey key (sph_heap f) a < skey key (sph_heap f) y"
  using assms by (auto simp: splay_pre_def content_def sorted_wrt_append)

lemma root_key:
  "spe_rd (sph_heap f) a = Some n \<Longrightarrow> key (splay_entry.more n) = skey key (sph_heap f) a"
  by (simp add: skey_def spe_rd_def split: if_splits)

lemma child_reads:
  "srep h p (Node a y b) \<Longrightarrow> p = y \<and> y \<noteq> NULL \<and> (\<exists>m. spe_rd h y = Some m \<and> spe_rd h p = Some m)"
  by (auto simp: spe_rd_def)

lemma round_left:
  assumes pre: "splay_pre key k f lc (Node l x r) rc as" and lt: "k < skey key (sph_heap f) x"
    and cmp: "probes cmp e key k"
  shows "round_ok key k f as (size (Node l x r)) (splay_loop cmp e f) (splay_loop cmp e)"
proof -
  note o = pre_order [OF pre] and cmps = probes_simps [OF cmp]
  have abv: "\<forall>a \<in> insert x (set_tree r). k < skey key (sph_heap f) a" using lt o(2) by auto
  obtain n where n: "spe_rd (sph_heap f) (sph_root f) = Some n" "sph_root f = x"
    "SPLAY_LEFT (sph_heap f) (sph_root f) = Some (spe_left n)" "srep (sph_heap f) (spe_left n) l" using root_reads [OF o(3)] by blast
  note kx = root_key [OF n(1), of key, unfolded n(2)]
  note loop = splay_loop.simps [of cmp e f]
  show ?thesis
  proof (cases l)
    case Leaf
    then have "splay_loop cmp e f = Some f" using n lt kx cmps by (simp add: loop)
    then show ?thesis using o(5,6) abv Leaf by (auto intro!: round_stop [OF o(3,4) links_only_refl])
  next
    case (Node a y b)
    obtain m where m: "spe_left n = y" "y \<noteq> NULL" "spe_rd (sph_heap f) y = Some m"
      using child_reads [of "sph_heap f" "spe_left n" a y b] n(4) Node by auto
    note ky = root_key [OF m(3), of key]
    show ?thesis
    proof (cases "k < skey key (sph_heap f) y")
      case True
      obtain f1 where f1: "SPLAY_ROTATE_RIGHT f y = Some f1" "vars_ok f1 lc (Node a y (Node b x r)) rc"
        "links_only as (sph_heap f) (sph_heap f1)" using rotate_right_ok [of f lc a y b x r rc] o(3,4) Node by auto
      obtain n1 where n1: "spe_rd (sph_heap f1) (sph_root f1) = Some n1" "SPLAY_LEFT (sph_heap f1) (sph_root f1) = Some (spe_left n1)"
        "srep (sph_heap f1) (spe_left n1) a" using root_reads [OF f1(2)] by blast
      have cs1: "content lc (Node a y (Node b x r)) rc = as" using o(4) Node by (simp add: content_def)
      have abv1: "\<forall>c \<in> insert y (set_tree (Node b x r)). k < skey key (sph_heap f) c" using True abv o(7) [OF Node] by auto
      show ?thesis
      proof (cases "a = Leaf")
        case True
        then have "splay_loop cmp e f = Some f1" using n m f1(1) n1 lt \<open>k < skey key (sph_heap f) y\<close> kx ky cmps
          by (simp add: loop)
        then show ?thesis using o(5,6) abv1 True by (auto intro!: round_stop [OF f1(2) cs1 f1(3)])
      next
        case False
        obtain f2 where f2: "SPLAY_LINKLEFT f1 = Some f2" "vars_ok f2 lc a (rc @ [(Node b x r, y)])"
          "links_only as (sph_heap f1) (sph_heap f2)" using link_left_ok [OF f1(2)] cs1 by auto
        have "spe_left n1 \<noteq> NULL" using n1(3) False by (auto simp: srep_null)
        then have loop2: "splay_loop cmp e f = splay_loop cmp e f2"
          using n m f1(1) n1 f2(1) lt \<open>k < skey key (sph_heap f) y\<close> kx ky cmps by (simp add: loop)
        have cs2: "content lc a (rc @ [(Node b x r, y)]) = as" using cs1 by (simp add: content_def)
        show ?thesis unfolding loop2
          by (rule round_again [OF pre f2(2) cs2 links_only_trans [OF f1(3) f2(3)]]) (use Node False o(5,6) abv1 in auto)
      qed
    next
      case ny: False
      obtain f2 where f2: "SPLAY_LINKLEFT f = Some f2" "vars_ok f2 lc l (rc @ [(r, x)])"
        "links_only as (sph_heap f) (sph_heap f2)" using link_left_ok [OF o(3)] o(4) by auto
      have loop2: "splay_loop cmp e f = splay_loop cmp e f2" using n m f2(1) lt ny kx ky cmps by (simp add: loop)
      have cs2: "content lc l (rc @ [(r, x)]) = as" using o(4) by (simp add: content_def)
      show ?thesis unfolding loop2 by (rule round_again [OF pre f2(2) cs2 f2(3)]) (use Node o(5,6) abv in auto)
    qed
  qed
qed

lemma round_right:
  assumes pre: "splay_pre key k f lc (Node l x r) rc as" and gt: "skey key (sph_heap f) x < k"
    and cmp: "probes cmp e key k"
  shows "round_ok key k f as (size (Node l x r)) (splay_loop cmp e f) (splay_loop cmp e)"
proof -
  note o = pre_order [OF pre] and cmps = probes_simps [OF cmp]
  have blw: "\<forall>a \<in> insert x (set_tree l). skey key (sph_heap f) a < k" using gt o(1) by auto
  obtain n where n: "spe_rd (sph_heap f) (sph_root f) = Some n" "sph_root f = x"
    "SPLAY_RIGHT (sph_heap f) (sph_root f) = Some (spe_right n)" "srep (sph_heap f) (spe_right n) r" using root_reads [OF o(3)] by blast
  note kx = root_key [OF n(1), of key, unfolded n(2)]
  note loop = splay_loop.simps [of cmp e f]
  show ?thesis
  proof (cases r)
    case Leaf
    then have "splay_loop cmp e f = Some f" using n gt less_not_sym [OF gt] kx cmps by (simp add: loop)
    then show ?thesis using o(5,6) blw Leaf by (auto intro!: round_stop [OF o(3,4) links_only_refl])
  next
    case (Node a y b)
    obtain m where m: "spe_right n = y" "y \<noteq> NULL" "spe_rd (sph_heap f) y = Some m"
      using child_reads [of "sph_heap f" "spe_right n" a y b] n(4) Node by auto
    note ky = root_key [OF m(3), of key]
    show ?thesis
    proof (cases "skey key (sph_heap f) y < k")
      case True
      obtain f1 where f1: "SPLAY_ROTATE_LEFT f y = Some f1" "vars_ok f1 lc (Node (Node l x a) y b) rc"
        "links_only as (sph_heap f) (sph_heap f1)" using rotate_left_ok [of f lc l x a y b rc] o(3,4) Node by auto
      obtain n1 where n1: "spe_rd (sph_heap f1) (sph_root f1) = Some n1" "SPLAY_RIGHT (sph_heap f1) (sph_root f1) = Some (spe_right n1)"
        "srep (sph_heap f1) (spe_right n1) b" using root_reads [OF f1(2)] by blast
      have cs1: "content lc (Node (Node l x a) y b) rc = as" using o(4) Node by (simp add: content_def)
      have blw1: "\<forall>c \<in> insert y (set_tree (Node l x a)). skey key (sph_heap f) c < k" using True blw o(8) [OF Node] by auto
      show ?thesis
      proof (cases "b = Leaf")
        case True
        then have "splay_loop cmp e f = Some f1" using n m f1(1) n1 gt less_not_sym [OF gt] \<open>skey key (sph_heap f) y < k\<close> kx ky cmps
          by (simp add: loop)
        then show ?thesis using o(5,6) blw1 True by (auto intro!: round_stop [OF f1(2) cs1 f1(3)])
      next
        case False
        obtain f2 where f2: "SPLAY_LINKRIGHT f1 = Some f2" "vars_ok f2 (lc @ [(Node l x a, y)]) b rc"
          "links_only as (sph_heap f1) (sph_heap f2)" using link_right_ok [OF f1(2)] cs1 by auto
        have "spe_right n1 \<noteq> NULL" using n1(3) False by (auto simp: srep_null)
        then have loop2: "splay_loop cmp e f = splay_loop cmp e f2"
          using n m f1(1) n1 f2(1) gt less_not_sym [OF gt] \<open>skey key (sph_heap f) y < k\<close> kx ky cmps by (simp add: loop)
        have cs2: "content (lc @ [(Node l x a, y)]) b rc = as" using cs1 by (simp add: content_def)
        show ?thesis unfolding loop2
          by (rule round_again [OF pre f2(2) cs2 links_only_trans [OF f1(3) f2(3)]]) (use Node False o(5,6) blw1 in auto)
      qed
    next
      case ny: False
      obtain f2 where f2: "SPLAY_LINKRIGHT f = Some f2" "vars_ok f2 (lc @ [(l, x)]) r rc"
        "links_only as (sph_heap f) (sph_heap f2)" using link_right_ok [OF o(3)] o(4) by auto
      have loop2: "splay_loop cmp e f = splay_loop cmp e f2" using n m f2(1) gt less_not_sym [OF gt] ny kx ky cmps by (simp add: loop)
      have cs2: "content (lc @ [(l, x)]) r rc = as" using o(4) by (simp add: content_def)
      show ?thesis unfolding loop2 by (rule round_again [OF pre f2(2) cs2 f2(3)]) (use Node o(5,6) blw in auto)
    qed
  qed
qed

lemma splay_loop_ok:
  assumes cmp: "probes cmp e key k" and pre: "splay_pre key k f lc t rc as" "t \<noteq> Leaf"
  shows "splay_post key k (sph_heap f) as (splay_loop cmp e f)"
proof (rule rounds [OF _ pre])
  fix f lc t rc assume pre: "splay_pre key k f lc t rc as" "t \<noteq> Leaf"
  then obtain l x r where t: "t = Node l x r" by (cases t) auto
  note o = pre_order [OF pre(1) [unfolded t]]
  consider (eq) "k = skey key (sph_heap f) x" | (lt) "k < skey key (sph_heap f) x" | (gt) "skey key (sph_heap f) x < k" by fastforce
  then show "round_ok key k f as (size t) (splay_loop cmp e f) (splay_loop cmp e)"
  proof cases
    case eq
    obtain n where n: "spe_rd (sph_heap f) (sph_root f) = Some n" "sph_root f = x" using root_reads [OF o(3)] by blast
    have "splay_loop cmp e f = Some f"
      using n root_key [OF n(1), of key, unfolded n(2)] eq probes_simps [OF cmp] by (simp add: splay_loop.simps [of cmp e f])
    then show ?thesis using o(1,2,5,6) eq by (auto intro!: round_stop [OF o(3,4) links_only_refl])
  next
    case lt
    then show ?thesis using round_left [OF pre(1) [unfolded t] lt cmp] t by simp
  next
    case gt
    then show ?thesis using round_right [OF pre(1) [unfolded t] gt cmp] t by simp
  qed
qed

section \<open>Splaying\<close>

text \<open>The tree of \<open>s\<close> holds the nodes \<open>as\<close>, in the order of their keys.\<close>

definition splay_holds :: "('a \<Rightarrow> 'k::linorder) \<Rightarrow> 'a splay_head \<Rightarrow> addr list \<Rightarrow> bool" where
  "splay_holds key s as \<longleftrightarrow> (\<exists>t. srep (snd s) (fst s) t \<and> inorder t = as) \<and> sorted_wrt (<) (map (skey key (snd s)) as)"

lemma sorted_distinct: "sorted_wrt (<) (map f as) \<Longrightarrow> distinct as" for f :: "'a \<Rightarrow> 'b::linorder"
  by (simp add: strict_sorted_iff distinct_map)

lemma splay_post_assemble:
  assumes "splay_post key k h as res"
  shows "\<exists>f f' l x r. res = Some f \<and> SPLAY_ASSEMBLE f = Some f' \<and> sph_root f' = x \<and> srep (sph_heap f') x (Node l x r)
    \<and> inorder (Node l x r) = as \<and> links_only as h (sph_heap f')
    \<and> (\<forall>a \<in> set_tree l. skey key h a < k) \<and> (\<forall>a \<in> set_tree r. k < skey key h a)"
proof -
  obtain f lc l x r rc where f: "res = Some f" "vars_ok f lc (Node l x r) rc" "content lc (Node l x r) rc = as"
    "links_only as h (sph_heap f)" "\<forall>a \<in> set (lnodes lc) \<union> set_tree l. skey key h a < k"
    "\<forall>a \<in> set_tree r \<union> set (rnodes rc). k < skey key h a" using assms unfolding splay_post_def by blast
  obtain f' where f': "SPLAY_ASSEMBLE f = Some f'" "sph_root f' = x" "srep (sph_heap f') x (Node (lclose lc l) x (rclose rc r))"
    "links_only as (sph_heap f) (sph_heap f')" using assemble_ok [OF f(2)] f(3) by auto
  have "inorder (Node (lclose lc l) x (rclose rc r)) = as" using f(3) by (simp add: content_def)
  moreover have "\<forall>a \<in> set_tree (lclose lc l). skey key h a < k" "\<forall>a \<in> set_tree (rclose rc r). k < skey key h a"
    using f(5,6) by auto
  ultimately show ?thesis using f(1) f'(1-3) links_only_trans [OF f(4) f'(4)] by blast
qed

lemma start_ok:
  assumes "splay_holds key s as"
  obtains t where "vars_ok (splay_start s) [] t []" "content [] t [] = as" "t = Leaf \<longleftrightarrow> as = []"
    "\<And>k. splay_pre key k (splay_start s) [] t [] as"
proof -
  obtain t where t: "srep (snd s) (fst s) t" "inorder t = as" "sorted_wrt (<) (map (skey key (snd s)) as)"
    using assms by (auto simp: splay_holds_def)
  have ok: "vars_ok (splay_start s) [] t []"
    using t sorted_distinct [OF t(3)] by (simp add: vars_ok_def splay_start_def end_of_def content_def)
  have cs: "content [] t [] = as" using t(2) by (simp add: content_def)
  show thesis by (rule that [OF ok cs]) (use ok cs t in \<open>auto simp: splay_pre_def splay_start_def\<close>)
qed

text \<open>Splaying brings a node to the root that splits the others at the key: those on its left are below, those on its right above.\<close>

lemma splay_steps:
  assumes cmp: "probes cmp e key k" and s: "splay_holds key s as" "as \<noteq> []"
  obtains f f' l x r where "splay_loop cmp e (splay_start s) = Some f" "SPLAY_ASSEMBLE f = Some f'" "sph_root f' = x"
    "srep (sph_heap f') x (Node l x r)" "inorder (Node l x r) = as" "links_only as (snd s) (sph_heap f')"
    "\<forall>a \<in> set_tree l. skey key (snd s) a < k" "\<forall>a \<in> set_tree r. k < skey key (snd s) a"
proof -
  obtain t where t: "splay_pre key k (splay_start s) [] t [] as" "t = Leaf \<longleftrightarrow> as = []" using start_ok [OF s(1)] by metis
  have "splay_post key k (sph_heap (splay_start s)) as (splay_loop cmp e (splay_start s))"
    by (rule splay_loop_ok [OF cmp t(1)]) (use t(2) s(2) in simp)
  from splay_post_assemble [OF this] show thesis
    by (elim exE conjE, intro that) (simp_all add: splay_start_def del: srep.simps inorder.simps)
qed

lemma splay_ok:
  assumes cmp: "probes cmp e key k" and s: "splay_holds key s as" "as \<noteq> []"
  obtains x h l r where "SPLAY cmp s e = Some (x, h)" "srep h x (Node l x r)" "inorder (Node l x r) = as" "links_only as (snd s) h"
    "\<forall>a \<in> set_tree l. skey key (snd s) a < k" "\<forall>a \<in> set_tree r. k < skey key (snd s) a"
proof -
  obtain f f' l x r where f: "splay_loop cmp e (splay_start s) = Some f" "SPLAY_ASSEMBLE f = Some f'" "sph_root f' = x"
    and "srep (sph_heap f') x (Node l x r)" "inorder (Node l x r) = as" "links_only as (snd s) (sph_heap f')"
      "\<forall>a \<in> set_tree l. skey key (snd s) a < k" "\<forall>a \<in> set_tree r. k < skey key (snd s) a"
    by (rule splay_steps [OF assms])
  moreover have "SPLAY cmp s e = Some (x, sph_heap f')" using f by (simp add: SPLAY_def)
  ultimately show thesis by (intro that)
qed

section \<open>The smallest and the largest node\<close>

text \<open>The second loop is the first with a comparison that always has the same sign.\<close>

lemma minmax_of_splay:
  assumes "splay_loop (\<lambda>_ _. dir) e f = Some f'" and dir: "dir \<noteq> 0"
  shows "splay_minmax_loop dir f = Some f'"
proof -
  have "(cmp :: 'a splay_cmp) = (\<lambda>_ _. dir) \<longrightarrow> splay_minmax_loop dir f = Some f'" if "splay_loop cmp e f = Some f'" for cmp
    using that
  proof (rule splay_loop.raw_induct [where P = "\<lambda>cmp e f r. cmp = (\<lambda>_ _. dir) \<longrightarrow> splay_minmax_loop dir f = Some r", rotated],
      intro impI)
    fix loop :: "'a splay_cmp \<Rightarrow> 'a splay_entry_scheme \<Rightarrow> 'a splay_vars \<Rightarrow> 'a splay_vars option"
      and cmp :: "'a splay_cmp" and e f r
    assume "\<And>cmp e f r. loop cmp e f = Some r \<Longrightarrow> cmp = (\<lambda>_ _. dir) \<longrightarrow> splay_minmax_loop dir f = Some r"
      and "cmp = (\<lambda>_ _. dir)"
    then have IH: "loop (\<lambda>_ _. dir) e f = Some r \<Longrightarrow> splay_minmax_loop dir f = Some r" for e f r by blast
    assume "do {
     n \<leftarrow> spe_rd (sph_heap f) (sph_root f);
     if cmp e n < 0 then do {
       tmp \<leftarrow> SPLAY_LEFT (sph_heap f) (sph_root f);
       if tmp = NULL then Some f
       else do {
         m \<leftarrow> spe_rd (sph_heap f) tmp;
         if cmp e m < 0 then do {
           f \<leftarrow> SPLAY_ROTATE_RIGHT f tmp;
           l \<leftarrow> SPLAY_LEFT (sph_heap f) (sph_root f);
           if l = NULL then Some f
           else do { f \<leftarrow> SPLAY_LINKLEFT f; loop cmp e f }
         } else do { f \<leftarrow> SPLAY_LINKLEFT f; loop cmp e f }
       }
     } else if cmp e n > 0 then do {
       tmp \<leftarrow> SPLAY_RIGHT (sph_heap f) (sph_root f);
       if tmp = NULL then Some f
       else do {
         m \<leftarrow> spe_rd (sph_heap f) tmp;
         if cmp e m > 0 then do {
           f \<leftarrow> SPLAY_ROTATE_LEFT f tmp;
           r \<leftarrow> SPLAY_RIGHT (sph_heap f) (sph_root f);
           if r = NULL then Some f
           else do { f \<leftarrow> SPLAY_LINKRIGHT f; loop cmp e f }
         } else do { f \<leftarrow> SPLAY_LINKRIGHT f; loop cmp e f }
       }
     } else Some f
   } = Some r"
    then show "splay_minmax_loop dir f = Some r" using dir unfolding \<open>cmp = _\<close>
      by (subst splay_minmax_loop.simps, cases "dir < 0")
        (fastforce simp: bind_eq_Some_conv dest: IH split: if_splits)+
  qed
  then show ?thesis using assms(1) by blast
qed

text \<open>With no direction it never ends.\<close>

lemma minmax_returns: "splay_minmax_loop dir f = Some r \<Longrightarrow> dir \<noteq> 0"
  by (rule splay_minmax_loop.raw_induct [where P = "\<lambda>dir f r. dir \<noteq> 0"]) (auto split: if_splits)

lemma minmax_zero: "splay_minmax_loop 0 f = None"
  using minmax_returns [of 0 f] by (cases "splay_minmax_loop 0 f") auto

text \<open>
  To look for a node below, or above, all the others is to look for a key of its own kind: a pair whose first part decides
  first.
\<close>

lemma probes_below: "dir < 0 \<Longrightarrow> probes (\<lambda>_ _. dir) e (\<lambda>d. (0::int, key d)) (- 1, k)"
  by (simp add: probes_def less_prod_def)

lemma probes_above: "0 < dir \<Longrightarrow> probes (\<lambda>_ _. dir) e (\<lambda>d. (0::int, key d)) (1, k)"
  by (simp add: probes_def less_prod_def)

lemma splay_holds_pair: "splay_holds key s as \<Longrightarrow> splay_holds (\<lambda>d. (0::int, key d)) s as"
  by (auto simp: splay_holds_def skey_def sorted_wrt_map less_prod_def)

lemma minmax_ok:
  assumes s: "splay_holds key s as" "as \<noteq> []" and dir: "dir \<noteq> 0"
  obtains h t where "SPLAY_MINMAX s dir = Some (if dir < 0 then hd as else last as, h)"
    "srep h (if dir < 0 then hd as else last as) t" "inorder t = as" "links_only as (snd s) h"
proof -
  let ?key = "\<lambda>d. (0::int, key d)" and ?cmp = "\<lambda>_ _. dir" and ?x = "if dir < 0 then hd as else last as"
  define k where "k = (if dir < 0 then - 1 else 1 :: int, undefined :: 'b)"
  have pr: "probes ?cmp undefined ?key k" using dir unfolding k_def
    by (cases "dir < 0") (simp_all add: probes_below probes_above)
  obtain f f' l x r where f: "splay_loop ?cmp undefined (splay_start s) = Some f" "SPLAY_ASSEMBLE f = Some f'" "sph_root f' = x"
    "srep (sph_heap f') x (Node l x r)" "inorder (Node l x r) = as" "links_only as (snd s) (sph_heap f')"
    "\<forall>a \<in> set_tree l. skey ?key (snd s) a < k" "\<forall>a \<in> set_tree r. k < skey ?key (snd s) a"
    by (rule splay_steps [OF pr splay_holds_pair [OF s(1)] s(2)])
  have "if dir < 0 then l = Leaf else r = Leaf"
    using f(7,8) by (cases l; cases r) (auto simp: k_def skey_def less_prod_def split: if_splits)
  then have x: "x = ?x" using f(5) by (auto split: if_splits)
  have "SPLAY_MINMAX s dir = Some (x, sph_heap f')" using minmax_of_splay [OF f(1) dir] f(2,3) by (simp add: SPLAY_MINMAX_def)
  then show thesis using that f(4-6) unfolding x by blast
qed

end
