(* ===== verification/Splay_Props.thy ===== *)
theory Splay_Props
  imports Splay_Tree
begin

text \<open>
  What the operations of the splay tree do to the sequence of nodes in key order, each with an instance on a small heap.
\<close>

section \<open>Splaying and the sequence\<close>

text \<open>A tree of the right nodes in the right order, in a heap where only links have changed, holds them.\<close>

lemma splay_holdsI:
  assumes "srep h x t" and "inorder t = bs" and "links_only as h0 h" and "sorted_wrt (<) (map (skey key h0) bs)"
  shows "splay_holds key (x, h) bs"
  using assms skey_links [OF assms(3), of key] by (auto simp: splay_holds_def)

lemma splay_root:
  assumes cmp: "probes cmp e key k" and s: "splay_holds key s as" "as \<noteq> []"
  obtains x h n l r where "SPLAY cmp s e = Some (x, h)" "h x = Some n" "x \<noteq> NULL" "srep h (spe_left n) l" "srep h (spe_right n) r"
    "as = inorder l @ x # inorder r" "links_only as (snd s) h" "splay_holds key (x, h) as" "skey key h = skey key (snd s)"
    "\<forall>a \<in> set_tree l. skey key (snd s) a < k" "\<forall>a \<in> set_tree r. k < skey key (snd s) a"
    "cmp e n < 0 \<longleftrightarrow> k < skey key (snd s) x" "0 < cmp e n \<longleftrightarrow> skey key (snd s) x < k" "cmp e n = 0 \<longleftrightarrow> k = skey key (snd s) x"
proof -
  obtain x h l r where r: "SPLAY cmp s e = Some (x, h)" "srep h x (Node l x r)" "inorder (Node l x r) = as" "links_only as (snd s) h"
    "\<forall>a \<in> set_tree l. skey key (snd s) a < k" "\<forall>a \<in> set_tree r. k < skey key (snd s) a" by (rule splay_ok [OF assms])
  have "splay_holds key (x, h) as"
    by (rule splay_holdsI [OF r(2,3,4)]) (use s(1) in \<open>simp add: splay_holds_def\<close>)
  moreover obtain n where n: "h x = Some n" "x \<noteq> NULL" "srep h (spe_left n) l" "srep h (spe_right n) r" using r(2) by auto
  moreover have "key (splay_entry.more n) = skey key (snd s) x" using n(1) skey_links [OF r(4), of key] by (simp add: skey_def fun_eq_iff) (metis option.sel)
  note probes_simps [OF cmp, of n, unfolded this]
  ultimately show thesis using that r(1,3-6) skey_links [OF r(4), of key] by auto
qed

lemma splay_holds_null: "splay_holds key s as \<Longrightarrow> fst s = NULL \<longleftrightarrow> as = []"
proof -
  assume "splay_holds key s as"
  then obtain t where "srep (snd s) (fst s) t" "inorder t = as" by (auto simp: splay_holds_def)
  then show ?thesis by (cases t) auto
qed

lemma splay_holds_alive: "splay_holds key s as \<Longrightarrow> a \<in> set as \<Longrightarrow> a \<noteq> NULL \<and> (\<exists>n. snd s a = Some n)"
  using srep_alive by (fastforce simp: splay_holds_def)

lemma splay_holds_inj: "splay_holds key s as \<Longrightarrow> a \<in> set as \<Longrightarrow> b \<in> set as \<Longrightarrow> skey key (snd s) a = skey key (snd s) b \<Longrightarrow> a = b"
  by (auto simp: splay_holds_def strict_sorted_iff distinct_map dest: inj_onD)

lemma splay_holds_distinct: "splay_holds key s as \<Longrightarrow> distinct as"
  by (auto simp: splay_holds_def dest: sorted_distinct)

lemma splay_insert_ok:
  assumes cmp: "keyed cmp key" and s: "splay_holds key s as" and e: "snd s elm = Some e" "elm \<noteq> NULL" "elm \<notin> set as"
  obtains root h ret where "SPLAY_INSERT cmp s elm = Some ((root, h), ret)" "links_only (elm # as) (snd s) h"
    "splay_holds key (root, h) (if ret = NULL then insort_key (skey key (snd s)) elm as else as)"
    "if ret = NULL then root = elm \<and> (\<forall>a \<in> set as. skey key (snd s) a \<noteq> skey key (snd s) elm)
     else ret \<in> set as \<and> skey key (snd s) ret = skey key (snd s) elm \<and> root = ret \<and> h elm = Some e"
proof (cases "as = []")
  case True
  let ?h = "(snd s)(elm \<mapsto> e\<lparr>spe_right := 0, spe_left := 0\<rparr>)"
  have l: "links_only [elm] (snd s) ?h" using e by (auto intro!: links_only_upd)
  have "SPLAY_INSERT cmp s elm = Some ((elm, ?h), NULL)" using splay_holds_null [OF s] True e
    by (simp add: SPLAY_INSERT_def SPLAY_EMPTY_def SPLAY_SET_LEFT_def SPLAY_SET_RIGHT_def spe_wr_def spe_rd_def)
  moreover have "splay_holds key (elm, ?h) [elm]"
    by (rule splay_holdsI [OF _ _ l, of _ "Node Leaf elm Leaf"]) (use e in auto)
  ultimately show ?thesis using that [of elm ?h NULL] l True by simp
next
  case False
  let ?k = "key (splay_entry.more e)"
  have k: "skey key (snd s) elm = ?k" using e by (simp add: skey_def)
  obtain x h n l r where x: "SPLAY cmp s e = Some (x, h)" "h x = Some n" "x \<noteq> NULL" "srep h (spe_left n) l" "srep h (spe_right n) r"
    "as = inorder l @ x # inorder r" "links_only as (snd s) h" "splay_holds key (x, h) as" "skey key h = skey key (snd s)"
    and blw: "\<forall>a \<in> set_tree l. skey key (snd s) a < ?k" and abv: "\<forall>a \<in> set_tree r. ?k < skey key (snd s) a"
    and cmps: "cmp e n < 0 \<longleftrightarrow> ?k < skey key (snd s) x" "0 < cmp e n \<longleftrightarrow> skey key (snd s) x < ?k" "cmp e n = 0 \<longleftrightarrow> ?k = skey key (snd s) x"
    by (rule splay_root [OF keyed_probes [OF cmp] s False])
  have he: "h elm = Some e" using links_only_same [OF x(7) e(3)] e(1) by simp
  have sr: "sorted_wrt (<) (map (skey key (snd s)) as)" using s by (simp add: splay_holds_def)
  have d: "x \<noteq> elm" "elm \<noteq> x" "x \<notin> set_tree l" "x \<notin> set_tree r" "elm \<notin> set_tree l" "elm \<notin> set_tree r"
    using splay_holds_distinct [OF s] e(3) x(6) by auto
  have start: "SPLAY_EMPTY s \<longleftrightarrow> False" "spe_rd (snd s) elm = Some e"
    using splay_holds_null [OF s] False e by (simp_all add: SPLAY_EMPTY_def spe_rd_def)
  have mono: "links_only (elm # as) (snd s) h" using x(7) by (rule links_only_mono) auto
  note unf = SPLAY_INSERT_def start(1) e(1) x(1-3) SPLAY_LEFT_def SPLAY_RIGHT_def SPLAY_SET_LEFT_def SPLAY_SET_RIGHT_def spe_wr_def spe_rd_def
  consider (eq) "?k = skey key (snd s) x" | (lt) "?k < skey key (snd s) x" | (gt) "skey key (snd s) x < ?k" by fastforce
  then show ?thesis
  proof cases
    case eq
    then have "SPLAY_INSERT cmp s elm = Some ((x, h), x)" using cmps x(1-3) start by (simp add: SPLAY_INSERT_def spe_rd_def)
    then show ?thesis using that mono x(3,6,8) he eq k by simp
  next
    case lt
    let ?h = "h(elm \<mapsto> e\<lparr>spe_left := spe_left n, spe_right := x\<rparr>, x \<mapsto> n\<lparr>spe_left := 0\<rparr>)"
    have l: "links_only (elm # as) (snd s) ?h" using mono he x(2,6) d by (auto intro!: links_only_upd simp del: fun_upd_apply simp: upd_simps)
    have "SPLAY_INSERT cmp s elm = Some ((elm, ?h), NULL)" using lt cmps he e(2) d by (simp add: unf)
    moreover have ins: "insort_key (skey key (snd s)) elm as = inorder l @ elm # x # inorder r"
      unfolding x(6) by (rule insort_between) (use blw abv lt k in auto)
    have "splay_holds key (elm, ?h) (insort_key (skey key (snd s)) elm as)"
      by (rule splay_holdsI [OF _ _ l, of _ "Node l elm (Node Leaf x r)"])
        (use x(3-6) d e(2) ins sr blw abv lt k in \<open>auto simp: upd_simps sorted_wrt_append simp del: fun_upd_apply\<close>)
    ultimately show ?thesis using that l x(6) blw abv lt k by fastforce
  next
    case gt
    let ?h = "h(elm \<mapsto> e\<lparr>spe_right := spe_right n, spe_left := x\<rparr>, x \<mapsto> n\<lparr>spe_right := 0\<rparr>)"
    have l: "links_only (elm # as) (snd s) ?h" using mono he x(2,6) d by (auto intro!: links_only_upd simp del: fun_upd_apply simp: upd_simps)
    have "SPLAY_INSERT cmp s elm = Some ((elm, ?h), NULL)" using gt less_not_sym [OF gt] cmps he e(2) d by (simp add: unf)
    moreover have ins: "insort_key (skey key (snd s)) elm as = (inorder l @ [x]) @ elm # inorder r"
      using insort_between [of "inorder l @ [x]" "skey key (snd s)" elm "inorder r"] blw abv gt k x(6) by auto
    have "splay_holds key (elm, ?h) (insort_key (skey key (snd s)) elm as)"
      by (rule splay_holdsI [OF _ _ l, of _ "Node (Node l x Leaf) elm r"])
        (use x(3-6) d e(2) ins sr blw abv gt k in \<open>auto simp: upd_simps sorted_wrt_append simp del: fun_upd_apply\<close>)
    ultimately show ?thesis using that l x(6) blw abv gt k by fastforce
  qed
qed

lemma splay_insert_cases:
  assumes "keyed cmp key" and s: "splay_holds key s as" and "snd s elm = Some e" and "elm \<noteq> NULL" and "elm \<notin> set as"
  shows "case find (\<lambda>a. skey key (snd s) a = skey key (snd s) elm) as of
     Some a \<Rightarrow> \<exists>h. SPLAY_INSERT cmp s elm = Some ((a, h), a) \<and> splay_holds key (a, h) as \<and> links_only (elm # as) (snd s) h \<and> h elm = Some e
   | None \<Rightarrow> \<exists>h. SPLAY_INSERT cmp s elm = Some ((elm, h), NULL) \<and> links_only (elm # as) (snd s) h
       \<and> splay_holds key (elm, h) (insort_key (skey key (snd s)) elm as)"
proof -
  obtain root h ret where r: "SPLAY_INSERT cmp s elm = Some ((root, h), ret)" "links_only (elm # as) (snd s) h"
    "splay_holds key (root, h) (if ret = NULL then insort_key (skey key (snd s)) elm as else as)"
    "if ret = NULL then root = elm \<and> (\<forall>a \<in> set as. skey key (snd s) a \<noteq> skey key (snd s) elm)
     else ret \<in> set as \<and> skey key (snd s) ret = skey key (snd s) elm \<and> root = ret \<and> h elm = Some e"
    by (rule splay_insert_ok [OF assms])
  show ?thesis
  proof (cases "find (\<lambda>a. skey key (snd s) a = skey key (snd s) elm) as")
    case None
    moreover from this have "ret = NULL" using r(4) by (auto simp: find_None_iff split: if_splits)
    ultimately show ?thesis using r by auto
  next
    case (Some a)
    then have a: "a \<in> set as" "skey key (snd s) a = skey key (snd s) elm" by (auto simp: find_Some_iff)
    then have "ret \<noteq> NULL" using r(4) by (auto split: if_splits)
    moreover from this have "ret = a" using r(4) a splay_holds_inj [OF s] by auto
    ultimately show ?thesis using Some r by auto
  qed
qed

text \<open>Splaying for a key above all the others brings up the last node.\<close>

lemma splay_below:
  assumes cmp: "probes cmp e key k" and s: "splay_holds key s as" "as \<noteq> []" and k: "\<forall>a \<in> set as. skey key (snd s) a < k"
  obtains x h n l where "SPLAY cmp s e = Some (x, h)" "h x = Some n" "x \<noteq> NULL" "srep h (spe_left n) l"
    "as = inorder l @ [x]" "links_only as (snd s) h"
proof -
  obtain x h n l r where x: "SPLAY cmp s e = Some (x, h)" "h x = Some n" "x \<noteq> NULL" "srep h (spe_left n) l" "srep h (spe_right n) r"
    "as = inorder l @ x # inorder r" "links_only as (snd s) h" "\<forall>a \<in> set_tree r. k < skey key (snd s) a"
    by (rule splay_root [OF cmp s])
  have "r = Leaf" using x(6,8) k less_asym by (cases r) fastforce+
  then show thesis using that x by simp
qed

lemma splay_remove_ok:
  assumes cmp: "keyed cmp key" and s: "splay_holds key s as" and e: "snd s elm = Some e" "elm \<noteq> NULL"
  obtains root h where "SPLAY_REMOVE cmp s elm =
      Some ((root, h), if \<exists>a \<in> set as. skey key (snd s) a = skey key (snd s) elm then elm else NULL)"
    "links_only as (snd s) h" "splay_holds key (root, h) (filter (\<lambda>a. skey key (snd s) a \<noteq> skey key (snd s) elm) as)"
proof (cases "as = []")
  case True
  then have "SPLAY_REMOVE cmp s elm = Some ((fst s, snd s), NULL)" using splay_holds_null [OF s]
    by (cases s) (simp add: SPLAY_REMOVE_def SPLAY_EMPTY_def)
  then show ?thesis using that s True by (cases s) simp
next
  case False
  let ?k = "key (splay_entry.more e)"
  have k: "skey key (snd s) elm = ?k" using e by (simp add: skey_def)
  obtain x h n l r where x: "SPLAY cmp s e = Some (x, h)" "h x = Some n" "x \<noteq> NULL" "srep h (spe_left n) l" "srep h (spe_right n) r"
    "as = inorder l @ x # inorder r" "links_only as (snd s) h" "splay_holds key (x, h) as" "skey key h = skey key (snd s)"
    and blw: "\<forall>a \<in> set_tree l. skey key (snd s) a < ?k" and abv: "\<forall>a \<in> set_tree r. ?k < skey key (snd s) a"
    and cmps: "cmp e n < 0 \<longleftrightarrow> ?k < skey key (snd s) x" "0 < cmp e n \<longleftrightarrow> skey key (snd s) x < ?k" "cmp e n = 0 \<longleftrightarrow> ?k = skey key (snd s) x"
    by (rule splay_root [OF keyed_probes [OF cmp] s False])
  have sr: "sorted_wrt (<) (map (skey key (snd s)) as)" using s by (simp add: splay_holds_def)
  have emp: "SPLAY_EMPTY s \<longleftrightarrow> False" using splay_holds_null [OF s] False by (simp add: SPLAY_EMPTY_def)
  have off: "\<forall>a \<in> set_tree l \<union> set_tree r. skey key (snd s) a \<noteq> ?k" using blw abv by fastforce
  note unf = SPLAY_REMOVE_def emp e(1) x(1-3) SPLAY_LEFT_def SPLAY_RIGHT_def SPLAY_SET_RIGHT_def spe_wr_def spe_rd_def
  show ?thesis
  proof (cases "?k = skey key (snd s) x")
    case no: False
    then have "SPLAY_REMOVE cmp s elm = Some ((x, h), NULL)" using cmps e(2) by (simp add: unf)
    moreover have "\<forall>a \<in> set as. skey key (snd s) a \<noteq> ?k" using off no x(6) by auto
    moreover from this have "filter (\<lambda>a. skey key (snd s) a \<noteq> ?k) as = as" by (simp add: filter_id_conv)
    ultimately show ?thesis using that x(7,8) k by auto
  next
    case yes: True
    have ex: "\<exists>a \<in> set as. skey key (snd s) a = skey key (snd s) elm" using yes k x(6) by auto
    have fil: "filter (\<lambda>a. skey key (snd s) a \<noteq> skey key (snd s) elm) as = inorder l @ inorder r"
      using yes k off unfolding x(6) by (auto simp: filter_id_conv)
    show ?thesis
    proof (cases "l = Leaf")
      case True
      then have "SPLAY_REMOVE cmp s elm = Some ((spe_right n, h), elm)" using yes cmps e(2) x(4) by (simp add: unf)
      moreover have "splay_holds key (spe_right n, h) (inorder r)"
        by (rule splay_holdsI [OF x(5) refl x(7)]) (use sr x(6) in \<open>simp add: sorted_wrt_append\<close>)
      ultimately show ?thesis using that x(7) ex fil True by simp
    next
      case False
      have hl: "splay_holds key (spe_left n, h) (inorder l)"
        by (rule splay_holdsI [OF x(4) refl x(7)]) (use sr x(6) in \<open>simp add: sorted_wrt_append\<close>)
      have ne: "inorder l \<noteq> []" using False by (cases l) auto
      obtain x2 h2 n2 l2 where x2: "SPLAY cmp (spe_left n, h) e = Some (x2, h2)" "h2 x2 = Some n2" "x2 \<noteq> NULL"
        "srep h2 (spe_left n2) l2" "inorder l = inorder l2 @ [x2]" "links_only (inorder l) (snd (spe_left n, h)) h2"
        by (rule splay_below [OF keyed_probes [OF cmp] hl ne]) (use x(9) blw in simp)
      note x2 = x2 [unfolded snd_conv]
      have d: "x2 \<notin> set_tree l2" "x2 \<notin> set_tree r" "\<And>y. y \<in> set_tree r \<Longrightarrow> y \<notin> set (inorder l)"
        using splay_holds_distinct [OF s] x(6) x2(5) by auto
      have sr2: "srep h2 (spe_right n) r" using x(5) srep_frame [of r h2 h] links_only_same [OF x2(6) d(3)] by simp
      let ?h = "h2(x2 \<mapsto> n2\<lparr>spe_right := spe_right n\<rparr>)"
      have "links_only as (snd s) h2" using x(6) by (intro links_only_trans [OF x(7) links_only_mono [OF x2(6)]]) auto
      then have lk: "links_only as (snd s) ?h" using x2(2,5) x(6) by (auto intro!: links_only_upd)
      have "spe_left n \<noteq> 0" using x(4) False by (auto simp: srep_null)
      then have "SPLAY_REMOVE cmp s elm = Some ((x2, ?h), elm)" using yes cmps e(2) x2(1-3) by (simp add: unf)
      moreover have "splay_holds key (x2, ?h) (inorder l @ inorder r)"
        by (rule splay_holdsI [OF _ _ lk, of _ "Node l2 x2 r"])
          (use x2 sr2 d x(6) sr in \<open>auto simp: upd_simps sorted_wrt_append simp del: fun_upd_apply\<close>)
      ultimately show ?thesis using that lk ex fil by simp
    qed
  qed
qed

lemma splay_find_ok:
  assumes cmp: "probes cmp e key k" and s: "splay_holds key s as"
  obtains root h where "SPLAY_FIND cmp s e = Some ((root, h), case find (\<lambda>a. skey key (snd s) a = k) as of Some a \<Rightarrow> a | None \<Rightarrow> NULL)"
    "links_only as (snd s) h" "splay_holds key (root, h) as"
    "\<forall>a \<in> set as. skey key (snd s) a = k \<longrightarrow> root = a"
proof (cases "as = []")
  case True
  then have "SPLAY_FIND cmp s e = Some ((fst s, snd s), NULL)" using splay_holds_null [OF s]
    by (cases s) (simp add: SPLAY_FIND_def SPLAY_EMPTY_def)
  then show ?thesis using that s True by (cases s) simp
next
  case False
  obtain x h n l r where x: "SPLAY cmp s e = Some (x, h)" "h x = Some n" "x \<noteq> NULL" "srep h (spe_left n) l" "srep h (spe_right n) r"
    "as = inorder l @ x # inorder r" "links_only as (snd s) h" "splay_holds key (x, h) as" "skey key h = skey key (snd s)"
    and blw: "\<forall>a \<in> set_tree l. skey key (snd s) a < k" and abv: "\<forall>a \<in> set_tree r. k < skey key (snd s) a"
    and cmps: "cmp e n < 0 \<longleftrightarrow> k < skey key (snd s) x" "0 < cmp e n \<longleftrightarrow> skey key (snd s) x < k" "cmp e n = 0 \<longleftrightarrow> k = skey key (snd s) x"
    by (rule splay_root [OF cmp s False])
  have none: "find (\<lambda>a. skey key (snd s) a = k) (inorder l) = None" "find (\<lambda>a. skey key (snd s) a = k) (inorder r) = None"
    using blw abv by (auto simp: find_None_iff)
  have "find (\<lambda>a. skey key (snd s) a = k) as = (if skey key (snd s) x = k then Some x else None)"
    using none unfolding x(6) by (simp add: find_append)
  then have "SPLAY_FIND cmp s e = Some ((x, h), case find (\<lambda>a. skey key (snd s) a = k) as of Some a \<Rightarrow> a | None \<Rightarrow> NULL)"
    using x(1-3) cmps splay_holds_null [OF s] False
    by (auto simp: SPLAY_FIND_def SPLAY_EMPTY_def spe_rd_def)
  then show ?thesis using that x(6-8) blw abv by fastforce
qed

lemma splay_leftmost_ok: "srep h a t \<Longrightarrow> t \<noteq> Leaf \<Longrightarrow> splay_leftmost h a = Some (hd (inorder t))"
proof (induction t arbitrary: a)
  case (Node l x r)
  then obtain n where "h x = Some n" "a = x" "x \<noteq> NULL" "srep h (spe_left n) l" by auto
  then show ?case using Node.IH(1) [of "spe_left n"]
    by (subst splay_leftmost.simps) (cases "l = Leaf", auto simp: SPLAY_LEFT_def spe_rd_def srep_null hd_append)
qed simp

text \<open>The successor of a node in the sequence, and the whole sequence by successors.\<close>

lemma first_of_inorder: "t \<noteq> Leaf \<Longrightarrow> first_or_null (inorder t) = hd (inorder t)"
  by (auto simp: first_or_null_def split: list.splits)

lemma splay_next_ok:
  assumes cmp: "keyed cmp key" and s: "splay_holds key s (xs @ elm # ys)"
  obtains h where "SPLAY_NEXT cmp s elm = Some ((elm, h), first_or_null ys)" "links_only (xs @ elm # ys) (snd s) h"
    "splay_holds key (elm, h) (xs @ elm # ys)"
proof -
  obtain e where e: "snd s elm = Some e" "elm \<noteq> NULL" using splay_holds_alive [OF s, of elm] by auto
  have k: "skey key (snd s) elm = key (splay_entry.more e)" using e by (simp add: skey_def)
  obtain x h n l r where x: "SPLAY cmp s e = Some (x, h)" "h x = Some n" "x \<noteq> NULL" "srep h (spe_left n) l" "srep h (spe_right n) r"
    "xs @ elm # ys = inorder l @ x # inorder r" "links_only (xs @ elm # ys) (snd s) h" "splay_holds key (x, h) (xs @ elm # ys)"
    and blw: "\<forall>a \<in> set_tree l. skey key (snd s) a < skey key (snd s) elm"
    and abv: "\<forall>a \<in> set_tree r. skey key (snd s) elm < skey key (snd s) a"
    by (rule splay_root [OF keyed_probes [OF cmp] s, of e]) (use k in simp_all)
  have d: "elm \<notin> set xs" "elm \<notin> set ys" using splay_holds_distinct [OF s] by auto
  have "elm \<in> set_tree l \<union> {x} \<union> set_tree r" using arg_cong [OF x(6), of set] by auto
  then have "x = elm" using blw abv by auto
  moreover from this have "ys = inorder r"
    using x(6) append_Cons_eq_iff [OF d] by simp
  ultimately have "SPLAY_NEXT cmp s elm = Some ((elm, h), first_or_null ys)"
    using x(1-3,5) e splay_leftmost_ok [OF x(5)]
    by (cases "r = Leaf") (auto simp: SPLAY_NEXT_def spe_rd_def SPLAY_RIGHT_def srep_null first_of_inorder)
  then show thesis using that x(7,8) \<open>x = elm\<close> by blast
qed

lemma splay_foreach_from_ok:
  assumes cmp: "keyed cmp key"
  shows "splay_holds key s (xs @ ys) \<Longrightarrow> \<exists>root h. splay_foreach_from cmp s (first_or_null ys) = Some ((root, h), ys)
    \<and> splay_holds key (root, h) (xs @ ys) \<and> links_only (xs @ ys) (snd s) h"
proof (induction ys arbitrary: s xs)
  case Nil
  then show ?case by (cases s) (simp add: splay_foreach_from.simps)
next
  case (Cons y ys)
  obtain h where h: "SPLAY_NEXT cmp s y = Some ((y, h), first_or_null ys)" "links_only (xs @ y # ys) (snd s) h"
    "splay_holds key (y, h) (xs @ y # ys)" by (rule splay_next_ok [OF cmp Cons.prems])
  obtain root h' where h': "splay_foreach_from cmp (y, h) (first_or_null ys) = Some ((root, h'), ys)"
    "splay_holds key (root, h') (xs @ y # ys)" "links_only (xs @ y # ys) h h'"
    using Cons.IH [of "(y, h)" "xs @ [y]"] h(3) by auto
  have "y \<noteq> NULL" using splay_holds_alive [OF Cons.prems, of y] by simp
  then have "splay_foreach_from cmp s y = Some ((root, h'), y # ys)"
    using h(1) h'(1) by (simp add: splay_foreach_from.simps [of cmp s y])
  then show ?case using h'(2) links_only_trans [OF h(2) h'(3)] by auto
qed

lemma splay_min_max_ok:
  assumes s: "splay_holds key s as" "as \<noteq> []" and dir: "dir \<noteq> 0"
  obtains h where "SPLAY_MINMAX s dir = Some (if dir < 0 then hd as else last as, h)" "links_only as (snd s) h"
    "splay_holds key (if dir < 0 then hd as else last as, h) as"
proof -
  obtain h t where h: "SPLAY_MINMAX s dir = Some (if dir < 0 then hd as else last as, h)"
    "srep h (if dir < 0 then hd as else last as) t" "inorder t = as" "links_only as (snd s) h" by (rule minmax_ok [OF assms])
  moreover have "splay_holds key (if dir < 0 then hd as else last as, h) as"
    by (rule splay_holdsI [OF h(2-4)]) (use s(1) in \<open>simp add: splay_holds_def\<close>)
  ultimately show thesis using that by blast
qed

lemma splay_min_ok:
  assumes s: "splay_holds key s as"
  obtains root h where "SPLAY_MIN s = Some ((root, h), first_or_null as)" "links_only as (snd s) h" "splay_holds key (root, h) as"
proof (cases "as = []")
  case True
  then show thesis using that s splay_holds_null [OF s] by (cases s) (simp add: SPLAY_MIN_def SPLAY_EMPTY_def)
next
  case False
  obtain h where "SPLAY_MINMAX s (- 1) = Some (if (- 1 :: int) < 0 then hd as else last as, h)" "links_only as (snd s) h"
    "splay_holds key (if (- 1 :: int) < 0 then hd as else last as, h) as" by (rule splay_min_max_ok [OF s False, of "- 1"]) simp
  then have h: "SPLAY_MINMAX s (- 1) = Some (hd as, h)" "links_only as (snd s) h" "splay_holds key (hd as, h) as" by simp_all
  have "SPLAY_MIN s = Some ((hd as, h), first_or_null as)" using h(1) False splay_holds_null [OF s]
    by (simp add: SPLAY_MIN_def SPLAY_MIN_MAX_def SPLAY_EMPTY_def first_or_null_def split: list.splits)
  then show thesis using that h by blast
qed

lemma splay_max_ok:
  assumes s: "splay_holds key s as"
  obtains root h where "SPLAY_MAX s = Some ((root, h), last_or_null as)" "links_only as (snd s) h" "splay_holds key (root, h) as"
proof (cases "as = []")
  case True
  then show thesis using that s splay_holds_null [OF s] by (cases s) (simp add: SPLAY_MAX_def SPLAY_EMPTY_def)
next
  case False
  obtain h where "SPLAY_MINMAX s 1 = Some (if (1 :: int) < 0 then hd as else last as, h)" "links_only as (snd s) h"
    "splay_holds key (if (1 :: int) < 0 then hd as else last as, h) as" by (rule splay_min_max_ok [OF s False, of 1]) simp
  then have h: "SPLAY_MINMAX s 1 = Some (last as, h)" "links_only as (snd s) h" "splay_holds key (last as, h) as" by simp_all
  have "SPLAY_MAX s = Some ((last as, h), last_or_null as)" using h(1) False splay_holds_null [OF s]
    by (cases as rule: rev_cases) (simp_all add: SPLAY_MAX_def SPLAY_MIN_MAX_def SPLAY_EMPTY_def)
  then show thesis using that h by blast
qed

lemma splay_foreach_ok:
  assumes cmp: "keyed cmp key" and s: "splay_holds key s as"
  obtains root h where "SPLAY_FOREACH cmp s = Some ((root, h), as)" "links_only as (snd s) h" "splay_holds key (root, h) as"
proof -
  obtain root h where h: "SPLAY_MIN s = Some ((root, h), first_or_null as)" "links_only as (snd s) h" "splay_holds key (root, h) as"
    by (rule splay_min_ok [OF s])
  obtain root' h' where "splay_foreach_from cmp (root, h) (first_or_null as) = Some ((root', h'), as)"
    "splay_holds key (root', h') as" "links_only as h h'"
    using splay_foreach_from_ok [OF cmp, of "(root, h)" "[]" as] h(3) by auto
  then show thesis using that [of root' h'] h(1) links_only_trans [OF h(2)] by (simp add: SPLAY_FOREACH_def)
qed

section \<open>A tree of three nodes, and two others\<close>

definition num_node :: "addr \<Rightarrow> addr \<Rightarrow> int \<Rightarrow> int splay_entry_scheme" where
  "num_node l r k = splay_entry.extend \<lparr>spe_left = l, spe_right = r\<rparr> k"

definition num_cmp :: "int splay_cmp" where
  "num_cmp n m = splay_entry.more n - splay_entry.more m"

definition num_heap :: "int splay_heap" where
  "num_heap = [16 \<mapsto> num_node 0 0 1, 32 \<mapsto> num_node 16 0 3, 48 \<mapsto> num_node 32 0 5, 64 \<mapsto> num_node 0 0 4, 80 \<mapsto> num_node 0 0 3]"

lemma num_node_simps [simp]: "splay_entry.more (num_node l r k) = k" "spe_left (num_node l r k) = l" "spe_right (num_node l r k) = r"
  by (simp_all add: num_node_def splay_entry.extend_def)

lemma num_keyed: "keyed num_cmp id"
  by (simp add: keyed_def probes_def num_cmp_def)

lemma num_keys: "skey id num_heap 16 = 1" "skey id num_heap 32 = 3" "skey id num_heap 48 = 5" "skey id num_heap 64 = 4"
  "skey id num_heap 80 = 3"
  by (simp_all add: skey_def num_heap_def)

lemma num_holds: "splay_holds id (48, num_heap) [16, 32, 48]"
  unfolding splay_holds_def
  by (intro conjI exI [of _ "Node (Node (Node Leaf 16 Leaf) 32 Leaf) 48 Leaf"]) (simp_all add: num_keys, simp_all add: num_heap_def)

section \<open>The properties\<close>

text \<open>C35: \<open>SPLAY\<close> of a tree that is not empty ends, for any probe \<open>e\<close>; it reorders the tree around a root that splits
  the sequence at the key of the probe, without changing the sequence, anything but the links of the nodes, or any other
  node. When a node has the key of the probe, it is the root.\<close>

theorem splay_correct:
  assumes "keyed cmp key" and "splay_holds key s as" and "as \<noteq> []"
  shows "\<exists>x h xs ys. SPLAY cmp s e = Some (x, h) \<and> as = xs @ x # ys \<and> splay_holds key (x, h) as \<and> links_only as (snd s) h
    \<and> (\<forall>a \<in> set xs. skey key (snd s) a < key (splay_entry.more e)) \<and> (\<forall>a \<in> set ys. key (splay_entry.more e) < skey key (snd s) a)
    \<and> (\<forall>a \<in> set as. skey key (snd s) a = key (splay_entry.more e) \<longrightarrow> a = x)"
proof (rule splay_root [OF keyed_probes [OF assms(1)] assms(2,3), of e])
  fix x h n l r assume "SPLAY cmp s e = Some (x, h)" "as = inorder l @ x # inorder r" "splay_holds key (x, h) as" "links_only as (snd s) h"
    "\<forall>a \<in> set_tree l. skey key (snd s) a < key (splay_entry.more e)" "\<forall>a \<in> set_tree r. key (splay_entry.more e) < skey key (snd s) a"
  then show ?thesis by (intro exI [of _ x] exI [of _ h] exI [of _ "inorder l"] exI [of _ "inorder r"]) auto
qed

theorem splay_correct_witness:
  "\<exists>h. SPLAY num_cmp (48, num_heap) (num_node 0 0 1) = Some (16, h) \<and> splay_holds id (16, h) [16, 32, 48]"
proof -
  obtain x h xs ys where x: "SPLAY num_cmp (48, num_heap) (num_node 0 0 1) = Some (x, h)" "[16, 32, 48] = xs @ x # ys"
    "splay_holds id (x, h) [16, 32, 48]" "\<forall>a \<in> set xs. skey id num_heap a < 1" "\<forall>a \<in> set ys. 1 < skey id num_heap a"
    using splay_correct [OF num_keyed num_holds, of "num_node 0 0 1"] by auto
  have "x = 16" using x(2,4,5) by (cases xs) (auto simp: num_keys)
  then show ?thesis using x(1,3) by blast
qed

text \<open>C36: \<open>SPLAY_INSERT\<close> of a node whose key is new puts it into its place in the sequence, makes it the root, and
  returns \<open>NULL\<close>; when a node of the tree has the key, it returns that node, which is the root, and the sequence stays.\<close>

theorem splay_insert_correct:
  assumes "keyed cmp key" and "splay_holds key s as" and "snd s elm = Some e" and "elm \<noteq> NULL" and "elm \<notin> set as"
  shows "case find (\<lambda>a. skey key (snd s) a = skey key (snd s) elm) as of
     Some a \<Rightarrow> \<exists>h. SPLAY_INSERT cmp s elm = Some ((a, h), a) \<and> splay_holds key (a, h) as \<and> links_only (elm # as) (snd s) h \<and> h elm = Some e
   | None \<Rightarrow> \<exists>h. SPLAY_INSERT cmp s elm = Some ((elm, h), NULL) \<and> links_only (elm # as) (snd s) h
       \<and> splay_holds key (elm, h) (insort_key (skey key (snd s)) elm as)"
  by (rule splay_insert_cases [OF assms])

theorem splay_insert_correct_witness:
  "(\<exists>h. SPLAY_INSERT num_cmp (48, num_heap) 64 = Some ((64, h), NULL) \<and> splay_holds id (64, h) [16, 32, 64, 48])
   \<and> (\<exists>h. SPLAY_INSERT num_cmp (48, num_heap) 80 = Some ((32, h), 32))"
proof -
  have "num_heap 64 = Some (num_node 0 0 4)" "num_heap 80 = Some (num_node 0 0 3)" by (simp_all add: num_heap_def)
  then show ?thesis
    using splay_insert_correct [OF num_keyed num_holds, of 64] splay_insert_correct [OF num_keyed num_holds, of 80]
    by (auto simp: num_keys)
qed

text \<open>C37: \<open>SPLAY_REMOVE\<close> takes the node with the key of \<open>elm\<close> out of the sequence and leaves the others, in a tree;
  it returns \<open>elm\<close> itself, also when the node it took out is another one with the same key, and \<open>NULL\<close> when there is none.\<close>

theorem splay_remove_correct:
  assumes "keyed cmp key" and "splay_holds key s as" and "snd s elm = Some e" and "elm \<noteq> NULL"
  shows "\<exists>root h. SPLAY_REMOVE cmp s elm = Some ((root, h), if \<exists>a \<in> set as. skey key (snd s) a = skey key (snd s) elm then elm else NULL)
    \<and> links_only as (snd s) h \<and> splay_holds key (root, h) (filter (\<lambda>a. skey key (snd s) a \<noteq> skey key (snd s) elm) as)"
  by (rule splay_remove_ok [OF assms]) blast

theorem splay_remove_correct_witness:
  "(\<exists>root h. SPLAY_REMOVE num_cmp (48, num_heap) 80 = Some ((root, h), 80) \<and> splay_holds id (root, h) [16, 48])
   \<and> (\<exists>root h. SPLAY_REMOVE num_cmp (48, num_heap) 64 = Some ((root, h), NULL) \<and> splay_holds id (root, h) [16, 32, 48])"
proof -
  have "num_heap 64 = Some (num_node 0 0 4)" "num_heap 80 = Some (num_node 0 0 3)" by (simp_all add: num_heap_def)
  then show ?thesis
    using splay_remove_correct [OF num_keyed num_holds, of 64] splay_remove_correct [OF num_keyed num_holds, of 80]
    by (auto simp: num_keys)
qed

text \<open>C38: \<open>SPLAY_FIND\<close> returns the node with the key of the probe, and makes it the root, or \<open>NULL\<close> when there is none,
  also on the empty tree; the sequence stays.\<close>

theorem splay_find_correct:
  assumes "keyed cmp key" and "splay_holds key s as"
  shows "\<exists>root h. SPLAY_FIND cmp s e =
      Some ((root, h), case find (\<lambda>a. skey key (snd s) a = key (splay_entry.more e)) as of Some a \<Rightarrow> a | None \<Rightarrow> NULL)
    \<and> splay_holds key (root, h) as \<and> links_only as (snd s) h
    \<and> (\<forall>a \<in> set as. skey key (snd s) a = key (splay_entry.more e) \<longrightarrow> root = a)"
  by (rule splay_find_ok [OF keyed_probes [OF assms(1)] assms(2), of e]) blast

theorem splay_find_correct_witness:
  "(\<exists>h. SPLAY_FIND num_cmp (48, num_heap) (num_node 0 0 3) = Some ((32, h), 32))
   \<and> (\<exists>s. SPLAY_FIND num_cmp (48, num_heap) (num_node 0 0 4) = Some (s, NULL))"
  using splay_find_correct [OF num_keyed num_holds, of "num_node 0 0 3"]
    splay_find_correct [OF num_keyed num_holds, of "num_node 0 0 4"] by (auto simp: num_keys)

text \<open>C38: \<open>SPLAY_MIN\<close> and \<open>SPLAY_MAX\<close> return the ends of the sequence, \<open>SPLAY_NEXT\<close> of a node the one after it,
  \<open>NULL\<close> past the ends, and \<open>SPLAY_FOREACH\<close> visits the nodes in the order of their keys; all of them end, reorder the tree
  and keep the sequence. \<open>SPLAY_MINMAX\<close> with 0 for the direction never returns, whatever the tree.\<close>

theorem splay_walk_correct:
  assumes "keyed cmp key" and "splay_holds key s as"
  shows "(\<exists>r h. SPLAY_MIN s = Some ((r, h), first_or_null as) \<and> splay_holds key (r, h) as \<and> links_only as (snd s) h)
    \<and> (\<exists>r h. SPLAY_MAX s = Some ((r, h), last_or_null as) \<and> splay_holds key (r, h) as \<and> links_only as (snd s) h)
    \<and> (\<forall>xs elm ys. as = xs @ elm # ys \<longrightarrow> (\<exists>h. SPLAY_NEXT cmp s elm = Some ((elm, h), first_or_null ys)
        \<and> splay_holds key (elm, h) as \<and> links_only as (snd s) h))
    \<and> (\<exists>r h. SPLAY_FOREACH cmp s = Some ((r, h), as) \<and> splay_holds key (r, h) as \<and> links_only as (snd s) h)
    \<and> SPLAY_MINMAX s 0 = None"
proof (intro conjI)
  show "\<exists>r h. SPLAY_MIN s = Some ((r, h), first_or_null as) \<and> splay_holds key (r, h) as \<and> links_only as (snd s) h"
    by (rule splay_min_ok [OF assms(2)]) blast
  show "\<exists>r h. SPLAY_MAX s = Some ((r, h), last_or_null as) \<and> splay_holds key (r, h) as \<and> links_only as (snd s) h"
    by (rule splay_max_ok [OF assms(2)]) blast
  show "\<forall>xs elm ys. as = xs @ elm # ys \<longrightarrow> (\<exists>h. SPLAY_NEXT cmp s elm = Some ((elm, h), first_or_null ys)
      \<and> splay_holds key (elm, h) as \<and> links_only as (snd s) h)"
    using splay_next_ok [OF assms(1)] assms(2) by metis
  show "\<exists>r h. SPLAY_FOREACH cmp s = Some ((r, h), as) \<and> splay_holds key (r, h) as \<and> links_only as (snd s) h"
    by (rule splay_foreach_ok [OF assms]) blast
  show "SPLAY_MINMAX s 0 = None" by (simp add: SPLAY_MINMAX_def minmax_zero)
qed

theorem splay_walk_correct_witness:
  "(\<exists>s'. SPLAY_FOREACH num_cmp (48, num_heap) = Some (s', [16, 32, 48])) \<and> (\<exists>s'. SPLAY_MAX (48, num_heap) = Some (s', 48))
   \<and> (\<exists>h. SPLAY_NEXT num_cmp (48, num_heap) 16 = Some ((16, h), 32))"
proof -
  note w = splay_walk_correct [OF num_keyed num_holds]
  from w have "\<exists>h. SPLAY_NEXT num_cmp (48, num_heap) 16 = Some ((16, h), first_or_null [32, 48])"
    by (elim conjE, elim allE [of _ "[]"] allE [of _ 16] allE [of _ "[32, 48]"]) auto
  then show ?thesis using w by (auto simp: last_or_null_def)
qed

end
