(* ===== verification/Tag_Ops.thy ===== *)
theory Tag_Ops
  imports Tag_Store
begin

text \<open>
  The functions the store exports, on the abstract store: \<open>tag_tree_init\<close>, \<open>tag_tree_insert\<close>,
  \<open>tag_tree_remove\<close> and \<open>tag_tree_lookup\<close>. The first call of any of them defines the tags of
  \<^verbatim>\<open>tags.inc\<close>, so before it the store already counts as holding them.
\<close>

section \<open>The store between calls\<close>

text \<open>A tag of \<^verbatim>\<open>tags.inc\<close>: its first byte is the value, the others stay \<open>0x42\<close>.\<close>

definition defined_tag :: "string \<times> tag_type_e \<times> byte \<Rightarrow> tag" where
  "defined_tag = (\<lambda>(x, e, v). (new_tag x (Simple e) None)\<lparr>t_data := (t_data (new_tag x (Simple e) None))[0 := v]\<rparr>)"

fun add_tags :: "int \<Rightarrow> (string \<times> tag_type_e \<times> byte) list \<Rightarrow> store \<Rightarrow> store" where
  "add_tags i [] T = T"
| "add_tags i (d # ds) T = add_tags (i + 1) ds (T(i \<mapsto> defined_tag d))"

definition default_store :: store where
  "default_store = add_tags 2 tags_inc Map.empty"

text \<open>The state of the library before its first call.\<close>

definition start_lib :: "mem \<Rightarrow> nat \<Rightarrow> (nat \<Rightarrow> byte) \<Rightarrow> lib" where
  "start_lib m me junk = \<lparr>tags_root = NULL, tags_heap = Map.empty, tree_size = 0, tag_tree_inited = False,
     tag_tree_mtx = RW_free, self = me, types = m, dirt = junk, events = []\<rparr>"

definition api_store :: "lib \<Rightarrow> store \<Rightarrow> bool" where
  "api_store s T \<longleftrightarrow> tag_tree_mtx s = RW_free
     \<and> (if tag_tree_inited s then store_is s T else store_is s Map.empty \<and> T = default_store)"

text \<open>The allocations initialisation still needs.\<close>

definition init_cost :: "lib \<Rightarrow> nat" where
  "init_cost s = (if tag_tree_inited s then 0 else 30)"

text \<open>What every function keeps.\<close>

definition keeps :: "lib \<Rightarrow> lib \<Rightarrow> bool" where
  "keeps s s' \<longleftrightarrow> self s' = self s \<and> dirt s' = dirt s \<and> events s' = events s
     \<and> objs (types s) \<subseteq>\<^sub>m objs (types s') \<and> stack (types s') = stack (types s)"

lemma keeps_refl [simp]: "keeps s s"
  by (simp add: keeps_def)

lemma keeps_trans: "keeps s s' \<Longrightarrow> keeps s' s'' \<Longrightarrow> keeps s s''"
  by (auto simp: keeps_def intro: map_le_trans)

lemma env_keeps: "env s s' \<Longrightarrow> keeps s s'"
  by (simp add: env_def keeps_def)

lemma keeps_denotes: "keeps s s' \<Longrightarrow> denotes (objs (types s)) p ty \<Longrightarrow> denotes (objs (types s')) p ty"
  using denotes_mono(1) by (auto simp: keeps_def)

lemma empty_in_tree: "tags_root s = NULL \<Longrightarrow> in_tree s []"
  unfolding in_tree_def rb_holds_def
  by (rule exI [of _ Tip]) (simp add: rb_rep_def tree_def)

lemma start_store: "2 \<le> stack m \<Longrightarrow> api_store (start_lib m me junk) default_store"
proof -
  assume "2 \<le> stack m"
  moreover have "in_tree (start_lib m me junk) []" by (rule empty_in_tree) (simp add: start_lib_def)
  ultimately have "store_is (start_lib m me junk) Map.empty"
    unfolding store_but_def by (intro conjI exI [of _ "[]"]) (simp_all add: start_lib_def)
  then show ?thesis by (simp add: api_store_def) (simp add: start_lib_def)
qed

lemma alloc_ready_add: "alloc_ready (a + n) s \<Longrightarrow> alloc_ready a s"
  unfolding alloc_ready_def using malloc_ready_add by (auto simp: take_add)

lemma alloc_ready_le: "alloc_ready n s \<Longrightarrow> a \<le> n \<Longrightarrow> alloc_ready a s"
  using alloc_ready_add by (metis le_Suc_ex)

section \<open>Initialisation\<close>

lemma define_scalar_spec:
  assumes st: "store_is s T" and T1: "T 1 = None" and i: "fresh_id T < 2 ^ 31" and ready: "alloc_ready 3 s"
    and e: "1 \<le> enum_value e" "enum_value e \<le> 6"
  shows "\<exists>s'. DEFINE_SCALAR (x, e, v) s = Inr s' \<and> store_is s' (T(fresh_id T \<mapsto> defined_tag (x, e, v)))
    \<and> env s s' \<and> consumes 3 s s' \<and> tree_size s' = tree_size s + 1"
proof -
  let ?i = "fresh_id T" and ?n = "\<lambda>me. new_tag x (Simple e) me"
  have p: "type_new_simple e = SIMPLE_TYPE e" using e by (simp add: type_new_simple_def)
  have stk: "2 \<le> stack (types s)" using st by (simp add: store_but_def)
  have c: "case tag_tree_node_create (CStr x) (SIMPLE_TYPE e) s of
     Inl e' \<Rightarrow> create_stops e' s T (Simple e)
   | Inr (a, s') \<Rightarrow> fresh_id T < 2 ^ 31 \<and> \<not> locked T 1 \<and> env s s'
       \<and> store_is s' (T(1 := None, fresh_id T \<mapsto> new_tag x (Simple e) (Some (self s)))) \<and> points s' a (fresh_id T)
       \<and> tree_size s' = tree_size s + 1 - (if T 1 = None then 0 else 1) \<and> consumes (3 + blocks (Simple e)) s s'
       \<and> kept {} s s' \<and> a \<notin> {}"
    by (rule node_create_spec [OF st]) (use e stk in simp_all)
  have "e \<noteq> TAG_ERROR" using e(1) by auto
  then have "\<not> create_stops e' s T (Simple e)" for e'
    using ready i T1 by (simp add: create_stops_def locked_def)
  then obtain a s1 where s1: "tag_tree_node_create (CStr x) (SIMPLE_TYPE e) s = Inr (a, s1)" "env s s1"
    "store_is s1 (T(1 := None, ?i \<mapsto> ?n (Some (self s))))" "points s1 a ?i" "tree_size s1 = tree_size s + 1"
    "consumes 3 s s1" using c T1 by (cases "tag_tree_node_create (CStr x) (SIMPLE_TYPE e) s") auto
  have T1': "T(1 := None) = T" using T1 by auto
  let ?t = "(?n (Some (self s)))\<lparr>t_data := (t_data (?n (Some (self s))))[0 := v]\<rparr>"
  define s2 where "s2 = s1\<lparr>tags_heap := (tags_heap s1)(a \<mapsto> (the (tags_heap s1 a))
      \<lparr>data := (data (the (tags_heap s1 a)))[0 := v]\<rparr>)\<rparr>"
  have s2: "upd_node a (\<lambda>n. n\<lparr>data := (data n)[0 := v]\<rparr>) s1 = Inr s2" "store_is s2 (T(?i \<mapsto> ?t))" "points s2 a ?i"
    using store_upd [OF s1(3) _ s1(4), of "?n (Some (self s))" "\<lambda>n. n\<lparr>data := (data n)[0 := v]\<rparr>" ?t] T1'
    by (auto simp: node_is_def sized_def s2_def)
  have me: "self s2 = self s" using s1(2) by (simp add: s2_def env_def)
  note u = mtx_unlock_spec [OF s2(2) _ s2(3), of ?t]
  define s3 where "s3 = s2\<lparr>tags_heap := (tags_heap s2)(a \<mapsto> (the (tags_heap s2 a))\<lparr>mtx := None\<rparr>)\<rparr>"
  have "MTX_UNLOCK a s2 = Inr s3" "store_is s3 (T(?i \<mapsto> ?t\<lparr>t_mtx := None\<rparr>))"
    using u me by (simp_all add: s3_def Let_def new_tag_def)
  moreover have "?t\<lparr>t_mtx := None\<rparr> = defined_tag (x, e, v)" by (simp add: defined_tag_def new_tag_def)
  moreover have "env s s3" using s1(2) by (simp add: s3_def s2_def env_def)
  moreover have "consumes 3 s s3"
  proof -
    have "a \<in> dom (tags_heap s1)" using s1(4) by (auto simp: points_def)
    then have "consumes 0 s1 s3" by (intro consumes_none) (auto simp: s3_def s2_def)
    from consumes_trans [OF s1(6) this] show ?thesis by simp
  qed
  ultimately show ?thesis using s1(1,5) s2(1) by (simp add: DEFINE_SCALAR_def p s3_def s2_def)
qed

lemma fresh_id_next: "store_but E s T \<Longrightarrow> fresh_id (T(fresh_id T \<mapsto> t)) = fresh_id T + 1"
proof -
  assume st: "store_but E s T"
  have "Max (insert 1 (dom (T(fresh_id T \<mapsto> t)))) = fresh_id T"
  proof (rule Max_eqI)
    show "finite (insert 1 (dom (T(fresh_id T \<mapsto> t))))" using store_finite [OF st] by simp
    show "fresh_id T \<in> insert 1 (dom (T(fresh_id T \<mapsto> t)))" by simp
    show "\<And>j. j \<in> insert 1 (dom (T(fresh_id T \<mapsto> t))) \<Longrightarrow> j \<le> fresh_id T"
      using fresh_id_above [OF st] fresh_id_ge [OF st] by (auto intro: less_imp_le)
  qed
  then show ?thesis by (simp add: fresh_id_def)
qed

lemma define_tags_spec:
  "store_is s T \<Longrightarrow> T 1 = None \<Longrightarrow> fresh_id T = i \<Longrightarrow> i + int (length ds) \<le> 2 ^ 31 \<Longrightarrow>
     alloc_ready (3 * length ds) s \<Longrightarrow> \<forall>(x, e, v) \<in> set ds. 1 \<le> enum_value e \<and> enum_value e \<le> 6 \<Longrightarrow>
   \<exists>s'. define_tags ds s = Inr s' \<and> store_is s' (add_tags i ds T) \<and> env s s' \<and> consumes (3 * length ds) s s'
     \<and> tree_size s' = tree_size s + of_nat (length ds)"
proof (induction ds arbitrary: s T i)
  case Nil
  then show ?case by (simp add: consumes_none)
next
  case (Cons d ds)
  obtain x e v where d: "d = (x, e, v)" by (cases d)
  have r: "alloc_ready (3 + 3 * length ds) s" using Cons.prems(5) by simp
  have "fresh_id T < 2 ^ 31" using Cons.prems(3,4) by simp
  then obtain s1 where s1: "DEFINE_SCALAR d s = Inr s1" "store_is s1 (T(i \<mapsto> defined_tag d))" "env s s1"
    "consumes 3 s s1" "tree_size s1 = tree_size s + 1"
    using define_scalar_spec [OF Cons.prems(1,2) _ alloc_ready_add [OF r], of e x v] Cons.prems(3,6) d by auto
  have "\<exists>s'. define_tags ds s1 = Inr s' \<and> store_is s' (add_tags (i + 1) ds (T(i \<mapsto> defined_tag d))) \<and> env s1 s'
     \<and> consumes (3 * length ds) s1 s' \<and> tree_size s' = tree_size s1 + of_nat (length ds)"
  proof (rule Cons.IH [OF s1(2)])
    show "(T(i \<mapsto> defined_tag d)) 1 = None" using Cons.prems(2,3) fresh_id_ge [OF Cons.prems(1)] by auto
    show "fresh_id (T(i \<mapsto> defined_tag d)) = i + 1" using fresh_id_next [OF Cons.prems(1)] Cons.prems(3) by auto
    show "i + 1 + int (length ds) \<le> 2 ^ 31" using Cons.prems(4) by simp
    show "alloc_ready (3 * length ds) s1" by (rule consumes_ready [OF s1(4) r])
    show "\<forall>(x, e, v) \<in> set ds. 1 \<le> enum_value e \<and> enum_value e \<le> 6" using Cons.prems(6) by auto
  qed
  then obtain s' where "define_tags ds s1 = Inr s'" "store_is s' (add_tags (i + 1) ds (T(i \<mapsto> defined_tag d)))"
    "env s1 s'" "consumes (3 * length ds) s1 s'" "tree_size s' = tree_size s1 + of_nat (length ds)" by blast
  then show ?case using s1 env_trans consumes_trans [OF s1(4)] by (auto simp: add.assoc)
qed

lemma rw_write_unlock: "tag_tree_mtx s = RW_write \<Longrightarrow> RW_UNLOCK s = Inr (s\<lparr>tag_tree_mtx := RW_free\<rparr>)"
  by (simp add: RW_UNLOCK_def)

lemma rw_read_unlock: "tag_tree_mtx s = RW_read 1 \<Longrightarrow> RW_UNLOCK s = Inr (s\<lparr>tag_tree_mtx := RW_free\<rparr>)"
  by (simp add: RW_UNLOCK_def)

lemma rw_same: "tag_tree_mtx s = x \<Longrightarrow> s\<lparr>tag_tree_mtx := x\<rparr> = s" for s :: lib
  by (cases s) simp

lemma init_spec:
  assumes st: "api_store s T" and ready: "alloc_ready (init_cost s + n) s"
  shows "\<exists>s'. tag_tree_init s = Inr s' \<and> tag_tree_inited s' \<and> tag_tree_mtx s' = RW_free \<and> store_is s' T
    \<and> keeps s s' \<and> alloc_ready n s' \<and> tree_size s' = tree_size s + (if tag_tree_inited s then 0 else 10)"
proof (cases "tag_tree_inited s")
  case True
  then show ?thesis using st ready
    by (intro exI [of _ s]) (simp add: tag_tree_init_def RW_RDLOCK_def rw_read_unlock rw_same api_store_def init_cost_def)
next
  case False
  define s1 where "s1 = s\<lparr>tag_tree_mtx := RW_write, tag_tree_inited := True\<rparr>"
  have free: "tag_tree_mtx s = RW_free" and T: "T = default_store" and s0: "store_is s Map.empty"
    using st False by (simp_all add: api_store_def)
  have "tag_tree_init s = bindE (define_tags tags_inc s1) RW_UNLOCK"
    using free False
    by (simp add: tag_tree_init_def RW_RDLOCK_def RW_UNLOCK_def RW_WRLOCK_def s1_def)
  moreover have c: "alloc_ready (30 + n) s1" using ready False by (simp add: s1_def init_cost_def alloc_ready_def)
  have st1: "store_is s1 Map.empty" using s0 by (simp add: s1_def)
  have "alloc_ready (3 * length tags_inc) s1" using alloc_ready_add [OF c] by (simp add: tags_inc_def)
  then obtain s2 where s2: "define_tags tags_inc s1 = Inr s2" "store_is s2 (add_tags 2 tags_inc Map.empty)" "env s1 s2"
    "consumes (3 * length tags_inc) s1 s2" "tree_size s2 = tree_size s1 + of_nat (length tags_inc)"
    using define_tags_spec [OF st1 _ _ _ _, of 2 tags_inc] by (auto simp: fresh_id_def tags_inc_def)
  have "RW_UNLOCK s2 = Inr (s2\<lparr>tag_tree_mtx := RW_free\<rparr>)" using s2(3) by (intro rw_write_unlock) (simp add: env_def s1_def)
  moreover have "alloc_ready n s2" using consumes_ready [OF s2(4)] c by (simp add: tags_inc_def)
  moreover have "of_nat (length tags_inc) = (10 :: size_t)" by (simp add: tags_inc_def)
  ultimately show ?thesis using s2 T False
    by (auto simp: default_store_def keeps_def env_def s1_def alloc_ready_def)
qed

section \<open>Lookup\<close>

text \<open>Looking up the metatag when there is none creates it.\<close>

definition looked_up :: "store \<Rightarrow> (nat \<Rightarrow> byte) \<Rightarrow> int \<Rightarrow> store" where
  "looked_up T junk i = (if i = 1 \<and> T 1 = None then T(1 \<mapsto> metatag T junk) else T)"

lemma sint_eq_1: "sint (i :: c_int) = 1 \<longleftrightarrow> i = METATAG_ID"
  by (metis signed_word_eqI sint_1)

lemma lookup_inited:
  assumes st: "store_is s T" and free: "tag_tree_mtx s = RW_free" and init: "tag_tree_inited s"
    and ready: "i = METATAG_ID \<and> T 1 = None \<Longrightarrow> alloc_ready (4 + n) s \<and> names_total T < 2 ^ 64"
  shows "\<exists>a s'. tag_tree_lookup i s = Inr (a, s') \<and> api_store s' (looked_up T (dirt s) (sint i)) \<and> tag_tree_inited s'
    \<and> keeps s s' \<and> (if looked_up T (dirt s) (sint i) (sint i) = None then a = NULL else points s' a (sint i))
    \<and> (i = METATAG_ID \<and> T 1 = None \<longrightarrow> alloc_ready n s')
    \<and> (\<not> (i = METATAG_ID \<and> T 1 = None) \<longrightarrow> s' = s)"
proof -
  have initialised: "tag_tree_init s = Inr s"
    using free init by (simp add: tag_tree_init_def RW_RDLOCK_def rw_read_unlock rw_same)
  define s1 where "s1 = s\<lparr>tag_tree_mtx := (if i = METATAG_ID then RW_write else RW_read 1)\<rparr>"
  have lock: "(if i = METATAG_ID then RW_WRLOCK s else RW_RDLOCK s) = Inr s1"
    using free by (simp add: RW_WRLOCK_def RW_RDLOCK_def s1_def)
  have st1: "store_is s1 T" using st by (simp add: s1_def)
  have unlock: "RW_UNLOCK s2 = Inr (s2\<lparr>tag_tree_mtx := RW_free\<rparr>)" if "tag_tree_mtx s2 = tag_tree_mtx s1" for s2
    using that by (simp add: RW_UNLOCK_def s1_def)
  have same: "s1\<lparr>tag_tree_mtx := RW_free\<rparr> = s" using rw_same [OF free] by (simp add: s1_def)
  note f = store_find [OF st1, of i]
  show ?thesis
  proof (cases "T (sint i)")
    case (Some t)
    then obtain a where a: "tag_tree_find i s1 = Inr a" "points s1 a (sint i)" using f by auto
    then have "tag_tree_lookup i s = Inr (a, s)"
      using unlock [of s1] same by (simp add: tag_tree_lookup_def initialised lock points_def)
    moreover have "points s a (sint i)" using a(2) by (simp add: s1_def)
    moreover have "looked_up T (dirt s) (sint i) = T" using Some by (auto simp: looked_up_def)
    moreover have "\<not> (i = METATAG_ID \<and> T 1 = None)" using Some by auto
    ultimately show ?thesis using Some st free init by (auto simp: api_store_def)
  next
    case None
    then have a: "tag_tree_find i s1 = Inr NULL" using f by auto
    show ?thesis
    proof (cases "i = METATAG_ID")
      case False
      then have "tag_tree_lookup i s = Inr (NULL, s)"
        using a unlock [of s1] same lock by (simp add: tag_tree_lookup_def initialised)
      moreover have "looked_up T (dirt s) (sint i) = T" using False sint_eq_1 [of i] by (auto simp: looked_up_def)
      ultimately show ?thesis using None st free init False by (simp add: api_store_def)
    next
      case True
      then have T1: "T 1 = None" using None by simp
      have r: "alloc_ready (4 + n) s1" "names_total T < 2 ^ 64" "dirt s1 = dirt s"
        using ready True T1 by (simp_all add: s1_def alloc_ready_def)
      obtain b s2 where m: "tag_tree_metanode_create s1 = Inr (b, s2)" "store_is s2 (T(1 \<mapsto> metatag T (dirt s)))"
        "points s2 b 1" "env s1 s2" "consumes 4 s1 s2"
        using metanode_create_spec [OF st1 r(2) alloc_ready_add [OF r(1)]] T1 r(3) by (auto simp: locked_def)
      have "tag_tree_lookup i s = Inr (b, s2\<lparr>tag_tree_mtx := RW_free\<rparr>)"
        using a True m(1) unlock [of s2] m(4) lock by (simp add: tag_tree_lookup_def initialised env_def)
      moreover have "alloc_ready n s2" by (rule consumes_ready [OF m(5) r(1)])
      ultimately show ?thesis using m T1 True init
        by (auto simp: api_store_def looked_up_def keeps_def env_def s1_def alloc_ready_def)
    qed
  qed
qed

text \<open>What any lookup may need: initialisation and the metatag.\<close>

definition lookup_ready :: "nat \<Rightarrow> lib \<Rightarrow> store \<Rightarrow> bool" where
  "lookup_ready n s T \<longleftrightarrow> alloc_ready (init_cost s + (4 + n)) s \<and> names_total T < 2 ^ 64"

lemma lookup_spec:
  assumes st: "api_store s T" and ready: "lookup_ready n s T"
  shows "\<exists>a s'. tag_tree_lookup i s = Inr (a, s') \<and> api_store s' (looked_up T (dirt s) (sint i)) \<and> tag_tree_inited s'
    \<and> keeps s s' \<and> (if looked_up T (dirt s) (sint i) (sint i) = None then a = NULL else points s' a (sint i))
    \<and> alloc_ready n s'"
proof -
  obtain s1 where s1: "tag_tree_init s = Inr s1" "tag_tree_inited s1" "tag_tree_mtx s1 = RW_free" "store_is s1 T"
    "keeps s s1" "alloc_ready (4 + n) s1"
    using init_spec [OF st, of "4 + n"] ready by (auto simp: lookup_ready_def)
  have "tag_tree_init s1 = Inr s1"
    using s1(2,3) by (simp add: tag_tree_init_def RW_RDLOCK_def rw_read_unlock rw_same)
  then have eq: "tag_tree_lookup i s = tag_tree_lookup i s1" using s1(1) by (simp add: tag_tree_lookup_def)
  have "dirt s1 = dirt s" using s1(5) by (simp add: keeps_def)
  moreover have "alloc_ready n s1" using alloc_ready_le [OF s1(6)] by simp
  ultimately show ?thesis
    using lookup_inited [OF s1(4,3,2), of i n] s1(6) ready keeps_trans [OF s1(5)] eq
    by (fastforce simp: lookup_ready_def)
qed

section \<open>Insertion\<close>

lemma insert_new_spec:
  assumes st: "api_store s T" and ready: "alloc_ready (init_cost s + (3 + blocks ty + n)) s" and x: "x \<noteq> ''@tags''"
    and ty: "struct_free ty" "denotes (objs (types s)) p ty" "ty_depth ty \<le> stack (types s)" "ty \<noteq> Simple TAG_ERROR"
  shows "if 2 ^ 31 \<le> fresh_id T then tag_tree_insert (CStr x) p s = Inl (Undef SignedOverflow)
    else if locked T 1 then tag_tree_insert (CStr x) p s = Inl Blocked
    else \<exists>s'. tag_tree_insert (CStr x) p s = Inr (word_of_int (fresh_id T), s') \<and> tag_tree_inited s' \<and> keeps s s'
      \<and> api_store s' (T(1 := None, fresh_id T \<mapsto> new_tag x ty None)) \<and> alloc_ready n s'"
proof -
  let ?i = "fresh_id T"
  obtain s1 where s1: "tag_tree_init s = Inr s1" "tag_tree_inited s1" "tag_tree_mtx s1 = RW_free" "store_is s1 T"
    "keeps s s1" "alloc_ready (3 + blocks ty + n) s1" using init_spec [OF st ready] by blast
  define s2 where "s2 = s1\<lparr>tag_tree_mtx := RW_write\<rparr>"
  have st2: "store_is s2 T" using s1(4) by (simp add: s2_def)
  have d2: "denotes (objs (types s2)) p ty" "ty_depth ty \<le> stack (types s2)"
    using keeps_denotes [OF s1(5) ty(2)] ty(3) s1(5) by (simp_all add: s2_def keeps_def)
  have r2: "alloc_ready (3 + blocks ty + n) s2" using s1(6) by (simp add: s2_def alloc_ready_def)
  note r3 = alloc_ready_add [OF r2]
  note c = node_create_spec [OF st2 ty(1) d2, of x]
  have go: "tag_tree_insert (CStr x) p s =
     bindE (bindE (tag_tree_node_create (CStr x) p s2) (\<lambda>(tag, s).
     bindE (MTX_UNLOCK tag s) (\<lambda>s. bindE (get_node s tag) (\<lambda>n. Inr (tag_id n, s))))) (\<lambda>(ret, s).
     bindE (RW_UNLOCK s) (\<lambda>s. Inr (ret, s)))"
    using s1(1,3) x by (simp add: tag_tree_insert_def RW_WRLOCK_def s2_def is_metatag_name_def strlen_def)
  show ?thesis
  proof (cases "tag_tree_node_create (CStr x) p s2")
    case (Inl e)
    then have "create_stops e s2 T ty" using c by simp
    then consider "e = Undef SignedOverflow" "2 ^ 31 \<le> ?i" | "e = Blocked" "locked T 1"
      using r3 ty(4) by (auto simp: create_stops_def)
    then show ?thesis
    proof cases
      case 1
      then show ?thesis using go Inl by simp
    next
      case 2
      have "?i < 2 ^ 31"
      proof (rule ccontr)
        assume "\<not> ?i < 2 ^ 31"
        then have "next_id s2 = Inl (Undef SignedOverflow)" using next_id_spec [OF st2] by simp
        moreover have "\<exists>sz. type_size_bytes (types s2) p = Inr sz"
          using type_size_at_refine [OF d2] by (simp add: type_size_bytes_def)
        ultimately have "tag_tree_node_create (CStr x) p s2 = Inl (Undef SignedOverflow)"
          by (auto simp: tag_tree_node_create_def Let_def)
        with Inl 2(1) show False by simp
      qed
      then show ?thesis using go Inl 2 by simp
    qed
  next
    case (Inr y)
    then obtain a s3 where s3: "tag_tree_node_create (CStr x) p s2 = Inr (a, s3)" "?i < 2 ^ 31" "\<not> locked T 1" "env s2 s3"
      "store_is s3 (T(1 := None, ?i \<mapsto> new_tag x ty (Some (self s2))))" "points s3 a ?i"
      "consumes (3 + blocks ty) s2 s3" using c by (cases y) auto
    have me: "self s3 = self s2" using s3(4) by (simp add: env_def)
    note u = mtx_unlock_spec [OF s3(5) _ s3(6), of "new_tag x ty (Some (self s2))"]
    define s4 where "s4 = s3\<lparr>tags_heap := (tags_heap s3)(a \<mapsto> (the (tags_heap s3 a))\<lparr>mtx := None\<rparr>)\<rparr>"
    have s4: "MTX_UNLOCK a s3 = Inr s4" "store_is s4 (T(1 := None, ?i \<mapsto> new_tag x ty None))" "points s4 a ?i"
      using u me by (simp_all add: s4_def Let_def new_tag_def)
    then obtain k where k: "get_node s4 a = Inr k" "sint (tag_id k) = ?i" by (auto simp: points_def get_node_def)
    then have "tag_id k = word_of_int ?i" using k(2) [symmetric] by simp
    moreover have "RW_UNLOCK s4 = Inr (s4\<lparr>tag_tree_mtx := RW_free\<rparr>)"
      using s3(4) by (intro rw_write_unlock) (simp add: s4_def env_def s2_def)
    ultimately have "tag_tree_insert (CStr x) p s = Inr (word_of_int ?i, s4\<lparr>tag_tree_mtx := RW_free\<rparr>)"
      using go s3(1) s4(1) k(1) by simp
    moreover have "keeps s s4" "tag_tree_inited s4"
      using s3(4) s1(2) keeps_trans [OF s1(5), of s4] by (simp_all add: s4_def s2_def env_def keeps_def)
    moreover have "alloc_ready n s3" by (rule consumes_ready [OF s3(7) r2])
    then have "alloc_ready n s4" using s3(6) by (auto simp: alloc_ready_def s4_def points_def)
    ultimately show ?thesis using s3(2,3) s4(2) by (simp add: api_store_def keeps_def alloc_ready_def)
  qed
qed

lemma insert_metatag_spec:
  assumes st: "api_store s T" and ready: "lookup_ready n s T"
  shows "if locked T 1 then tag_tree_insert (CStr ''@tags'') p s = Inl Blocked
    else \<exists>s'. tag_tree_insert (CStr ''@tags'') p s = Inr (METATAG_ID, s') \<and> tag_tree_inited s' \<and> keeps s s'
      \<and> api_store s' (T(1 \<mapsto> metatag T (dirt s))) \<and> alloc_ready n s'
      \<and> tree_size s' = tree_size s + (if tag_tree_inited s then 0 else 10) - (if T 1 = None then 0 else 1)"
proof -
  obtain s1 where s1: "tag_tree_init s = Inr s1" "tag_tree_inited s1" "tag_tree_mtx s1 = RW_free" "store_is s1 T"
    "keeps s s1" "alloc_ready (4 + n) s1" "tree_size s1 = tree_size s + (if tag_tree_inited s then 0 else 10)" using init_spec [OF st] ready unfolding lookup_ready_def by blast
  define s2 where "s2 = s1\<lparr>tag_tree_mtx := RW_write\<rparr>"
  have r2: "alloc_ready (4 + n) s2" using s1(6) by (simp add: s2_def alloc_ready_def)
  have st2: "store_is s2 T" and r: "alloc_ready 4 s2" "dirt s2 = dirt s" "names_total T < 2 ^ 64"
    using s1(4,5) alloc_ready_add [OF s1(6)] ready by (simp_all add: s2_def alloc_ready_def keeps_def lookup_ready_def)
  note c = metanode_create_spec [OF st2 r(3,1)]
  have go: "tag_tree_insert (CStr ''@tags'') p s =
     bindE (bindE (tag_tree_metanode_create s2) (\<lambda>(tag, s).
     bindE (get_node s tag) (\<lambda>n. Inr (tag_id n, s)))) (\<lambda>(ret, s).
     bindE (RW_UNLOCK s) (\<lambda>s. Inr (ret, s)))"
    using s1(1,3) by (simp add: tag_tree_insert_def RW_WRLOCK_def s2_def is_metatag_name_def strlen_def)
  show ?thesis
  proof (cases "locked T 1")
    case True
    then show ?thesis using c go by simp
  next
    case False
    then obtain a s3 where s3: "tag_tree_metanode_create s2 = Inr (a, s3)" "store_is s3 (T(1 \<mapsto> metatag T (dirt s)))"
      "points s3 a 1" "env s2 s3" "consumes 4 s2 s3" "tree_size s3 = tree_size s2 - (if T 1 = None then 0 else 1)"
      using c r(2) by auto
    then obtain k where k: "get_node s3 a = Inr k" "sint (tag_id k) = 1" by (auto simp: points_def get_node_def)
    then have "tag_id k = METATAG_ID" using sint_eq_1 by blast
    moreover have "RW_UNLOCK s3 = Inr (s3\<lparr>tag_tree_mtx := RW_free\<rparr>)"
      using s3(4) by (intro rw_write_unlock) (simp add: env_def s2_def)
    ultimately have "tag_tree_insert (CStr ''@tags'') p s = Inr (METATAG_ID, s3\<lparr>tag_tree_mtx := RW_free\<rparr>)"
      using go s3(1) k(1) by simp
    moreover have "keeps s s3" "tag_tree_inited s3"
      using s3(4) s1(2) keeps_trans [OF s1(5), of s3] by (simp_all add: s2_def env_def keeps_def)
    moreover have "alloc_ready n s3" by (rule consumes_ready [OF s3(5) r2])
    moreover have "tree_size s2 = tree_size s1" by (simp add: s2_def)
    ultimately show ?thesis using False s3(2,6) s1(7) by (simp add: api_store_def keeps_def alloc_ready_def)
  qed
qed

section \<open>Removal\<close>

lemma remove_spec:
  assumes st: "api_store s T" and ready: "alloc_ready (init_cost s + n) s" and i: "i \<noteq> METATAG_ID"
  shows "case T (sint i) of
     None \<Rightarrow> \<exists>s'. tag_tree_remove i s = Inr (PLCTAG_ERR_NOT_FOUND, s') \<and> api_store s' T \<and> keeps s s'
       \<and> tag_tree_inited s' \<and> alloc_ready n s'
   | Some t \<Rightarrow> if t_mtx t \<noteq> None then tag_tree_remove i s = Inl Blocked
       else \<exists>s'. tag_tree_remove i s = Inr (PLCTAG_STATUS_OK, s') \<and> api_store s' (T(sint i := None)) \<and> keeps s s'
         \<and> tag_tree_inited s' \<and> alloc_ready n s'"
proof -
  obtain s1 where s1: "tag_tree_init s = Inr s1" "tag_tree_inited s1" "tag_tree_mtx s1 = RW_free" "store_is s1 T"
    "keeps s s1" "alloc_ready n s1" using init_spec [OF st ready] by blast
  define s2 where "s2 = s1\<lparr>tag_tree_mtx := RW_write\<rparr>"
  have st2: "store_is s2 T" using s1(4) by (simp add: s2_def)
  note go = tag_tree_remove_def s1(1) i RW_WRLOCK_def s1(3) s2_def [symmetric]
  note f = store_find [OF st2, of i]
  show ?thesis
  proof (cases "T (sint i)")
    case None
    then have "tag_tree_remove i s = Inr (PLCTAG_ERR_NOT_FOUND, s2\<lparr>tag_tree_mtx := RW_free\<rparr>)"
      using f rw_write_unlock [of s2] by (simp add: go) (simp add: s2_def)
    then show ?thesis using None s1 by (simp add: s2_def api_store_def keeps_def alloc_ready_def)
  next
    case (Some t)
    then obtain a k where a: "tag_tree_find i s2 = Inr a" "points s2 a (sint i)" "tags_heap s2 a = Some k" "a \<noteq> NULL"
      using f by (auto simp: points_def)
    note l = mtx_lock_spec [OF st2 Some a(2)]
    show ?thesis
    proof (cases "t_mtx t")
      case (Some o')
      then show ?thesis using \<open>T (sint i) = Some t\<close> l a(1,4) by (simp add: go)
    next
      case None
      define s3 where "s3 = s2\<lparr>tags_heap := (tags_heap s2)(a \<mapsto> (the (tags_heap s2 a))\<lparr>mtx := Some (self s2)\<rparr>)\<rparr>"
      let ?t = "t\<lparr>t_mtx := Some (self s2)\<rparr>"
      have s3: "MTX_LOCK a s2 = Inr s3" "store_is s3 (T(sint i \<mapsto> ?t))" "points s3 a (sint i)"
        using l None by (simp_all add: s3_def Let_def)
      obtain s4 n4 where s4: "tag_tree_unlink a s3 = Inr s4" "relinked s3 s4"
        "store_but {a} s4 ((T(sint i \<mapsto> ?t))(sint i := None))" "tags_heap s4 a = Some n4" "node_is (types s3) n4 ?t"
        using store_unlink [OF s3(2) _ s3(3), of ?t] by auto
      define s5 where "s5 = s4\<lparr>tree_size := tree_size s4 - 1, tag_tree_mtx := RW_free\<rparr>"
      have "RW_UNLOCK (s4\<lparr>tree_size := tree_size s4 - 1\<rparr>) = Inr s5"
        using relinked_other(4) [OF s4(2)] by (simp add: RW_UNLOCK_def s5_def s3_def s2_def)
      moreover have st5: "store_but {a} s5 (T(sint i := None))" using s4(3) by (simp add: s5_def)
      have me: "self s5 = self s2" "types s5 = types s3"
        using relinked_other(1,5) [OF s4(2)] by (simp_all add: s5_def s3_def)
      define s6 where "s6 = s5\<lparr>tags_heap := (tags_heap s5)(a \<mapsto> n4\<lparr>mtx := None\<rparr>)\<rparr>"
      have "MTX_UNLOCK a s5 = Inr s6"
        using s4(4,5) me a(4) by (simp add: MTX_UNLOCK_def get_node_def upd_node_def s6_def s5_def node_is_def)
      moreover have st6: "store_but {a} s6 (T(sint i := None))"
        using store_upd_extra [OF st5, of a "\<lambda>_. n4\<lparr>mtx := None\<rparr>"] a(4) by (auto simp: s6_def)
      have "node_is (types s6) (n4\<lparr>mtx := None\<rparr>) (?t\<lparr>t_mtx := None\<rparr>)"
        using s4(5) me by (simp add: node_is_def s6_def sized_def)
      note d = destroy_spec [OF st6 _ a(4) _ this]
      define s7 where "s7 = s6\<lparr>tags_heap := (tags_heap s6)(a := None)\<rparr>"
      have "tag_tree_node_destroy a s6 = Inr s7" "store_is s7 (T(sint i := None))"
        using d by (simp_all add: s7_def) (simp_all add: s6_def)
      moreover have "keeps s s7"
        using keeps_trans [OF s1(5), of s7] relinked_other [OF s4(2)] by (simp add: s7_def s6_def s5_def s3_def s2_def keeps_def)
      moreover have "tag_tree_mtx s7 = RW_free" "tag_tree_inited s7"
        using relinked_other(3) [OF s4(2)] s1(2) by (simp_all add: s7_def s6_def s5_def s3_def s2_def)
      moreover have "alloc_ready n s7"
      proof -
        have "dom (tags_heap s7) \<subseteq> dom (tags_heap s1)"
          using relinked_dom [OF s4(2)] a(3) by (auto simp: s7_def s6_def s5_def s3_def s2_def)
        moreover have "types s7 = types s1"
          using relinked_other(1) [OF s4(2)] by (simp add: s7_def s6_def s5_def s3_def s2_def)
        ultimately show ?thesis using consumes_ready [OF consumes_none, of s7 s1 n] s1(6) by simp
      qed
      ultimately show ?thesis using Some None a(1,4) s3(1) s4(1) by (simp add: go api_store_def)
    qed
  qed
qed

section \<open>The text of the names\<close>

lemma names_total_sum: "finite (dom T) \<Longrightarrow> names_total T = (\<Sum>i \<in> dom T. sizeof_metatag + length (t_name (the (T i))))"
  by (simp add: names_total_def sum_list_distinct_conv_sum_set)

lemma names_total_add:
  assumes "finite (dom T)"
  shows "names_total (T(i \<mapsto> t)) \<le> names_total T + sizeof_metatag + length (t_name t)"
proof -
  let ?f = "\<lambda>T i. sizeof_metatag + length (t_name (the (T i)))"
  have "names_total (T(i \<mapsto> t)) = (\<Sum>j \<in> insert i (dom T). ?f (T(i \<mapsto> t)) j)"
    using assms by (subst names_total_sum) auto
  also have "\<dots> = ?f (T(i \<mapsto> t)) i + (\<Sum>j \<in> dom T - {i}. ?f (T(i \<mapsto> t)) j)"
    using assms by (rule sum.insert_remove)
  also have "(\<Sum>j \<in> dom T - {i}. ?f (T(i \<mapsto> t)) j) = (\<Sum>j \<in> dom T - {i}. ?f T j)"
    by (rule sum.cong) auto
  also have "\<dots> \<le> (\<Sum>j \<in> dom T. ?f T j)" using assms by (intro sum_mono2) auto
  finally have "names_total (T(i \<mapsto> t)) \<le> ?f (T(i \<mapsto> t)) i + names_total T"
    unfolding names_total_sum [OF assms] by (simp only: add_le_cancel_left)
  moreover have "?f (T(i \<mapsto> t)) i = sizeof_metatag + length (t_name t)" by simp
  ultimately show ?thesis by linarith
qed

lemma names_total_same:
  assumes "finite (dom T)" and "T i = Some t" and "t_name t' = t_name t"
  shows "names_total (T(i \<mapsto> t')) = names_total T"
proof -
  have d: "dom (T(i \<mapsto> t')) = dom T" using assms(2) by auto
  have "names_total (T(i \<mapsto> t')) = (\<Sum>j \<in> dom T. sizeof_metatag + length (t_name (the ((T(i \<mapsto> t')) j))))"
    using assms(1) d by (subst names_total_sum) auto
  also have "\<dots> = (\<Sum>j \<in> dom T. sizeof_metatag + length (t_name (the (T j))))"
    using assms(2,3) by (intro sum.cong) auto
  finally show ?thesis using names_total_sum [OF assms(1)] by simp
qed

lemma names_total_remove:
  assumes "finite (dom T)"
  shows "names_total (T(i := None)) \<le> names_total T"
proof -
  have "names_total (T(i := None)) = (\<Sum>j \<in> dom T - {i}. sizeof_metatag + length (t_name (the ((T(i := None)) j))))"
    using assms by (subst names_total_sum) auto
  also have "\<dots> = (\<Sum>j \<in> dom T - {i}. sizeof_metatag + length (t_name (the (T j))))"
    by (rule sum.cong) auto
  also have "\<dots> \<le> (\<Sum>j \<in> dom T. sizeof_metatag + length (t_name (the (T j))))"
    using assms by (intro sum_mono2) auto
  finally show ?thesis using names_total_sum [OF assms] by simp
qed

lemma api_store_finite: "api_store s T \<Longrightarrow> finite (dom T)"
  using store_finite by (auto simp: api_store_def default_store_def tags_inc_def split: if_splits)

end
