(* ===== verification/Accessors.thy ===== *)
theory Accessors
  imports Tag_Tree
begin

text \<open>
  The values in the buffer of a tag: the functions \<open>plcstub_<name>_getter_cb\<close> and
  \<open>plcstub_<name>_setter_cb\<close> that the macros \<open>GETTER\<close> and \<open>SETTER\<close> of \<^verbatim>\<open>src/plcstub.c\<close> expand
  to, and the conversions of a status to the type of a getter. A value is a word of the width of
  its C type; a \<open>double\<close> and a \<open>float\<close> are the words of their IEEE 754 formats.
\<close>

section \<open>Values in a buffer\<close>

fun of_le :: "byte list \<Rightarrow> 'a::len word" where
  "of_le [] = 0"
| "of_le (b # bs) = ucast b OR push_bit 8 (of_le bs)"

text \<open>\<open>*(type*)(val) = *(type*)(buf + offset)\<close> and \<open>*(type*)(buf + offset) = *(type*)(val)\<close>; outside
  of the buffer, before it or behind it, neither is defined.\<close>

definition getter_cb :: "byte list \<Rightarrow> c_int \<Rightarrow> stop + 'a::len word" where
  "getter_cb buf offset = (let n = LENGTH('a) div 8 in
     if 0 \<le>s offset \<and> unat offset + n \<le> length buf
     then Inr (of_le (take n (drop (unat offset) buf))) else Inl (Undef OutOfBounds))"

definition setter_cb :: "byte list \<Rightarrow> c_int \<Rightarrow> 'a::len word \<Rightarrow> stop + byte list" where
  "setter_cb buf offset val =
     (if 0 \<le>s offset then write_bytes buf (unat offset) (le_bytes (LENGTH('a) div 8) val)
      else Inl (Undef OutOfBounds))"

section \<open>A status as a value\<close>

text \<open>\<open>(type)(impl_ret)\<close>: to an integer of any width, to a \<open>double\<close> and, rounded to the nearest, to
  a \<open>float\<close>.\<close>

definition int_to_int :: "c_int \<Rightarrow> 'a::len word" where
  "int_to_int x = scast x"

function log2 :: "int \<Rightarrow> nat" where
  "log2 n = (if n < 2 then 0 else Suc (log2 (n div 2)))"
  by pat_completeness auto
termination by (relation "measure nat") auto

declare log2.simps [simp del]

definition int_to_double :: "c_int \<Rightarrow> 64 word" where
  "int_to_double x = (let m = \<bar>sint x\<bar>; e = log2 m in
     if m = 0 then 0
     else (if x <s 0 then push_bit 63 1 else 0)
       OR word_of_int ((1023 + int e) * 2 ^ 52 + (m * 2 ^ (52 - e) - 2 ^ 52)))"

definition int_to_float :: "c_int \<Rightarrow> 32 word" where
  "int_to_float x = (let m = \<bar>sint x\<bar>; e = log2 m; d = 2 ^ (e - 23); q = m div d; r = m mod d;
       q' = (if d < 2 * r \<or> (2 * r = d \<and> odd q) then q + 1 else q) in
     if m = 0 then 0
     else (if x <s 0 then push_bit 31 1 else 0)
       OR word_of_int ((127 + int e) * 2 ^ 23 + (q' * 2 ^ (23 - e) - 2 ^ 23)))"

section \<open>Round trips\<close>

lemma bit_of_le:
  "bit (of_le bs :: 'a::len word) i \<longleftrightarrow> i < LENGTH('a) \<and> i div 8 < length bs \<and> bit (bs ! (i div 8)) (i mod 8)"
proof (induction bs arbitrary: i)
  case (Cons b bs)
  show ?case
  proof (cases "i < 8")
    case True
    then show ?thesis by (auto simp: bit_or_iff bit_ucast_iff bit_push_bit_iff)
  next
    case False
    then obtain j where j: "i = j + 8" by (metis add.commute le_Suc_ex not_less)
    have "\<not> bit b (j + 8)" using bit_imp_le_length [of b "j + 8"] by auto
    then have "bit (of_le (b # bs) :: 'a word) i \<longleftrightarrow> j + 8 < LENGTH('a) \<and> bit (of_le bs :: 'a word) j"
      by (simp add: bit_or_iff bit_ucast_iff bit_push_bit_iff j)
    moreover have "(j + 8) div 8 = Suc (j div 8)" "(j + 8) mod 8 = j mod 8" by simp_all
    ultimately show ?thesis using Cons.IH [of j] j by auto
  qed
qed simp

lemma of_le_le_bytes: "8 * n = LENGTH('a) \<Longrightarrow> of_le (le_bytes n w) = w" for w :: "'a::len word"
proof (rule bit_word_eqI)
  fix i assume n: "8 * n = LENGTH('a)" and i: "i < LENGTH('a)"
  then have "i div 8 < n" by auto
  moreover have "8 * (i div 8) + i mod 8 = i" by simp
  ultimately show "bit (of_le (le_bytes n w) :: 'a word) i = bit w i" using i
    by (simp add: bit_of_le le_bytes_def bit_ucast_iff bit_drop_bit_eq)
qed

lemma write_bytes_Inr: "write_bytes buf p bs = Inr buf' \<longleftrightarrow>
    p + length bs \<le> length buf \<and> buf' = take p buf @ bs @ drop (p + length bs) buf"
  by (auto simp: write_bytes_def)

lemma setter_cb_length: "setter_cb buf off w = Inr buf' \<Longrightarrow> length buf' = length buf"
  by (auto simp: setter_cb_def write_bytes_Inr split: if_splits)

lemma getter_setter:
  fixes w :: "'a::len word"
  assumes "8 dvd LENGTH('a)" and "setter_cb buf off w = Inr buf'"
  shows "getter_cb buf' off = Inr w"
proof -
  let ?n = "LENGTH('a) div 8" and ?p = "unat off"
  have w: "0 \<le>s off" "?p + ?n \<le> length buf" "buf' = take ?p buf @ le_bytes ?n w @ drop (?p + ?n) buf"
    using assms(2) by (auto simp: setter_cb_def write_bytes_Inr split: if_splits)
  then have "take ?n (drop ?p buf') = le_bytes ?n w" by simp
  moreover have "8 * ?n = LENGTH('a)" using assms(1) by simp
  moreover have "length buf' = length buf" using w by simp
  ultimately show ?thesis using w(1,2) of_le_le_bytes [of ?n w] by (simp add: getter_cb_def Let_def)
qed

text \<open>A value at least as far away as its width is not changed.\<close>

lemma take_drop_outside:
  assumes "q + k \<le> p \<or> p + length bs \<le> q" and "p + length bs \<le> length buf"
  shows "take k (drop q (take p buf @ bs @ drop (p + length bs) buf)) = take k (drop q buf)"
  using assms(1)
proof
  assume "q + k \<le> p"
  then show ?thesis using assms(2) by (auto simp: drop_take min_def)
next
  assume "p + length bs \<le> q"
  then show ?thesis using assms(2) by (simp add: min_def)
qed

lemma getter_setter_other:
  fixes w :: "'a::len word"
  assumes "setter_cb buf off w = Inr buf'"
    and "unat off' + LENGTH('b) div 8 \<le> unat off \<or> unat off + LENGTH('a) div 8 \<le> unat off'"
  shows "(getter_cb buf' off' :: stop + 'b::len word) = getter_cb buf off'"
proof -
  let ?n = "LENGTH('a) div 8" and ?k = "LENGTH('b) div 8" and ?p = "unat off"
  have w: "?p + ?n \<le> length buf" "buf' = take ?p buf @ le_bytes ?n w @ drop (?p + ?n) buf"
    using assms(1) by (auto simp: setter_cb_def write_bytes_Inr split: if_splits)
  have "take ?k (drop (unat off') buf') = take ?k (drop (unat off') buf)"
    using take_drop_outside [of "unat off'" ?k ?p "le_bytes ?n w" buf] assms(2) w by simp
  moreover have "length buf' = length buf" using setter_cb_length [OF assms(1)] .
  ultimately show ?thesis by (simp add: getter_cb_def Let_def)
qed

lemma setter_cb_defined: "0 \<le>s off \<Longrightarrow> unat off + LENGTH('a) div 8 \<le> length buf \<Longrightarrow>
    \<exists>buf'. setter_cb buf off w = Inr buf'" for w :: "'a::len word"
  by (simp add: setter_cb_def write_bytes_def)

end
