(* ===== verification/Tag_Props.thy ===== *)
theory Tag_Props
  imports Tag_Ops Accessors
begin

text \<open>
  The properties of the store of tags, \<^verbatim>\<open>src/tagtree.c\<close>: what initialisation, insertion, lookup
  and removal do to the store, and what the metatag contains.
\<close>

section \<open>A library before its first call\<close>

text \<open>A machine whose \<open>malloc\<close> answers with the multiples of sixteen.\<close>

definition fresh_pool :: "nat \<Rightarrow> addr list" where
  "fresh_pool n = map (\<lambda>k. of_nat (16 * Suc k)) [0..<n]"

definition demo_mem :: "nat \<Rightarrow> mem" where
  "demo_mem n = \<lparr>objs = Map.empty, pool = fresh_pool n, stack = 4\<rparr>"

definition demo_lib :: "nat \<Rightarrow> lib" where
  "demo_lib n = start_lib (demo_mem n) 1 (\<lambda>_. 0)"

lemma unat_pool: "k < 1000 \<Longrightarrow> unat (of_nat (16 * Suc k) :: addr) = 16 * Suc k"
  by (simp only: unat_of_nat) simp

lemma aligned_16: "aligned (of_nat (16 * k))"
proof -
  have e: "of_nat (16 * k) = (push_bit 4 (of_nat k) :: addr)" by (simp add: push_bit_eq_mult mult.commute)
  have m: "(15 :: addr) = mask 4" by (simp add: mask_eq_exp_minus_1)
  show ?thesis unfolding aligned_def m e take_bit_eq_mask [symmetric] by (simp add: take_bit_push_bit)
qed

lemma fresh_pool_ok: "n \<le> 1000 \<Longrightarrow> distinct (fresh_pool n) \<and> (\<forall>a \<in> set (fresh_pool n). a \<noteq> NULL \<and> aligned a)"
proof -
  assume n: "n \<le> 1000"
  have "inj_on (\<lambda>k. of_nat (16 * Suc k) :: addr) (set [0..<n])"
  proof (rule inj_onI)
    fix i j assume "i \<in> set [0..<n]" "j \<in> set [0..<n]" "(of_nat (16 * Suc i) :: addr) = of_nat (16 * Suc j)"
    then show "i = j" using n unat_pool [of i] unat_pool [of j] by (metis atLeastLessThan_upt
          atLeastLessThan_iff less_le_trans mult_left_cancel nat.inject zero_neq_numeral)
  qed
  moreover have "(of_nat (16 * Suc k) :: addr) \<noteq> 0" if "k < n" for k
    using unat_pool [of k] that n by (metis less_le_trans mult_eq_0_iff nat.distinct(1) unat_0 zero_neq_numeral)
  moreover have "aligned (of_nat (16 * Suc k))" for k by (rule aligned_16)
  ultimately show ?thesis by (auto simp: fresh_pool_def distinct_map simp del: of_nat_mult of_nat_Suc)
qed

lemma demo_lib_ready: "n \<le> 1000 \<Longrightarrow> k \<le> n \<Longrightarrow> alloc_ready k (demo_lib n)"
proof -
  assume n: "n \<le> 1000" "k \<le> n"
  have "length (fresh_pool n) = n" by (simp add: fresh_pool_def)
  then show ?thesis using n fresh_pool_ok [OF n(1)] by (auto simp: alloc_ready_def malloc_ready_def demo_lib_def
      start_lib_def demo_mem_def fresh_answer_def dest: in_set_takeD)
qed

lemma demo_lib_store: "api_store (demo_lib n) default_store"
  unfolding demo_lib_def by (rule start_store) (simp add: demo_mem_def)

lemma demo_lib_simps [simp]: "self (demo_lib n) = 1" "dirt (demo_lib n) = (\<lambda>_. 0)" "init_cost (demo_lib n) = 30"
  "stack (types (demo_lib n)) = 4" "tree_size (demo_lib n) = 0" "tag_tree_inited (demo_lib n) = False" "events (demo_lib n) = []"
  by (simp_all add: demo_lib_def start_lib_def demo_mem_def init_cost_def)

lemma default_store_dom: "dom default_store = {2, 3, 4, 5, 6, 7, 8, 9, 10, 11}"
  by (auto simp: default_store_def tags_inc_def)

lemma default_store_range: "dom default_store = {2 .. 11}"
  unfolding default_store_dom by (auto; presburger)

lemma default_fresh: "fresh_id default_store = 12"
  by (simp add: fresh_id_def default_store_dom)

lemma default_none: "default_store 1 = None"
  by (simp add: default_store_def tags_inc_def)

lemma default_names: "names_total default_store = 390"
  unfolding names_total_def default_store_dom
  by (simp add: default_store_def tags_inc_def defined_tag_def new_tag_def sizeof_metatag_def)

section \<open>Initialisation\<close>

text \<open>C24: the first call of \<open>tag_tree_init\<close> defines the ten tags of \<^verbatim>\<open>tags.inc\<close> under the
  identifiers 2 to 11 and counts them; it leaves the lock of the tree free, and a second call changes nothing.\<close>

theorem tags_initialised:
  assumes "alloc_ready 30 (start_lib m me junk)" and "2 \<le> stack m"
  shows "\<exists>s. tag_tree_init (start_lib m me junk) = Inr s \<and> api_store s default_store \<and> tag_tree_inited s
    \<and> tree_size s = 10 \<and> tag_tree_init s = Inr s \<and> dom default_store = {2 .. 11}
    \<and> (\<forall>k < 10. default_store (2 + int k) = Some (defined_tag (tags_inc ! k)))"
proof -
  have st: "api_store (start_lib m me junk) default_store" by (rule start_store [OF assms(2)])
  have "alloc_ready (init_cost (start_lib m me junk) + 0) (start_lib m me junk)"
    using assms(1) by (simp add: init_cost_def start_lib_def)
  then obtain s where s: "tag_tree_init (start_lib m me junk) = Inr s" "tag_tree_inited s" "tag_tree_mtx s = RW_free"
    "store_is s default_store" "tree_size s = 10"
    using init_spec [OF st, of 0] by (auto simp: start_lib_def)
  moreover have "tag_tree_init s = Inr s"
    using s(2,3) by (simp add: tag_tree_init_def RW_RDLOCK_def rw_read_unlock rw_same)
  moreover note default_store_range
  moreover have "default_store (2 + int k) = Some (defined_tag (tags_inc ! k))" if "k < 10" for k
  proof -
    have "k \<in> {0, 1, 2, 3, 4, 5, 6, 7, 8, 9}" using that by auto
    then show ?thesis by (elim insertE) (simp_all add: default_store_def tags_inc_def)
  qed
  ultimately show ?thesis by (auto simp: api_store_def)
qed

theorem tags_initialised_witness:
  "\<exists>s. tag_tree_init (demo_lib 30) = Inr s \<and> api_store s default_store \<and> tree_size s = 10"
  using tags_initialised [of "demo_mem 30" 1 "\<lambda>_. 0"] demo_lib_ready [of 30 30] by (auto simp: demo_lib_def demo_mem_def)

text \<open>The tags of \<^verbatim>\<open>tags.inc\<close> are of type \<open>INT\<close>, two bytes wide, but the initialiser
  assigns one byte: the tag \<open>DUMMY_AQUA_DATA_k\<close> reads as \<open>0x4200 + k\<close>, not as \<open>k\<close>.\<close>

theorem defined_tag_value:
  assumes "k < 10"
  shows "\<exists>t. default_store (2 + int k) = Some t \<and> t_name t = fst (tags_inc ! k)
    \<and> t_type t = Simple TAG_INT \<and> getter_cb (t_data t) 0 = Inr (0x4200 + of_nat k :: 16 word)"
proof -
  let ?P = "\<lambda>k t. t_name t = fst (tags_inc ! k) \<and> t_type t = Simple TAG_INT
    \<and> getter_cb (t_data t) 0 = Inr (0x4200 + of_nat k :: 16 word)"
  have "list_all (\<lambda>k. case default_store (2 + int k) of None \<Rightarrow> False | Some t \<Rightarrow> ?P k t) [0..<10]"
    by code_simp
  moreover have "k \<in> set [0..<10]" using assms by simp
  ultimately have "case default_store (2 + int k) of None \<Rightarrow> False | Some t \<Rightarrow> ?P k t"
    unfolding list_all_iff by blast
  then show ?thesis by (auto split: option.splits)
qed

theorem defined_tag_value_witness:
  "\<exists>t. default_store 5 = Some t \<and> t_name t = ''DUMMY_AQUA_DATA_3'' \<and> getter_cb (t_data t) 0 = Inr (0x4203 :: 16 word)"
  using defined_tag_value [of 3] by (auto simp: tags_inc_def)

section \<open>Insertion, lookup and removal\<close>

text \<open>C4: inserting a name other than \<open>@tags\<close> returns the identifier one above the largest one in
  use and adds, unlocked and with no callback, a tag of that name and a copy of the type with a buffer of
  at least eight bytes \<open>0x42\<close>; the metatag, which is now out of date, is removed. It stops only when the
  identifiers have run out, where the increment overflows, or when the metatag is locked, where it waits.
  The type must not contain a struct, which the copy would overflow.\<close>

theorem insert_new_tag:
  assumes "api_store s T" and "alloc_ready (init_cost s + (3 + blocks ty + n)) s" and "x \<noteq> ''@tags''"
    and "struct_free ty" and "denotes (objs (types s)) p ty" and "ty_depth ty \<le> stack (types s)"
    and "ty \<noteq> Simple TAG_ERROR"
  shows "if 2 ^ 31 \<le> fresh_id T then tag_tree_insert (CStr x) p s = Inl (Undef SignedOverflow)
    else if locked T 1 then tag_tree_insert (CStr x) p s = Inl Blocked
    else \<exists>s'. tag_tree_insert (CStr x) p s = Inr (word_of_int (fresh_id T), s') \<and> T (fresh_id T) = None
      \<and> api_store s' (T(1 := None, fresh_id T \<mapsto> new_tag x ty None)) \<and> alloc_ready n s'"
proof -
  have "T (fresh_id T) = None"
  proof (rule ccontr)
    assume "T (fresh_id T) \<noteq> None"
    then have "fresh_id T \<in> dom T" by blast
    moreover have "finite (dom T)" using assms(1) store_finite default_store_dom
      by (auto simp: api_store_def split: if_splits)
    then have "\<forall>j \<in> dom T. j < fresh_id T" by (auto simp: fresh_id_def less_Suc_eq_le intro: le_less_trans Max_ge)
    ultimately show False by blast
  qed
  then show ?thesis using insert_new_spec [OF assms] by auto
qed

theorem insert_new_tag_witness:
  "\<exists>s'. tag_tree_insert (CStr ''temperature'') (SIMPLE_TYPE TAG_DINT) (demo_lib 40) = Inr (12, s')
    \<and> api_store s' (default_store(1 := None, 12 \<mapsto> new_tag ''temperature'' (Simple TAG_DINT) None))"
  using insert_new_tag [OF demo_lib_store [of 40], of "Simple TAG_DINT" 0 "''temperature''" "SIMPLE_TYPE TAG_DINT"]
    demo_lib_ready [of 40 33]
  by (auto simp: default_fresh default_none locked_def)

text \<open>C5: a lookup returns the node of the tag with the identifier, and \<open>NULL\<close> when there is none;
  it changes no tag. Looking up the metatag when there is none builds it.\<close>

theorem lookup_correct:
  assumes "api_store s T" and "lookup_ready n s T"
  shows "\<exists>a s'. tag_tree_lookup i s = Inr (a, s') \<and> api_store s' (looked_up T (dirt s) (sint i))
    \<and> (case looked_up T (dirt s) (sint i) (sint i) of None \<Rightarrow> a = NULL
       | Some t \<Rightarrow> a \<noteq> NULL \<and> (\<exists>n. tags_heap s' a = Some n \<and> tag_id n = i \<and> node_is (types s') n t))"
proof -
  obtain a s' where l: "tag_tree_lookup i s = Inr (a, s')" "api_store s' (looked_up T (dirt s) (sint i))" "tag_tree_inited s'"
    "if looked_up T (dirt s) (sint i) (sint i) = None then a = NULL else points s' a (sint i)"
    using lookup_spec [OF assms, of i] by blast
  show ?thesis
  proof (cases "looked_up T (dirt s) (sint i) (sint i)")
    case None
    then show ?thesis using l by auto
  next
    case (Some t)
    have st: "store_is s' (looked_up T (dirt s) (sint i))" using l(2,3) by (simp add: api_store_def)
    have p: "points s' a (sint i)" using l(4) Some by simp
    obtain n where n: "tags_heap s' a = Some n" "node_is (types s') n t"
      using store_upd [OF st Some p, of "\<lambda>n. n" t] by auto
    have "sint (tag_id n) = sint i" "a \<noteq> NULL" using p n(1) by (simp_all add: points_def)
    then show ?thesis using l(1,2) Some n signed_word_eqI [of "tag_id n" i] by auto
  qed
qed

theorem lookup_correct_witness:
  "(\<exists>a s'. tag_tree_lookup 3 (demo_lib 40) = Inr (a, s') \<and> a \<noteq> NULL)
   \<and> (\<exists>s'. tag_tree_lookup 99 (demo_lib 40) = Inr (NULL, s'))"
proof -
  have r: "lookup_ready 0 (demo_lib 40) default_store"
    using demo_lib_ready [of 40 34] by (simp add: lookup_ready_def default_names)
  have "looked_up default_store (\<lambda>_. 0) 3 3 \<noteq> None" "looked_up default_store (\<lambda>_. 0) 99 99 = None"
    by (simp_all add: looked_up_def default_store_def tags_inc_def)
  then show ?thesis using lookup_correct [OF demo_lib_store r, of 3] lookup_correct [OF demo_lib_store r, of 99]
    by fastforce
qed

text \<open>C6: removing a tag that nobody holds takes it out of the store, whatever its identifier but the
  metatag's, and its node is freed; removing one that is held waits, with the lock of the tree taken; an
  unknown identifier is \<open>PLCTAG_ERR_NOT_FOUND\<close> and the metatag's is accepted without effect.\<close>

theorem remove_correct:
  assumes "api_store s T" and "alloc_ready (init_cost s + n) s"
  shows "if i = METATAG_ID then tag_tree_remove i s = Inr (PLCTAG_STATUS_OK, s)
    else case T (sint i) of
     None \<Rightarrow> \<exists>s'. tag_tree_remove i s = Inr (PLCTAG_ERR_NOT_FOUND, s') \<and> api_store s' T \<and> alloc_ready n s'
   | Some t \<Rightarrow> if t_mtx t \<noteq> None then tag_tree_remove i s = Inl Blocked
       else \<exists>s'. tag_tree_remove i s = Inr (PLCTAG_STATUS_OK, s') \<and> api_store s' (T(sint i := None)) \<and> alloc_ready n s'"
proof (cases "i = METATAG_ID")
  case True
  then show ?thesis by (simp add: tag_tree_remove_def)
next
  case False
  then show ?thesis using remove_spec [OF assms False] by (auto split: option.splits)
qed

theorem remove_correct_witness:
  "\<exists>s'. tag_tree_remove 7 (demo_lib 40) = Inr (PLCTAG_STATUS_OK, s') \<and> api_store s' (default_store(7 := None))"
proof -
  have "default_store 7 = Some (defined_tag (''DUMMY_AQUA_DATA_5'', TAG_INT, 5))"
    by (simp add: default_store_def tags_inc_def)
  then show ?thesis
    using remove_correct [OF demo_lib_store [of 40], of 0 7] demo_lib_ready [of 40 30]
    by (auto simp: defined_tag_def new_tag_def METATAG_ID_def)
qed

end
