(* ===== verification/Metatag.thy ===== *)
theory Metatag
  imports Tag_Props
begin

text \<open>
  The contents of the metatag \<open>@tags\<close>: the records \<open>tag_tree_metanode_create\<close> writes can be read
  back by a client that knows \<open>struct metatag_t\<close>, and what the buffer holds behind them.
\<close>

section \<open>Reading the records\<close>

text \<open>What a client learns of a tag: identifier, type word, size, dimension and name.\<close>

type_synonym entry = "32 word \<times> 16 word \<times> 16 word \<times> 32 word \<times> string"

definition dim_of :: "ty \<Rightarrow> 32 word" where
  "dim_of ty = (case ty of Arr n _ \<Rightarrow> ucast n | _ \<Rightarrow> 0)"

definition entry_of :: "int \<Rightarrow> tag \<Rightarrow> entry" where
  "entry_of i t = (word_of_int i, 0x2000, of_nat (ty_size (t_type t)), dim_of (t_type t), t_name t)"

definition field_at :: "nat \<Rightarrow> nat \<Rightarrow> byte list \<Rightarrow> 'a::len word" where
  "field_at p n bs = of_le (take n (drop p bs))"

fun parse_entries :: "nat \<Rightarrow> byte list \<Rightarrow> entry list" where
  "parse_entries 0 bs = []"
| "parse_entries (Suc k) bs = (let len = unat (field_at 20 2 bs :: 16 word) in
     (field_at 0 4 bs, field_at 4 2 bs, field_at 6 2 bs, field_at 8 4 bs, map (\<lambda>b. char_of (unat b)) (take len (drop 22 bs)))
     # parse_entries k (drop (22 + len) bs))"

lemma field_at_head: "8 * n = LENGTH('a) \<Longrightarrow> field_at 0 n (le_bytes n w @ bs) = w" for w :: "'a::len word"
  by (simp add: field_at_def of_le_le_bytes)

lemma field_at_skip: "length as \<le> p \<Longrightarrow> field_at p n (as @ bs) = field_at (p - length as) n bs"
  by (simp add: field_at_def)

lemma char_of_byte: "char_of (unat (of_char c :: byte)) = c"
proof -
  have "of_char c = (of_nat (of_char c) :: byte)" by (rule of_nat_of_char [symmetric])
  then have "unat (of_char c :: byte) = of_char c mod 2 ^ LENGTH(8)" by (metis unat_of_nat)
  then show ?thesis by simp
qed

lemma ucast_size: "ucast (of_nat k :: size_t) = (of_nat k :: 16 word)"
proof -
  have "ucast (word_of_int x :: size_t) = (word_of_int x :: 16 word)" for x by transfer simp
  from this [of "int k"] show ?thesis by simp
qed

lemma map_char_of_char: "map ((\<lambda>b. char_of (unat b)) \<circ> (of_char :: char \<Rightarrow> byte)) x = x"
  by (induction x) (simp_all add: char_of_byte)

lemma record_fields:
  assumes "length (t_name t) < 2 ^ 16"
  shows "field_at 0 4 (tag_record i t @ rest) = (word_of_int i :: 32 word)"
    "field_at 4 2 (tag_record i t @ rest) = (0x2000 :: 16 word)"
    "field_at 6 2 (tag_record i t @ rest) = (of_nat (ty_size (t_type t)) :: 16 word)"
    "field_at 8 4 (tag_record i t @ rest) = dim_of (t_type t)"
    "field_at 20 2 (tag_record i t @ rest) = (of_nat (length (t_name t)) :: 16 word)"
    "drop 22 (tag_record i t @ rest) = map of_char (t_name t) @ rest"
    "drop (22 + length (t_name t)) (tag_record i t @ rest) = rest"
proof -
  let ?len = "of_nat (length (t_name t)) :: 16 word"
  have len: "unat ?len = length (t_name t)" using assms by (simp add: unat_of_nat)
  have r: "tag_record i t @ rest = le_bytes 4 (word_of_int i :: 32 word) @ le_bytes 2 (0x2000 :: 16 word)
      @ le_bytes 2 (of_nat (ty_size (t_type t)) :: 16 word)
      @ le_bytes 4 (dim_of (t_type t)) @ le_bytes 4 (0 :: 32 word) @ le_bytes 4 (0 :: 32 word)
      @ le_bytes 2 ?len @ map of_char (t_name t) @ rest"
    using len by (simp add: tag_record_def metatag_bytes_def dim_of_def ucast_size)
  show "drop 22 (tag_record i t @ rest) = map of_char (t_name t) @ rest" unfolding r by simp
  show "field_at 20 2 (tag_record i t @ rest) = ?len" "field_at 0 4 (tag_record i t @ rest) = (word_of_int i :: 32 word)"
    "field_at 4 2 (tag_record i t @ rest) = (0x2000 :: 16 word)"
    "field_at 6 2 (tag_record i t @ rest) = (of_nat (ty_size (t_type t)) :: 16 word)"
    "field_at 8 4 (tag_record i t @ rest) = dim_of (t_type t)"
    unfolding r by (simp_all add: field_at_skip field_at_head)
  show "drop (22 + length (t_name t)) (tag_record i t @ rest) = rest"
    using len by (simp add: length_tag_record sizeof_metatag_def)
qed

lemma parse_record:
  assumes "length (t_name t) < 2 ^ 16"
  shows "parse_entries (Suc k) (tag_record i t @ rest) = entry_of i t # parse_entries k rest"
proof -
  have len: "unat (of_nat (length (t_name t)) :: 16 word) = length (t_name t)" using assms by (simp add: unat_of_nat)
  show ?thesis unfolding parse_entries.simps record_fields [OF assms] len Let_def
    by (simp add: entry_of_def map_char_of_char)
qed

lemma parse_records:
  assumes "\<forall>i \<in> set is. length (t_name (the (T i))) < 2 ^ 16"
  shows "parse_entries (length is) (concat (map (\<lambda>i. tag_record i (the (T i))) is) @ rest) = map (\<lambda>i. entry_of i (the (T i))) is"
  using assms
proof (induction "is")
  case (Cons i "is")
  have "parse_entries (Suc (length is)) (tag_record i (the (T i)) @ concat (map (\<lambda>i. tag_record i (the (T i))) is) @ rest)
    = entry_of i (the (T i)) # parse_entries (length is) (concat (map (\<lambda>i. tag_record i (the (T i))) is) @ rest)"
    using Cons.prems by (intro parse_record) simp
  then show ?case using Cons by simp
qed simp

section \<open>What a client reads\<close>

lemma image_length:
  assumes "finite (dom T)" and "\<forall>t \<in> ran T. length (t_name t) < 2 ^ 16"
  shows "length (metatag_image T) = names_total T"
proof -
  have "length (tag_record i (the (T i))) = sizeof_metatag + length (t_name (the (T i)))" if i: "i \<in> dom T" for i
  proof -
    have "length (t_name (the (T i))) < 2 ^ 16" using assms(2) i by (auto simp: ran_def)
    then show ?thesis by (simp add: length_tag_record unat_of_nat)
  qed
  then have "map (\<lambda>i. length (tag_record i (the (T i)))) (sorted_list_of_set (dom T))
    = map (\<lambda>i. sizeof_metatag + length (t_name (the (T i)))) (sorted_list_of_set (dom T))" using assms(1) by simp
  then show ?thesis by (simp only: length_metatag_image names_total_def)
qed

text \<open>C12: looking up the metatag when there is none yields a buffer of exactly the length of the
  records, from which a client that follows \<open>struct metatag_t\<close> reads back, for every tag and in the order
  of the identifiers, the identifier, the size, the dimension and the whole name, as long as no name has
  \<open>2 ^ 16\<close> bytes.\<close>

theorem metatag_roundtrip:
  assumes "api_store s T" and "lookup_ready n s T" and "T 1 = None" and names: "\<forall>t \<in> ran T. length (t_name t) < 2 ^ 16"
  shows "\<exists>a s' k. tag_tree_lookup METATAG_ID s = Inr (a, s') \<and> tags_heap s' a = Some k
    \<and> length (data k) = names_total T
    \<and> parse_entries (card (dom T)) (data k) = map (\<lambda>i. entry_of i (the (T i))) (sorted_list_of_set (dom T))"
proof -
  have f: "finite (dom T)" by (rule api_store_finite [OF assms(1)])
  have l: "looked_up T (dirt s) (sint METATAG_ID) = T(1 \<mapsto> metatag T (dirt s))" using assms(3) by (simp add: looked_up_def)
  obtain a s' where s': "tag_tree_lookup METATAG_ID s = Inr (a, s')" "tag_tree_inited s'" "points s' a 1"
    "api_store s' (T(1 \<mapsto> metatag T (dirt s)))" using lookup_spec [OF assms(1,2), of METATAG_ID] unfolding l by auto
  then have st: "store_is s' (T(1 \<mapsto> metatag T (dirt s)))" by (simp add: api_store_def)
  obtain k where k: "tags_heap s' a = Some k" "data k = t_data (metatag T (dirt s))"
    using store_upd [OF st _ s'(3), of "metatag T (dirt s)" "\<lambda>n. n" "metatag T (dirt s)"] by (auto simp: node_is_def)
  have d: "data k = metatag_image T @ drop (length (metatag_image T)) (map (dirt s) [0..<names_total T])"
    using k(2) assms(3) by (simp add: metatag_def fun_upd_idem)
  have "\<forall>i \<in> set (sorted_list_of_set (dom T)). length (t_name (the (T i))) < 2 ^ 16"
    using names f by (auto simp: ran_def)
  from parse_records [OF this, of "drop (length (metatag_image T)) (map (dirt s) [0..<names_total T])"]
  have "parse_entries (card (dom T)) (data k) = map (\<lambda>i. entry_of i (the (T i))) (sorted_list_of_set (dom T))"
    unfolding d metatag_image_def by simp
  moreover have "length (data k) = names_total T" using length_metatag_data [OF f] k(2) by simp
  ultimately show ?thesis using s'(1) k(1) by blast
qed

lemma default_names_short: "\<forall>t \<in> ran default_store. length (t_name t) < 2 ^ 16"
proof
  fix t assume "t \<in> ran default_store"
  then obtain i where i: "default_store i = Some t" by (auto simp: ran_def)
  then have "i \<in> {2, 3, 4, 5, 6, 7, 8, 9, 10, 11}" using default_store_dom by (metis domI)
  then show "length (t_name t) < 2 ^ 16" using i
    by (elim insertE) (auto simp: default_store_def tags_inc_def defined_tag_def new_tag_def)
qed

theorem metatag_roundtrip_witness:
  "\<exists>a s' k. tag_tree_lookup METATAG_ID (demo_lib 40) = Inr (a, s') \<and> tags_heap s' a = Some k \<and> length (data k) = 390
    \<and> parse_entries 10 (data k) = map (\<lambda>i. (word_of_int (int i + 2), 0x2000, 2, 0, fst (tags_inc ! i))) [0..<10]"
proof -
  have r: "lookup_ready 0 (demo_lib 40) default_store"
    using demo_lib_ready [of 40 34] by (simp add: lookup_ready_def default_names)
  have c: "card (dom default_store) = 10" and ids: "sorted_list_of_set (dom default_store) = [2, 3, 4, 5, 6, 7, 8, 9, 10, 11]"
    unfolding default_store_dom by simp_all
  have e: "map (\<lambda>i. entry_of i (the (default_store i))) [2, 3, 4, 5, 6, 7, 8, 9, 10, 11]
    = map (\<lambda>i. (word_of_int (int i + 2), 0x2000, 2, 0, fst (tags_inc ! i))) [0..<10]"
    by (simp add: entry_of_def default_store_def tags_inc_def defined_tag_def new_tag_def dim_of_def upt_rec)
  show ?thesis using metatag_roundtrip [OF demo_lib_store r default_none default_names_short]
    unfolding c ids e default_names .
qed

text \<open>C30: inserting \<open>@tags\<close> when there is a metatag already rebuilds it, but the size was
  summed up with the old one still in the tree: the last 27 bytes of the buffer, which the type of the metatag
  counts as elements, keep whatever \<open>malloc\<close> left there.\<close>

theorem metatag_refresh_junk:
  assumes "api_store s T" and "lookup_ready n s T" and T1: "T 1 = Some old" "t_mtx old = None" "t_name old = ''@tags''"
    and names: "\<forall>t \<in> ran T. length (t_name t) < 2 ^ 16"
  shows "\<exists>s' t. tag_tree_insert (CStr ''@tags'') p s = Inr (METATAG_ID, s') \<and> api_store s' (T(1 \<mapsto> t))
    \<and> t_data t = metatag_image (T(1 := None)) @ map (dirt s) [names_total (T(1 := None))..<names_total (T(1 := None)) + 27]
    \<and> t_type t = Arr (of_nat (length (t_data t))) (Simple TAG_SINT)"
proof -
  have f: "finite (dom T)" by (rule api_store_finite [OF assms(1)])
  let ?U = "T(1 := None)" and ?f = "\<lambda>T i. sizeof_metatag + length (t_name (the (T i)))"
  have fU: "finite (dom ?U)" using f by simp
  have "names_total T = ?f T 1 + (\<Sum>i \<in> dom T - {1}. ?f T i)"
    unfolding names_total_sum [OF f] using f T1(1) by (intro sum.remove) auto
  moreover have "names_total ?U = (\<Sum>i \<in> dom T - {1}. ?f T i)"
    using fU by (subst names_total_sum) (auto intro: sum.cong)
  moreover have "?f T 1 = 27" using T1 by (simp add: sizeof_metatag_def)
  ultimately have tot: "names_total T = names_total ?U + 27" by simp
  have "\<forall>t \<in> ran ?U. length (t_name t) < 2 ^ 16" using names by (auto simp: ran_def split: if_splits)
  then have len: "length (metatag_image ?U) = names_total ?U" by (rule image_length [OF fU])
  have "\<not> locked T 1" using T1 by (simp add: locked_def)
  then obtain s' where s': "tag_tree_insert (CStr ''@tags'') p s = Inr (METATAG_ID, s')" "api_store s' (T(1 \<mapsto> metatag T (dirt s)))"
    using insert_metatag_spec [OF assms(1,2), of p] by auto
  moreover have "t_data (metatag T (dirt s)) = metatag_image ?U @ map (dirt s) [names_total ?U..<names_total ?U + 27]"
    by (simp add: metatag_def len tot drop_map)
  moreover have "length (t_data (metatag T (dirt s))) = names_total T" by (rule length_metatag_data [OF f])
  then have "t_type (metatag T (dirt s)) = Arr (of_nat (length (t_data (metatag T (dirt s))))) (Simple TAG_SINT)"
    by (simp add: metatag_def)
  ultimately show ?thesis by blast
qed

text \<open>The state after the first \<open>@tags\<close>.\<close>

lemma first_refresh:
  assumes "34 \<le> n" and "n \<le> 1000"
  shows "\<exists>s. tag_tree_insert (CStr ''@tags'') NULL (demo_lib n) = Inr (METATAG_ID, s)
    \<and> api_store s (default_store(1 \<mapsto> metatag default_store (\<lambda>_. 0))) \<and> tag_tree_inited s \<and> dirt s = (\<lambda>_. 0)
    \<and> alloc_ready (n - 34) s \<and> tree_size s = 10"
proof -
  have "lookup_ready (n - 34) (demo_lib n) default_store"
    using demo_lib_ready [of n n] assms by (simp add: lookup_ready_def default_names)
  from insert_metatag_spec [OF demo_lib_store this, of NULL] show ?thesis
    by (auto simp: locked_def default_none keeps_def)
qed

lemma refreshed_total: "names_total (default_store(1 \<mapsto> metatag T junk)) = 417"
proof -
  have d: "dom (default_store(1 \<mapsto> metatag T junk)) = {1, 2, 3, 4, 5, 6, 7, 8, 9, 10, 11}"
    using default_store_dom by auto
  show ?thesis unfolding names_total_def d
    by (simp add: default_store_def tags_inc_def defined_tag_def new_tag_def sizeof_metatag_def metatag_def)
qed

theorem metatag_refresh_junk_witness:
  "\<exists>s s' t. tag_tree_insert (CStr ''@tags'') NULL (demo_lib 60) = Inr (METATAG_ID, s)
    \<and> tag_tree_insert (CStr ''@tags'') NULL s = Inr (METATAG_ID, s') \<and> api_store s' (default_store(1 \<mapsto> t))
    \<and> t_type t = Arr 417 (Simple TAG_SINT) \<and> drop 390 (t_data t) = replicate 27 0"
proof -
  let ?m = "metatag default_store (\<lambda>_. 0)"
  obtain s where s: "tag_tree_insert (CStr ''@tags'') NULL (demo_lib 60) = Inr (METATAG_ID, s)"
    "api_store s (default_store(1 \<mapsto> ?m))" "tag_tree_inited s" "dirt s = (\<lambda>_. 0)" "alloc_ready 26 s"
    using first_refresh [of 60] by auto
  have r: "lookup_ready 0 s (default_store(1 \<mapsto> ?m))"
    using alloc_ready_le [OF s(5), of 4] s(3) by (simp add: lookup_ready_def init_cost_def refreshed_total)
  have short: "\<forall>t \<in> ran (default_store(1 \<mapsto> ?m)). length (t_name t) < 2 ^ 16"
    using default_names_short default_none by (auto simp: metatag_def)
  have u: "(default_store(1 \<mapsto> ?m))(1 := None) = default_store" using default_none by auto
  obtain s' t where t: "tag_tree_insert (CStr ''@tags'') NULL s = Inr (METATAG_ID, s')"
    "api_store s' ((default_store(1 \<mapsto> ?m))(1 \<mapsto> t))" "t_type t = Arr (of_nat (length (t_data t))) (Simple TAG_SINT)"
    "t_data t = metatag_image default_store @ map (\<lambda>_. 0) [390..<417]"
    using metatag_refresh_junk [OF s(2) r, of ?m NULL] short s(4) unfolding u default_names
    by (auto simp: metatag_def)
  have "length (metatag_image default_store) = 390"
    using image_length [OF _ default_names_short] default_names default_store_dom by simp
  moreover have "map (\<lambda>_. 0) [390..<417] = replicate 27 (0 :: byte)" by (simp only: map_replicate_const length_upt) simp
  ultimately have "length (t_data t) = 417" "drop 390 (t_data t) = replicate 27 0" unfolding t(4) by simp_all
  then show ?thesis using s(1) t(1,2,3) by auto
qed

section \<open>The counter\<close>

fun refresh :: "nat \<Rightarrow> lib \<Rightarrow> stop + lib" where
  "refresh 0 s = Inr s"
| "refresh (Suc n) s = bindE (tag_tree_insert (CStr ''@tags'') NULL s) (\<lambda>(_, s). refresh n s)"

lemma metatag_unlocked: "\<not> locked (T(1 \<mapsto> metatag U junk)) 1"
  by (simp add: locked_def metatag_def)

lemma refresh_again:
  "api_store s (default_store(1 \<mapsto> metatag T junk)) \<Longrightarrow> tag_tree_inited s \<Longrightarrow> alloc_ready (4 * n) s \<Longrightarrow>
   \<exists>s' T' junk'. refresh n s = Inr s' \<and> api_store s' (default_store(1 \<mapsto> metatag T' junk')) \<and> tree_size s' = tree_size s - of_nat n"
proof (induction n arbitrary: s T junk)
  case 0
  then show ?case by auto
next
  case (Suc n)
  let ?T = "default_store(1 \<mapsto> metatag T junk)"
  have "lookup_ready (4 * n) s ?T" using Suc.prems by (simp add: lookup_ready_def init_cost_def refreshed_total)
  then obtain s1 where s1: "tag_tree_insert (CStr ''@tags'') NULL s = Inr (METATAG_ID, s1)" "tag_tree_inited s1"
    "api_store s1 (?T(1 \<mapsto> metatag ?T (dirt s)))" "alloc_ready (4 * n) s1" "tree_size s1 = tree_size s - 1"
    using insert_metatag_spec [OF Suc.prems(1), of "4 * n" NULL] Suc.prems(2) metatag_unlocked [of default_store T junk]
    by (simp del: fun_upd_apply add: fun_upd_same) blast
  then have "api_store s1 (default_store(1 \<mapsto> metatag ?T (dirt s)))" by simp
  from Suc.IH [OF this s1(2,4)] show ?case using s1(1,5) by (auto simp: algebra_simps)
qed

text \<open>Inserting the metatag does not count it, removing it does: after \<open>n\<close> insertions of \<open>@tags\<close> from
  the start the tree holds eleven nodes and the counter says \<open>11 - n\<close>, which passes below zero.\<close>

lemma tree_size_drift:
  assumes "1 \<le> n" and "n \<le> 200"
  shows "\<exists>s T. refresh n (demo_lib 900) = Inr s \<and> api_store s T \<and> dom T = {1 .. 11} \<and> tree_size s = 11 - of_nat n"
proof -
  obtain m where m: "n = Suc m" using assms(1) by (cases n) auto
  obtain s1 where s1: "tag_tree_insert (CStr ''@tags'') NULL (demo_lib 900) = Inr (METATAG_ID, s1)"
    "api_store s1 (default_store(1 \<mapsto> metatag default_store (\<lambda>_. 0)))" "tag_tree_inited s1" "alloc_ready 866 s1" "tree_size s1 = 10"
    using first_refresh [of 900] by auto
  have "alloc_ready (4 * m) s1" using alloc_ready_le [OF s1(4)] assms(2) m by simp
  from refresh_again [OF s1(2,3) this] obtain s T junk where s: "refresh m s1 = Inr s"
    "api_store s (default_store(1 \<mapsto> metatag T junk))" "tree_size s = 10 - of_nat m" using s1(5) by auto
  have "dom (default_store(1 \<mapsto> metatag T junk)) = insert 1 {2 .. 11}" unfolding default_store_range [symmetric] by simp
  also have "\<dots> = {1 .. 11}" by auto
  finally have d: "dom (default_store(1 \<mapsto> metatag T junk)) = {1 .. 11}" .
  have "refresh n (demo_lib 900) = Inr s" using s1(1) s(1) m by simp
  moreover have "tree_size s = 11 - of_nat n" using s(3) m by simp
  ultimately show ?thesis using s(2) d by blast
qed

lemma tree_size_drift_witness:
  "\<exists>s T. refresh 12 (demo_lib 900) = Inr s \<and> api_store s T \<and> dom T = {1 .. 11} \<and> tree_size s = - 1"
  using tree_size_drift [of 12] by simp

end
