(* ===== verification/Plcstub.thy ===== *)
theory Plcstub
  imports Accessors Debug
begin

text \<open>
  The functions of the library's interface, \<^verbatim>\<open>src/plcstub.c\<close>, except \<open>plc_tag_create\<close>
  (theory \<open>Attrib\<close>) and \<open>plc_tag_decode_error\<close> (theory \<open>Status\<close>). The code of a callback is the
  client's: it is the parameter \<open>cl\<close>, which says what the function at an address does to the state
  of the library when it is called with a tag, an event and a status.
\<close>

section \<open>Callbacks\<close>

type_synonym client = "addr \<Rightarrow> c_int \<Rightarrow> c_int \<Rightarrow> c_int \<Rightarrow> lib \<Rightarrow> stop + lib"

text \<open>\<open>t->cb(tag, event, status)\<close>, and the same under \<open>if (t->cb)\<close>.\<close>

definition call_cb :: "client \<Rightarrow> addr \<Rightarrow> c_int \<Rightarrow> c_int \<Rightarrow> c_int \<Rightarrow> lib \<Rightarrow> stop + lib" where
  "call_cb cl t tag event status s = bindE (get_node s t) (\<lambda>n.
     if cb n = NULL then Inl (Undef NullDeref)
     else cl (cb n) tag event status (s\<lparr>events := events s @ [(cb n, tag, event, status)]\<rparr>))"

definition notify :: "client \<Rightarrow> addr \<Rightarrow> c_int \<Rightarrow> c_int \<Rightarrow> c_int \<Rightarrow> lib \<Rightarrow> stop + lib" where
  "notify cl t tag event status s = bindE (get_node s t) (\<lambda>n.
     if cb n \<noteq> NULL then call_cb cl t tag event status s else Inr s)"

section \<open>Reading and writing elements\<close>

text \<open>
  The lines both functions have between the first and the last event: the check of the offset,
  with its early returns (\<open>None\<close>), and its scaling by the size of an element, in \<open>size_t\<close> and
  back to \<open>int\<close>.
\<close>

definition check_offset :: "client \<Rightarrow> addr \<Rightarrow> c_int \<Rightarrow> c_int \<Rightarrow> lib \<Rightarrow> stop + c_int option \<times> lib" where
  "check_offset cl t tag offset s =
     bindE (get_node s t) (\<lambda>n.
     bindE (type_to_enum (types s) (tag_type n)) (\<lambda>e.
     if e \<noteq> TAG_ARRAY then
       (if 0 <s offset then
          bindE (notify cl t tag PLCTAG_EVENT_ABORTED PLCTAG_ERR_BAD_PARAM s) (\<lambda>s.
          bindE (MTX_UNLOCK t s) (\<lambda>s. Inr (None, s)))
        else Inr (Some offset, s))
     else
       bindE (as_array (types s) (tag_type n)) (\<lambda>(mt, len).
       if ucast len \<le>s offset then bindE (MTX_UNLOCK t s) (\<lambda>s. Inr (None, s))
       else bindE (type_size_bytes (types s) mt) (\<lambda>sz.
         Inr (Some (ucast (scast offset * sz)), s)))))"

text \<open>\<open>fn\<close> is the getter or setter of the type; the value a getter stores through \<open>buf\<close> is part
  of the result, \<open>None\<close> where \<open>buf\<close> is left as it was.\<close>

definition plcstub_get_impl :: "client \<Rightarrow> c_int \<Rightarrow> c_int \<Rightarrow> (byte list \<Rightarrow> c_int \<Rightarrow> stop + 'v) \<Rightarrow> lib
    \<Rightarrow> stop + (c_int \<times> 'v option) \<times> lib" where
  "plcstub_get_impl cl tag offset fn s =
     bindE (tag_tree_lookup tag s) (\<lambda>(t, s).
     if t = NULL then Inr ((PLCTAG_ERR_NOT_FOUND, None), s) else
     bindE (MTX_LOCK t s) (\<lambda>s.
     bindE (notify cl t tag PLCTAG_EVENT_READ_STARTED PLCTAG_STATUS_OK s) (\<lambda>s.
     bindE (check_offset cl t tag offset s) (\<lambda>(off, s).
     case off of None \<Rightarrow> Inr ((PLCTAG_ERR_BAD_PARAM, None), s) | Some offset \<Rightarrow>
     bindE (get_node s t) (\<lambda>n.
     bindE (fn (data n) offset) (\<lambda>val.
     bindE (notify cl t tag PLCTAG_EVENT_READ_COMPLETED PLCTAG_STATUS_OK s) (\<lambda>s.
     bindE (MTX_UNLOCK t s) (\<lambda>s.
     Inr ((PLCTAG_STATUS_OK, Some val), s)))))))))"

definition plcstub_set_impl :: "client \<Rightarrow> c_int \<Rightarrow> c_int \<Rightarrow> (byte list \<Rightarrow> c_int \<Rightarrow> stop + byte list) \<Rightarrow> lib
    \<Rightarrow> stop + c_int \<times> lib" where
  "plcstub_set_impl cl tag offset fn s =
     bindE (tag_tree_lookup tag s) (\<lambda>(t, s).
     if t = NULL then Inr (PLCTAG_ERR_NOT_FOUND, s) else
     bindE (MTX_LOCK t s) (\<lambda>s.
     bindE (notify cl t tag PLCTAG_EVENT_WRITE_STARTED PLCTAG_STATUS_OK s) (\<lambda>s.
     bindE (check_offset cl t tag offset s) (\<lambda>(off, s).
     case off of None \<Rightarrow> Inr (PLCTAG_ERR_BAD_PARAM, s) | Some offset \<Rightarrow>
     bindE (get_node s t) (\<lambda>n.
     bindE (fn (data n) offset) (\<lambda>buf.
     bindE (upd_node t (\<lambda>n. n\<lparr>data := buf\<rparr>) s) (\<lambda>s.
     bindE (notify cl t tag PLCTAG_EVENT_WRITE_COMPLETED PLCTAG_STATUS_OK s) (\<lambda>s.
     bindE (MTX_UNLOCK t s) (\<lambda>s.
     Inr (PLCTAG_STATUS_OK, s))))))))))"

text \<open>The macros; reading the variable \<open>val\<close> before it is set would be undefined.\<close>

definition GETTER :: "(c_int \<Rightarrow> 'a::len word) \<Rightarrow> client \<Rightarrow> c_int \<Rightarrow> c_int \<Rightarrow> lib \<Rightarrow> stop + 'a word \<times> lib" where
  "GETTER conv cl tag offset s =
     bindE (plcstub_get_impl cl tag offset getter_cb s) (\<lambda>((impl_ret, val), s).
     if impl_ret \<noteq> PLCTAG_STATUS_OK then Inr (conv impl_ret, s)
     else case val of None \<Rightarrow> Inl (Undef BadPointer) | Some v \<Rightarrow> Inr (v, s))"

definition SETTER :: "client \<Rightarrow> c_int \<Rightarrow> c_int \<Rightarrow> 'a::len word \<Rightarrow> lib \<Rightarrow> stop + c_int \<times> lib" where
  "SETTER cl tag offset val s = plcstub_set_impl cl tag offset (\<lambda>buf off. setter_cb buf off val) s"

definition plc_tag_get_bit :: "client \<Rightarrow> c_int \<Rightarrow> c_int \<Rightarrow> lib \<Rightarrow> stop + 32 word \<times> lib" where
  "plc_tag_get_bit = GETTER int_to_int"

definition plc_tag_get_uint64 :: "client \<Rightarrow> c_int \<Rightarrow> c_int \<Rightarrow> lib \<Rightarrow> stop + 64 word \<times> lib" where
  "plc_tag_get_uint64 = GETTER int_to_int"

definition plc_tag_get_int64 :: "client \<Rightarrow> c_int \<Rightarrow> c_int \<Rightarrow> lib \<Rightarrow> stop + 64 word \<times> lib" where
  "plc_tag_get_int64 = GETTER int_to_int"

definition plc_tag_get_uint32 :: "client \<Rightarrow> c_int \<Rightarrow> c_int \<Rightarrow> lib \<Rightarrow> stop + 32 word \<times> lib" where
  "plc_tag_get_uint32 = GETTER int_to_int"

definition plc_tag_get_int32 :: "client \<Rightarrow> c_int \<Rightarrow> c_int \<Rightarrow> lib \<Rightarrow> stop + 32 word \<times> lib" where
  "plc_tag_get_int32 = GETTER int_to_int"

definition plc_tag_get_uint16 :: "client \<Rightarrow> c_int \<Rightarrow> c_int \<Rightarrow> lib \<Rightarrow> stop + 16 word \<times> lib" where
  "plc_tag_get_uint16 = GETTER int_to_int"

definition plc_tag_get_int16 :: "client \<Rightarrow> c_int \<Rightarrow> c_int \<Rightarrow> lib \<Rightarrow> stop + 16 word \<times> lib" where
  "plc_tag_get_int16 = GETTER int_to_int"

definition plc_tag_get_uint8 :: "client \<Rightarrow> c_int \<Rightarrow> c_int \<Rightarrow> lib \<Rightarrow> stop + 8 word \<times> lib" where
  "plc_tag_get_uint8 = GETTER int_to_int"

definition plc_tag_get_int8 :: "client \<Rightarrow> c_int \<Rightarrow> c_int \<Rightarrow> lib \<Rightarrow> stop + 8 word \<times> lib" where
  "plc_tag_get_int8 = GETTER int_to_int"

definition plc_tag_get_float64 :: "client \<Rightarrow> c_int \<Rightarrow> c_int \<Rightarrow> lib \<Rightarrow> stop + 64 word \<times> lib" where
  "plc_tag_get_float64 = GETTER int_to_double"

definition plc_tag_get_float32 :: "client \<Rightarrow> c_int \<Rightarrow> c_int \<Rightarrow> lib \<Rightarrow> stop + 32 word \<times> lib" where
  "plc_tag_get_float32 = GETTER int_to_float"

definition plc_tag_set_bit :: "client \<Rightarrow> c_int \<Rightarrow> c_int \<Rightarrow> 32 word \<Rightarrow> lib \<Rightarrow> stop + c_int \<times> lib" where
  "plc_tag_set_bit = SETTER"

definition plc_tag_set_uint64 :: "client \<Rightarrow> c_int \<Rightarrow> c_int \<Rightarrow> 64 word \<Rightarrow> lib \<Rightarrow> stop + c_int \<times> lib" where
  "plc_tag_set_uint64 = SETTER"

definition plc_tag_set_int64 :: "client \<Rightarrow> c_int \<Rightarrow> c_int \<Rightarrow> 64 word \<Rightarrow> lib \<Rightarrow> stop + c_int \<times> lib" where
  "plc_tag_set_int64 = SETTER"

definition plc_tag_set_uint32 :: "client \<Rightarrow> c_int \<Rightarrow> c_int \<Rightarrow> 32 word \<Rightarrow> lib \<Rightarrow> stop + c_int \<times> lib" where
  "plc_tag_set_uint32 = SETTER"

definition plc_tag_set_int32 :: "client \<Rightarrow> c_int \<Rightarrow> c_int \<Rightarrow> 32 word \<Rightarrow> lib \<Rightarrow> stop + c_int \<times> lib" where
  "plc_tag_set_int32 = SETTER"

definition plc_tag_set_uint16 :: "client \<Rightarrow> c_int \<Rightarrow> c_int \<Rightarrow> 16 word \<Rightarrow> lib \<Rightarrow> stop + c_int \<times> lib" where
  "plc_tag_set_uint16 = SETTER"

definition plc_tag_set_int16 :: "client \<Rightarrow> c_int \<Rightarrow> c_int \<Rightarrow> 16 word \<Rightarrow> lib \<Rightarrow> stop + c_int \<times> lib" where
  "plc_tag_set_int16 = SETTER"

definition plc_tag_set_uint8 :: "client \<Rightarrow> c_int \<Rightarrow> c_int \<Rightarrow> 8 word \<Rightarrow> lib \<Rightarrow> stop + c_int \<times> lib" where
  "plc_tag_set_uint8 = SETTER"

definition plc_tag_set_int8 :: "client \<Rightarrow> c_int \<Rightarrow> c_int \<Rightarrow> 8 word \<Rightarrow> lib \<Rightarrow> stop + c_int \<times> lib" where
  "plc_tag_set_int8 = SETTER"

definition plc_tag_set_float64 :: "client \<Rightarrow> c_int \<Rightarrow> c_int \<Rightarrow> 64 word \<Rightarrow> lib \<Rightarrow> stop + c_int \<times> lib" where
  "plc_tag_set_float64 = SETTER"

definition plc_tag_set_float32 :: "client \<Rightarrow> c_int \<Rightarrow> c_int \<Rightarrow> 32 word \<Rightarrow> lib \<Rightarrow> stop + c_int \<times> lib" where
  "plc_tag_set_float32 = SETTER"

section \<open>The other functions\<close>

definition plc_tag_check_lib_version :: "c_int \<Rightarrow> c_int \<Rightarrow> c_int \<Rightarrow> c_int" where
  "plc_tag_check_lib_version req_major req_minor req_patch = PLCTAG_STATUS_OK"

definition plc_tag_get_debug_level :: "debug_state \<Rightarrow> c_int" where
  "plc_tag_get_debug_level d = debug_get_level d"

definition plc_tag_set_debug_level :: "c_int \<Rightarrow> debug_state \<Rightarrow> stop + debug_state" where
  "plc_tag_set_debug_level level d = debug_set_level level d"

definition plc_tag_destroy :: "c_int \<Rightarrow> lib \<Rightarrow> stop + c_int \<times> lib" where
  "plc_tag_destroy tag s = tag_tree_remove tag s"

text \<open>\<open>size = t\<close>: the pointer, cut to the width of an \<open>int\<close>.\<close>

definition plc_tag_get_size :: "c_int \<Rightarrow> lib \<Rightarrow> stop + c_int \<times> lib" where
  "plc_tag_get_size i s =
     bindE (tag_tree_lookup i s) (\<lambda>(t, s).
     if t = NULL then Inr (PLCTAG_ERR_NOT_FOUND, s) else
     bindE (MTX_LOCK t s) (\<lambda>s.
     let size = ucast t in
     bindE (MTX_UNLOCK t s) (\<lambda>s.
     Inr (size, s))))"

definition plc_tag_lock :: "c_int \<Rightarrow> lib \<Rightarrow> stop + c_int \<times> lib" where
  "plc_tag_lock i s =
     bindE (tag_tree_lookup i s) (\<lambda>(t, s).
     if t = NULL then Inr (PLCTAG_ERR_NOT_FOUND, s) else
     bindE (MTX_LOCK t s) (\<lambda>s. Inr (PLCTAG_STATUS_OK, s)))"

definition plc_tag_unlock :: "c_int \<Rightarrow> lib \<Rightarrow> stop + c_int \<times> lib" where
  "plc_tag_unlock i s =
     bindE (tag_tree_lookup i s) (\<lambda>(t, s).
     if t = NULL then Inr (PLCTAG_ERR_NOT_FOUND, s) else
     bindE (MTX_UNLOCK t s) (\<lambda>s. Inr (PLCTAG_STATUS_OK, s)))"

definition plc_tag_read :: "client \<Rightarrow> c_int \<Rightarrow> c_int \<Rightarrow> lib \<Rightarrow> stop + c_int \<times> lib" where
  "plc_tag_read cl i timeout s =
     (if timeout <s 0 then Inr (PLCTAG_ERR_BAD_PARAM, s) else
     bindE (tag_tree_lookup i s) (\<lambda>(t, s).
     if t = NULL then Inr (PLCTAG_ERR_NOT_FOUND, s) else
     bindE (MTX_LOCK t s) (\<lambda>s.
     bindE (get_node s t) (\<lambda>n.
     bindE (if cb n \<noteq> NULL then
              bindE (call_cb cl t i PLCTAG_EVENT_READ_STARTED PLCTAG_STATUS_OK s)
                (call_cb cl t i PLCTAG_EVENT_READ_COMPLETED PLCTAG_STATUS_OK)
            else Inr s) (\<lambda>s.
     bindE (MTX_UNLOCK t s) (\<lambda>s. Inr (PLCTAG_STATUS_OK, s)))))))"

definition plc_tag_write :: "client \<Rightarrow> c_int \<Rightarrow> c_int \<Rightarrow> lib \<Rightarrow> stop + c_int \<times> lib" where
  "plc_tag_write cl i timeout s =
     (if timeout <s 0 then Inr (PLCTAG_ERR_BAD_PARAM, s) else
     bindE (tag_tree_lookup i s) (\<lambda>(t, s).
     if t = NULL then Inr (PLCTAG_ERR_NOT_FOUND, s) else
     bindE (MTX_LOCK t s) (\<lambda>s.
     bindE (get_node s t) (\<lambda>n.
     bindE (if cb n \<noteq> NULL then
              bindE (call_cb cl t i PLCTAG_EVENT_WRITE_STARTED PLCTAG_STATUS_OK s)
                (call_cb cl t i PLCTAG_EVENT_WRITE_COMPLETED PLCTAG_STATUS_OK)
            else Inr s) (\<lambda>s.
     bindE (MTX_UNLOCK t s) (\<lambda>s. Inr (PLCTAG_STATUS_OK, s)))))))"

definition plc_tag_register_callback :: "c_int \<Rightarrow> addr \<Rightarrow> lib \<Rightarrow> stop + c_int \<times> lib" where
  "plc_tag_register_callback i f s =
     bindE (tag_tree_lookup i s) (\<lambda>(t, s).
     if t = NULL then Inr (PLCTAG_ERR_NOT_FOUND, s) else
     bindE (MTX_LOCK t s) (\<lambda>s.
     bindE (upd_node t (\<lambda>n. n\<lparr>cb := f\<rparr>) s) (\<lambda>s.
     bindE (MTX_UNLOCK t s) (\<lambda>s. Inr (PLCTAG_STATUS_OK, s)))))"

definition plc_tag_unregister_callback :: "c_int \<Rightarrow> lib \<Rightarrow> stop + c_int \<times> lib" where
  "plc_tag_unregister_callback i s = plc_tag_register_callback i NULL s"

definition plc_tag_status :: "c_int \<Rightarrow> lib \<Rightarrow> stop + c_int \<times> lib" where
  "plc_tag_status i s =
     bindE (tag_tree_lookup i s) (\<lambda>(t, s).
     Inr (if t = NULL then PLCTAG_ERR_NOT_FOUND else PLCTAG_STATUS_OK, s))"

end
