(* ===== verification/Api_Spec.thy ===== *)
theory Api_Spec
  imports Plcstub Tag_Ops
begin

text \<open>
  The interface of the library as functions on the abstract store: what each call returns, the store
  it leaves and the callbacks it makes, and the lemmas that the functions of \<open>Plcstub\<close> do that.
\<close>

section \<open>The interface on the abstract store\<close>

type_synonym event = "addr \<times> c_int \<times> c_int \<times> c_int"
type_synonym 'r outcome = "stop + 'r \<times> store \<times> event list"

text \<open>A client whose callbacks do not call the library.\<close>

definition quiet :: "client \<Rightarrow> bool" where
  "quiet cl \<longleftrightarrow> (\<forall>f tag event status s. cl f tag event status s = Inr s)"

text \<open>The calls of the callback of a tag.\<close>

definition told :: "tag \<Rightarrow> c_int \<Rightarrow> (c_int \<times> c_int) list \<Rightarrow> event list" where
  "told t i es = (if t_cb t = NULL then [] else map (\<lambda>(event, status). (t_cb t, i, event, status)) es)"

text \<open>Where the element \<open>off\<close> of a value of a type starts in the buffer, in the arithmetic of the code.\<close>

definition element_at :: "ty \<Rightarrow> c_int \<Rightarrow> c_int option" where
  "element_at ty off = (case ty of
     Arr n mt \<Rightarrow> if int (unat n) \<le> sint off then None else Some (off * of_nat (ty_size mt))
   | _ \<Rightarrow> if 0 < sint off then None else Some off)"

definition aborted :: "ty \<Rightarrow> (c_int \<times> c_int) list" where
  "aborted ty = (if shape ty = TAG_ARRAY then [] else [(PLCTAG_EVENT_ABORTED, PLCTAG_ERR_BAD_PARAM)])"

text \<open>A call that finds the tag and takes its mutex.\<close>

definition with_tag :: "store \<Rightarrow> c_int \<Rightarrow> 'r \<Rightarrow> (tag \<Rightarrow> 'r outcome) \<Rightarrow> 'r outcome" where
  "with_tag T i missing f = (case T (sint i) of
     None \<Rightarrow> Inr (missing, T, [])
   | Some t \<Rightarrow> if t_mtx t \<noteq> None then Inl Blocked else f t)"

definition get_spec :: "(c_int \<Rightarrow> 'a::len word) \<Rightarrow> c_int \<Rightarrow> c_int \<Rightarrow> store \<Rightarrow> 'a word outcome" where
  "get_spec conv i off T = with_tag T i (conv PLCTAG_ERR_NOT_FOUND) (\<lambda>t.
     case element_at (t_type t) off of
       None \<Rightarrow> Inr (conv PLCTAG_ERR_BAD_PARAM, T,
         told t i ((PLCTAG_EVENT_READ_STARTED, PLCTAG_STATUS_OK) # aborted (t_type t)))
     | Some p \<Rightarrow> bindE (getter_cb (t_data t) p) (\<lambda>v. Inr (v, T, told t i
         [(PLCTAG_EVENT_READ_STARTED, PLCTAG_STATUS_OK), (PLCTAG_EVENT_READ_COMPLETED, PLCTAG_STATUS_OK)])))"

definition set_spec :: "c_int \<Rightarrow> c_int \<Rightarrow> 'a::len word \<Rightarrow> store \<Rightarrow> c_int outcome" where
  "set_spec i off v T = with_tag T i PLCTAG_ERR_NOT_FOUND (\<lambda>t.
     case element_at (t_type t) off of
       None \<Rightarrow> Inr (PLCTAG_ERR_BAD_PARAM, T,
         told t i ((PLCTAG_EVENT_WRITE_STARTED, PLCTAG_STATUS_OK) # aborted (t_type t)))
     | Some p \<Rightarrow> bindE (setter_cb (t_data t) p v) (\<lambda>buf. Inr (PLCTAG_STATUS_OK, T(sint i \<mapsto> t\<lparr>t_data := buf\<rparr>), told t i
         [(PLCTAG_EVENT_WRITE_STARTED, PLCTAG_STATUS_OK), (PLCTAG_EVENT_WRITE_COMPLETED, PLCTAG_STATUS_OK)])))"

definition event_spec :: "c_int \<Rightarrow> c_int \<Rightarrow> c_int \<Rightarrow> c_int \<Rightarrow> store \<Rightarrow> c_int outcome" where
  "event_spec started completed i timeout T =
     (if sint timeout < 0 then Inr (PLCTAG_ERR_BAD_PARAM, T, [])
      else with_tag T i PLCTAG_ERR_NOT_FOUND (\<lambda>t. Inr (PLCTAG_STATUS_OK, T,
        told t i [(started, PLCTAG_STATUS_OK), (completed, PLCTAG_STATUS_OK)])))"

definition lock_spec :: "nat \<Rightarrow> c_int \<Rightarrow> store \<Rightarrow> c_int outcome" where
  "lock_spec me i T = with_tag T i PLCTAG_ERR_NOT_FOUND
     (\<lambda>t. Inr (PLCTAG_STATUS_OK, T(sint i \<mapsto> t\<lparr>t_mtx := Some me\<rparr>), []))"

definition unlock_spec :: "nat \<Rightarrow> c_int \<Rightarrow> store \<Rightarrow> c_int outcome" where
  "unlock_spec me i T = (case T (sint i) of
     None \<Rightarrow> Inr (PLCTAG_ERR_NOT_FOUND, T, [])
   | Some t \<Rightarrow> if t_mtx t = Some me then Inr (PLCTAG_STATUS_OK, T(sint i \<mapsto> t\<lparr>t_mtx := None\<rparr>), [])
       else Inl (Undef BadUnlock))"

definition register_spec :: "c_int \<Rightarrow> addr \<Rightarrow> store \<Rightarrow> c_int outcome" where
  "register_spec i f T = with_tag T i PLCTAG_ERR_NOT_FOUND
     (\<lambda>t. Inr (PLCTAG_STATUS_OK, T(sint i \<mapsto> t\<lparr>t_cb := f\<rparr>), []))"

definition status_spec :: "c_int \<Rightarrow> store \<Rightarrow> c_int outcome" where
  "status_spec i T = Inr (if T (sint i) = None then PLCTAG_ERR_NOT_FOUND else PLCTAG_STATUS_OK, T, [])"

definition destroy_api :: "c_int \<Rightarrow> store \<Rightarrow> c_int outcome" where
  "destroy_api i T =
     (if i = METATAG_ID then Inr (PLCTAG_STATUS_OK, T, [])
      else with_tag T i PLCTAG_ERR_NOT_FOUND (\<lambda>t. Inr (PLCTAG_STATUS_OK, T(sint i := None), [])))"

text \<open>A call \<open>c\<close> of the code from the state \<open>s\<close> has the outcome \<open>out\<close>, and if it returns, the next
  \<open>n\<close> allocations after it, beside those of a pending initialisation, succeed.\<close>

definition keeps_rest :: "lib \<Rightarrow> lib \<Rightarrow> bool" where
  "keeps_rest s s' \<longleftrightarrow> self s' = self s \<and> dirt s' = dirt s
     \<and> objs (types s) \<subseteq>\<^sub>m objs (types s') \<and> stack (types s') = stack (types s)"

definition ready_for :: "nat \<Rightarrow> lib \<Rightarrow> bool" where
  "ready_for n s \<longleftrightarrow> alloc_ready (init_cost s + n) s"

definition refines :: "nat \<Rightarrow> stop + 'r \<times> lib \<Rightarrow> lib \<Rightarrow> 'r outcome \<Rightarrow> bool" where
  "refines n c s out = (case out of
     Inl e \<Rightarrow> c = Inl e
   | Inr (r, T, es) \<Rightarrow> \<exists>s'. c = Inr (r, s') \<and> api_store s' T \<and> events s' = events s @ es \<and> keeps_rest s s'
       \<and> ready_for n s')"

lemma lookup_ready_for: "lookup_ready n s T \<Longrightarrow> ready_for n s"
  using alloc_ready_le [of "init_cost s + (4 + n)" s "init_cost s + n"] by (simp add: lookup_ready_def ready_for_def)

lemma refines_Inl [simp]: "refines n c s (Inl e) \<longleftrightarrow> c = Inl e"
  by (simp add: refines_def)

section \<open>Holding a node\<close>

text \<open>The node \<open>a\<close> of the tag \<open>i\<close>, of which the call has a pointer, in a state without the tree lock.\<close>

definition held :: "lib \<Rightarrow> addr \<Rightarrow> int \<Rightarrow> store \<Rightarrow> tag \<Rightarrow> bool" where
  "held s a i T t \<longleftrightarrow> store_is s T \<and> T i = Some t \<and> points s a i \<and> tag_tree_mtx s = RW_free \<and> tag_tree_inited s"

text \<open>Only nodes have changed.\<close>

definition nodes_only :: "lib \<Rightarrow> lib \<Rightarrow> bool" where
  "nodes_only s s' \<longleftrightarrow> s' = s\<lparr>tags_heap := tags_heap s'\<rparr> \<and> dom (tags_heap s') = dom (tags_heap s)"

lemma nodes_only_fields:
  assumes "nodes_only s s'"
  shows "self s' = self s" "dirt s' = dirt s" "types s' = types s" "events s' = events s"
    "tag_tree_mtx s' = tag_tree_mtx s" "tag_tree_inited s' = tag_tree_inited s"
proof -
  have e: "s' = s\<lparr>tags_heap := tags_heap s'\<rparr>" using assms by (simp add: nodes_only_def)
  show "self s' = self s" "dirt s' = dirt s" "types s' = types s" "events s' = events s"
    "tag_tree_mtx s' = tag_tree_mtx s" "tag_tree_inited s' = tag_tree_inited s" by (subst e, simp)+
qed

lemma nodes_only_alloc: "nodes_only s s' \<Longrightarrow> alloc_ready n s \<Longrightarrow> alloc_ready n s'"
proof -
  assume a: "nodes_only s s'" "alloc_ready n s"
  then have "consumes 0 s s'" using nodes_only_fields(3) [OF a(1)] by (intro consumes_none) (auto simp: nodes_only_def)
  from consumes_ready [OF this] a(2) show ?thesis by simp
qed

lemma held_ready: "held s a i T t \<Longrightarrow> ready_for n s = alloc_ready n s"
  by (simp add: held_def ready_for_def init_cost_def)

lemma alloc_ready_events [simp]: "alloc_ready n (s\<lparr>events := es\<rparr>) = alloc_ready n s"
  by (simp add: alloc_ready_def)

lemma held_node:
  "held s a i T t \<Longrightarrow> \<exists>n. get_node s a = Inr n \<and> tags_heap s a = Some n \<and> a \<noteq> NULL \<and> node_is (types s) n t"
  using store_upd [of "{}" s T i t a "\<lambda>n. n" t] by (auto simp: held_def get_node_def points_def)

lemma held_upd:
  assumes h: "held s a i T t"
    and f: "\<And>n. rbe_left (f n) = rbe_left n \<and> rbe_right (f n) = rbe_right n
      \<and> rbe_parent (f n) = rbe_parent n \<and> tag_id (f n) = tag_id n"
    and t': "\<And>n. node_is (types s) n t \<Longrightarrow> node_is (types s) (f n) t'"
  shows "\<exists>s'. upd_node a f s = Inr s' \<and> held s' a i (T(i \<mapsto> t')) t' \<and> nodes_only s s'"
  using store_upd [of "{}" s T i t a f t', OF _ _ _ _ f t'] h by (auto simp: held_def nodes_only_def points_def)

lemma held_lock:
  assumes h: "held s a i T t"
  shows "if t_mtx t \<noteq> None then MTX_LOCK a s = Inl Blocked
    else \<exists>s'. MTX_LOCK a s = Inr s' \<and> held s' a i (T(i \<mapsto> t\<lparr>t_mtx := Some (self s)\<rparr>)) (t\<lparr>t_mtx := Some (self s)\<rparr>)
      \<and> nodes_only s s'"
  using mtx_lock_spec [of "{}" s T i t a] h by (auto simp: held_def nodes_only_def Let_def points_def)

lemma held_unlock:
  assumes h: "held s a i T t"
  shows "if t_mtx t \<noteq> Some (self s) then MTX_UNLOCK a s = Inl (Undef BadUnlock)
    else \<exists>s'. MTX_UNLOCK a s = Inr s' \<and> held s' a i (T(i \<mapsto> t\<lparr>t_mtx := None\<rparr>)) (t\<lparr>t_mtx := None\<rparr>)
      \<and> nodes_only s s'"
  using mtx_unlock_spec [of "{}" s T i t a] h by (auto simp: held_def nodes_only_def Let_def points_def)

lemma held_notify:
  assumes h: "held s a (sint i) T t" and q: "quiet cl"
  shows "notify cl a i e st s = Inr (s\<lparr>events := events s @ told t i [(e, st)]\<rparr>)
    \<and> held (s\<lparr>events := events s @ es\<rparr>) a (sint i) T t"
proof -
  obtain n where n: "get_node s a = Inr n" "node_is (types s) n t" using held_node [OF h] by blast
  have "s\<lparr>events := events s\<rparr> = s" by simp
  then show ?thesis using n q h
    by (auto simp: notify_def call_cb_def quiet_def told_def node_is_def held_def)
qed

section \<open>The functions\<close>

lemma api_held: "held s a i T t \<Longrightarrow> api_store s T"
  by (simp add: held_def api_store_def)

lemma mtx_roundtrip: "t_mtx t = None \<Longrightarrow> t\<lparr>t_mtx := x, t_mtx := None\<rparr> = t" for t :: tag
  by (cases t) simp

text \<open>The start of every function that works on a tag: the lookup, and the state it leaves.\<close>

lemma lookup_held:
  assumes st: "api_store s T" and ready: "lookup_ready n s T"
  obtains a s1 where "tag_tree_lookup i s = Inr (a, s1)" "api_store s1 (looked_up T (dirt s) (sint i))"
    "keeps_rest s s1" "events s1 = events s" "ready_for n s1"
    "case looked_up T (dirt s) (sint i) (sint i) of
       None \<Rightarrow> a = NULL
     | Some t \<Rightarrow> a \<noteq> NULL \<and> held s1 a (sint i) (looked_up T (dirt s) (sint i)) t"
proof -
  obtain a s1 where l: "tag_tree_lookup i s = Inr (a, s1)" "api_store s1 (looked_up T (dirt s) (sint i))"
    "tag_tree_inited s1" "keeps s s1"
    "if looked_up T (dirt s) (sint i) (sint i) = None then a = NULL else points s1 a (sint i)"
    "alloc_ready n s1" using lookup_spec [OF st ready, of i] by blast
  have "keeps_rest s s1" "events s1 = events s" using l(4) by (simp_all add: keeps_def keeps_rest_def)
  moreover have "ready_for n s1" using l(3,6) by (simp add: ready_for_def init_cost_def)
  moreover have "case looked_up T (dirt s) (sint i) (sint i) of None \<Rightarrow> a = NULL
     | Some t \<Rightarrow> a \<noteq> NULL \<and> held s1 a (sint i) (looked_up T (dirt s) (sint i)) t"
    using l(2,3,5) by (auto simp: held_def api_store_def points_def split: option.splits if_splits)
  ultimately show thesis using that l(1,2) by blast
qed

text \<open>A function that looks the tag up, takes its mutex and goes on with \<open>g\<close>.\<close>

lemma locked_refines:
  assumes st: "api_store s T" and ready: "lookup_ready n s T"
    and g: "\<And>a s1 t. held s1 a (sint i) ((looked_up T (dirt s) (sint i))(sint i \<mapsto> t\<lparr>t_mtx := Some (self s)\<rparr>))
        (t\<lparr>t_mtx := Some (self s)\<rparr>) \<Longrightarrow> t_mtx t = None \<Longrightarrow> looked_up T (dirt s) (sint i) (sint i) = Some t \<Longrightarrow>
        self s1 = self s \<Longrightarrow> alloc_ready n s1 \<Longrightarrow> refines n (g a s1) s1 (f t)"
  shows "refines n (bindE (tag_tree_lookup i s) (\<lambda>(t, s).
      if t = NULL then Inr (missing, s) else bindE (MTX_LOCK t s) (g t))) s
    (with_tag (looked_up T (dirt s) (sint i)) i missing f)"
proof -
  let ?T = "looked_up T (dirt s) (sint i)"
  obtain a s1 where l: "tag_tree_lookup i s = Inr (a, s1)" "api_store s1 ?T" "keeps_rest s s1" "events s1 = events s"
    "ready_for n s1" "case ?T (sint i) of None \<Rightarrow> a = NULL | Some t \<Rightarrow> a \<noteq> NULL \<and> held s1 a (sint i) ?T t"
    using lookup_held [OF st ready] by blast
  show ?thesis
  proof (cases "?T (sint i)")
    case None
    then show ?thesis using l by (simp add: with_tag_def refines_def)
  next
    case (Some t)
    then have h: "held s1 a (sint i) ?T t" "a \<noteq> NULL" using l(6) by simp_all
    have me: "self s1 = self s" using l(3) by (simp add: keeps_rest_def)
    show ?thesis
    proof (cases "t_mtx t")
      case None
      then obtain s2 where s2: "MTX_LOCK a s1 = Inr s2" "nodes_only s1 s2"
        "held s2 a (sint i) (?T(sint i \<mapsto> t\<lparr>t_mtx := Some (self s)\<rparr>)) (t\<lparr>t_mtx := Some (self s)\<rparr>)"
        using held_lock [OF h(1)] me by auto
      note o = nodes_only_fields [OF s2(2)]
      have "alloc_ready n s2" using nodes_only_alloc [OF s2(2)] held_ready [OF h(1)] l(5) by simp
      then have "refines n (g a s2) s2 (f t)" using g [OF s2(3) None Some] o(1) me by simp
      moreover have "keeps_rest s2 s' \<Longrightarrow> keeps_rest s s'" for s'
        using l(3) o(1,2,3) by (auto simp: keeps_rest_def intro: map_le_trans)
      ultimately show ?thesis using l(1,4) h(2) s2(1) Some None o(4)
        by (auto simp: with_tag_def refines_def split: sum.splits)
    next
      case (Some me')
      then show ?thesis using \<open>?T (sint i) = Some t\<close> held_lock [OF h(1)] l(1) h(2) by (simp add: with_tag_def)
    qed
  qed
qed

text \<open>The end of every such function: the mutex is released.\<close>

lemma unlock_refines:
  assumes h: "held s a i T t" and me: "t_mtx t = Some (self s)"
    and T': "T' = T(i \<mapsto> t\<lparr>t_mtx := None\<rparr>)" and es: "events s = events s0 @ es"
    and k: "self s = self s0" "dirt s = dirt s0" "types s = types s0" and r: "alloc_ready n s"
  shows "refines n (bindE (MTX_UNLOCK a s) (\<lambda>s. Inr (r, s))) s0 (Inr (r, T', es))"
proof -
  obtain s1 where s1: "MTX_UNLOCK a s = Inr s1" "held s1 a i T' (t\<lparr>t_mtx := None\<rparr>)" "nodes_only s s1"
    using held_unlock [OF h] me T' by auto
  show ?thesis using s1 api_held [OF s1(2)] nodes_only_fields [OF s1(3)] es k
      nodes_only_alloc [OF s1(3) r] held_ready [OF s1(2)]
    by (simp add: refines_def keeps_rest_def)
qed

subsection \<open>Elements\<close>

lemma scaled_offset: "ucast (scast off * of_nat k :: size_t) = off * of_nat k" for off :: c_int
proof -
  have eq: "scast off * of_nat k = (word_of_int (sint off * int k) :: size_t)" by simp
  have cut: "ucast (word_of_int x :: size_t) = (word_of_int x :: c_int)" for x by transfer simp
  show ?thesis unfolding eq cut by simp
qed

lemma len_sle: "ucast (n :: 16 word) \<le>s off \<longleftrightarrow> int (unat n) \<le> sint off" for off :: c_int
proof -
  have "uint n < 2 ^ 16" using uint_lt2p [of n] by simp
  moreover have "uint (ucast n :: c_int) = uint n" by (rule uint_up_ucast) (simp add: is_up)
  moreover have "- (2 ^ 31) \<le> uint n" by (rule order_trans [OF _ uint_ge_0]) simp
  ultimately have "sint (ucast n :: c_int) = uint n"
    using signed_take_bit_int_eq_self [of 31 "uint n"] by (simp add: sint_uint)
  then show ?thesis by (simp add: word_sle_eq)
qed

lemma check_offset_spec:
  assumes h: "held s a (sint i) T t" and q: "quiet cl" and me: "t_mtx t = Some (self s)"
  shows "case element_at (t_type t) off of
      Some p \<Rightarrow> check_offset cl a i off s = Inr (Some p, s)
    | None \<Rightarrow> \<exists>s1. check_offset cl a i off s = bindE (MTX_UNLOCK a s1) (\<lambda>s. Inr (None, s))
        \<and> held s1 a (sint i) T t \<and> s1 = s\<lparr>events := events s @ told t i (aborted (t_type t))\<rparr>"
proof -
  obtain n where n: "get_node s a = Inr n" "node_is (types s) n t" using held_node [OF h] by blast
  then have d: "denotes (objs (types s)) (tag_type n) (t_type t)" "ty_depth (t_type t) \<le> stack (types s)"
    by (simp_all add: node_is_def)
  have e: "type_to_enum (types s) (tag_type n) = Inr (shape (t_type t))" using d(1) by simp
  note nf = held_notify [OF h q]
  show ?thesis
  proof (cases "t_type t")
    case (Arr len mt)
    then obtain m where m: "as_array (types s) (tag_type n) = Inr (m, len)" "denotes (objs (types s)) m mt"
      using as_array_denotes d(1) by metis
    have "type_size_bytes (types s) m = Inr (of_nat (ty_size mt))"
      using type_size_at_refine [OF m(2)] d(2) Arr by (simp add: type_size_bytes_def)
    then show ?thesis using n(1) e m(1) Arr h
      by (auto simp: check_offset_def element_at_def len_sle scaled_offset aborted_def told_def)
  next
    case (Simple k)
    have "shape (t_type t) \<noteq> TAG_ARRAY" using d(1) Simple by (cases k) auto
    then show ?thesis using n(1) e Simple nf
      by (auto simp: check_offset_def element_at_def word_sless_alt aborted_def)
  next
    case (Str fs)
    then show ?thesis using n(1) e nf
      by (auto simp: check_offset_def element_at_def word_sless_alt aborted_def)
  qed
qed

definition get_impl_spec :: "c_int \<Rightarrow> c_int \<Rightarrow> (byte list \<Rightarrow> c_int \<Rightarrow> stop + 'v) \<Rightarrow> store
    \<Rightarrow> (c_int \<times> 'v option) outcome" where
  "get_impl_spec i off fn T = with_tag T i (PLCTAG_ERR_NOT_FOUND, None) (\<lambda>t.
     case element_at (t_type t) off of
       None \<Rightarrow> Inr ((PLCTAG_ERR_BAD_PARAM, None), T,
         told t i ((PLCTAG_EVENT_READ_STARTED, PLCTAG_STATUS_OK) # aborted (t_type t)))
     | Some p \<Rightarrow> bindE (fn (t_data t) p) (\<lambda>v. Inr ((PLCTAG_STATUS_OK, Some v), T, told t i
         [(PLCTAG_EVENT_READ_STARTED, PLCTAG_STATUS_OK), (PLCTAG_EVENT_READ_COMPLETED, PLCTAG_STATUS_OK)])))"

lemma told_append: "told t i xs @ told t i ys = told t i (xs @ ys)"
  by (simp add: told_def)

lemma told_mtx [simp]: "told (t\<lparr>t_mtx := m\<rparr>) = told t" "told (t\<lparr>t_data := d\<rparr>) = told t"
  by (auto simp: told_def fun_eq_iff)

lemma get_impl_refines:
  assumes st: "api_store s T" and ready: "lookup_ready n s T" and q: "quiet cl"
  shows "refines n (plcstub_get_impl cl i off fn s) s (get_impl_spec i off fn (looked_up T (dirt s) (sint i)))"
  unfolding plcstub_get_impl_def get_impl_spec_def
proof (rule locked_refines [OF st ready])
  fix a s1 and t :: tag
  let ?T = "looked_up T (dirt s) (sint i)" and ?t = "t\<lparr>t_mtx := Some (self s)\<rparr>"
  assume h: "held s1 a (sint i) (?T(sint i \<mapsto> ?t)) ?t" and free: "t_mtx t = None" and t: "?T (sint i) = Some t"
    and me: "self s1 = self s" and ar: "alloc_ready n s1"
  let ?es = "[(PLCTAG_EVENT_READ_STARTED, PLCTAG_STATUS_OK)]"
  define s2 where "s2 = s1\<lparr>events := events s1 @ told t i ?es\<rparr>"
  have n1: "notify cl a i PLCTAG_EVENT_READ_STARTED PLCTAG_STATUS_OK s1 = Inr s2"
    and h2: "held s2 a (sint i) (?T(sint i \<mapsto> ?t)) ?t"
    using held_notify [OF h q] by (simp_all add: s2_def)
  have m2: "t_mtx ?t = Some (self s2)" using me by (simp add: s2_def)
  have T: "(?T(sint i \<mapsto> ?t))(sint i \<mapsto> ?t\<lparr>t_mtx := None\<rparr>) = ?T"
    using t free mtx_roundtrip [of t] by auto
  note c = check_offset_spec [OF h2 q m2, of off]
  show "refines n (bindE (notify cl a i PLCTAG_EVENT_READ_STARTED PLCTAG_STATUS_OK s1) (\<lambda>s.
     bindE (check_offset cl a i off s) (\<lambda>(off, s).
     case off of None \<Rightarrow> Inr ((PLCTAG_ERR_BAD_PARAM, None), s) | Some offset \<Rightarrow>
     bindE (get_node s a) (\<lambda>n. bindE (fn (data n) offset) (\<lambda>val.
     bindE (notify cl a i PLCTAG_EVENT_READ_COMPLETED PLCTAG_STATUS_OK s) (\<lambda>s.
     bindE (MTX_UNLOCK a s) (\<lambda>s. Inr ((PLCTAG_STATUS_OK, Some val), s)))))))) s1
    (case element_at (t_type t) off of
       None \<Rightarrow> Inr ((PLCTAG_ERR_BAD_PARAM, None), ?T,
         told t i ((PLCTAG_EVENT_READ_STARTED, PLCTAG_STATUS_OK) # aborted (t_type t)))
     | Some p \<Rightarrow> bindE (fn (t_data t) p) (\<lambda>v. Inr ((PLCTAG_STATUS_OK, Some v), ?T, told t i
         [(PLCTAG_EVENT_READ_STARTED, PLCTAG_STATUS_OK), (PLCTAG_EVENT_READ_COMPLETED, PLCTAG_STATUS_OK)])))"
  proof (cases "element_at (t_type t) off")
    case None
    then obtain s3 where s3: "check_offset cl a i off s2 = bindE (MTX_UNLOCK a s3) (\<lambda>s. Inr (None, s))"
      "held s3 a (sint i) (?T(sint i \<mapsto> ?t)) ?t" "s3 = s2\<lparr>events := events s2 @ told t i (aborted (t_type t))\<rparr>"
      using c by auto
    have "refines n (bindE (MTX_UNLOCK a s3) (\<lambda>s. Inr ((PLCTAG_ERR_BAD_PARAM, None), s))) s1
      (Inr ((PLCTAG_ERR_BAD_PARAM, None), ?T, told t i (?es @ aborted (t_type t))))"
      by (rule unlock_refines [OF s3(2)]) (use m2 T s3(3) ar in \<open>simp_all add: s2_def told_append\<close>)
    then show ?thesis using None n1 s3(1) by (simp add: bindE_assoc)
  next
    case (Some p)
    then have co: "check_offset cl a i off s2 = Inr (Some p, s2)" using c by simp
    obtain k where k: "get_node s2 a = Inr k" "data k = t_data t" using held_node [OF h2] by (auto simp: node_is_def)
    define s3 where "s3 = s2\<lparr>events := events s2 @ told t i [(PLCTAG_EVENT_READ_COMPLETED, PLCTAG_STATUS_OK)]\<rparr>"
    have n3: "notify cl a i PLCTAG_EVENT_READ_COMPLETED PLCTAG_STATUS_OK s2 = Inr s3"
      and h3: "held s3 a (sint i) (?T(sint i \<mapsto> ?t)) ?t" using held_notify [OF h2 q] by (simp_all add: s3_def)
    have "refines n (bindE (MTX_UNLOCK a s3) (\<lambda>s. Inr ((PLCTAG_STATUS_OK, Some v), s))) s1
      (Inr ((PLCTAG_STATUS_OK, Some v), ?T, told t i (?es @ [(PLCTAG_EVENT_READ_COMPLETED, PLCTAG_STATUS_OK)])))" for v
      by (rule unlock_refines [OF h3]) (use m2 T ar in \<open>simp_all add: s2_def s3_def told_append\<close>)
    then show ?thesis using Some n1 co k n3 by (cases "fn (t_data t) p") simp_all
  qed
qed

lemma set_impl_refines:
  assumes st: "api_store s T" and ready: "lookup_ready n s T" and q: "quiet cl"
  shows "refines n (SETTER cl i off v s) s (set_spec i off v (looked_up T (dirt s) (sint i)))"
  unfolding SETTER_def plcstub_set_impl_def set_spec_def
proof (rule locked_refines [OF st ready])
  fix a s1 and t :: tag
  let ?T = "looked_up T (dirt s) (sint i)" and ?t = "t\<lparr>t_mtx := Some (self s)\<rparr>"
  assume h: "held s1 a (sint i) (?T(sint i \<mapsto> ?t)) ?t" and free: "t_mtx t = None" and t: "?T (sint i) = Some t"
    and me: "self s1 = self s" and ar: "alloc_ready n s1"
  let ?es = "[(PLCTAG_EVENT_WRITE_STARTED, PLCTAG_STATUS_OK)]"
  define s2 where "s2 = s1\<lparr>events := events s1 @ told t i ?es\<rparr>"
  have n1: "notify cl a i PLCTAG_EVENT_WRITE_STARTED PLCTAG_STATUS_OK s1 = Inr s2"
    and h2: "held s2 a (sint i) (?T(sint i \<mapsto> ?t)) ?t"
    using held_notify [OF h q] by (simp_all add: s2_def)
  have m2: "t_mtx ?t = Some (self s2)" using me by (simp add: s2_def)
  have T: "(?T(sint i \<mapsto> ?t))(sint i \<mapsto> ?t\<lparr>t_mtx := None\<rparr>) = ?T"
    using t free mtx_roundtrip [of t] by auto
  note c = check_offset_spec [OF h2 q m2, of off]
  show "refines n (bindE (notify cl a i PLCTAG_EVENT_WRITE_STARTED PLCTAG_STATUS_OK s1) (\<lambda>s.
     bindE (check_offset cl a i off s) (\<lambda>(off, s).
     case off of None \<Rightarrow> Inr (PLCTAG_ERR_BAD_PARAM, s) | Some offset \<Rightarrow>
     bindE (get_node s a) (\<lambda>n. bindE (setter_cb (data n) offset v) (\<lambda>buf.
     bindE (upd_node a (\<lambda>n. n\<lparr>data := buf\<rparr>) s) (\<lambda>s.
     bindE (notify cl a i PLCTAG_EVENT_WRITE_COMPLETED PLCTAG_STATUS_OK s) (\<lambda>s.
     bindE (MTX_UNLOCK a s) (\<lambda>s. Inr (PLCTAG_STATUS_OK, s))))))))) s1
    (case element_at (t_type t) off of
       None \<Rightarrow> Inr (PLCTAG_ERR_BAD_PARAM, ?T,
         told t i ((PLCTAG_EVENT_WRITE_STARTED, PLCTAG_STATUS_OK) # aborted (t_type t)))
     | Some p \<Rightarrow> bindE (setter_cb (t_data t) p v) (\<lambda>buf. Inr (PLCTAG_STATUS_OK, ?T(sint i \<mapsto> t\<lparr>t_data := buf\<rparr>),
         told t i [(PLCTAG_EVENT_WRITE_STARTED, PLCTAG_STATUS_OK), (PLCTAG_EVENT_WRITE_COMPLETED, PLCTAG_STATUS_OK)])))"
  proof (cases "element_at (t_type t) off")
    case None
    then obtain s3 where s3: "check_offset cl a i off s2 = bindE (MTX_UNLOCK a s3) (\<lambda>s. Inr (None, s))"
      "held s3 a (sint i) (?T(sint i \<mapsto> ?t)) ?t" "s3 = s2\<lparr>events := events s2 @ told t i (aborted (t_type t))\<rparr>"
      using c by auto
    have "refines n (bindE (MTX_UNLOCK a s3) (\<lambda>s. Inr (PLCTAG_ERR_BAD_PARAM, s))) s1
      (Inr (PLCTAG_ERR_BAD_PARAM, ?T, told t i (?es @ aborted (t_type t))))"
      by (rule unlock_refines [OF s3(2)]) (use m2 T s3(3) ar in \<open>simp_all add: s2_def told_append\<close>)
    then show ?thesis using None n1 s3(1) by (simp add: bindE_assoc)
  next
    case (Some p)
    then have co: "check_offset cl a i off s2 = Inr (Some p, s2)" using c by simp
    obtain k where k: "get_node s2 a = Inr k" "data k = t_data t" using held_node [OF h2] by (auto simp: node_is_def)
    show ?thesis
    proof (cases "setter_cb (t_data t) p v")
      case (Inl e)
      then show ?thesis using Some n1 co k by simp
    next
      case (Inr buf)
      let ?u = "?t\<lparr>t_data := buf\<rparr>"
      have "length buf = length (t_data t)" using setter_cb_length [OF Inr] .
      then obtain s3 where s3: "upd_node a (\<lambda>n. n\<lparr>data := buf\<rparr>) s2 = Inr s3"
        "held s3 a (sint i) ((?T(sint i \<mapsto> ?t))(sint i \<mapsto> ?u)) ?u" "nodes_only s2 s3"
        using held_upd [OF h2, of "\<lambda>n. n\<lparr>data := buf\<rparr>" ?u] by (auto simp: node_is_def sized_def)
      note o = nodes_only_fields [OF s3(3)]
      let ?completed = "[(PLCTAG_EVENT_WRITE_COMPLETED, PLCTAG_STATUS_OK)]"
      define s4 where "s4 = s3\<lparr>events := events s3 @ told t i ?completed\<rparr>"
      have n4: "notify cl a i PLCTAG_EVENT_WRITE_COMPLETED PLCTAG_STATUS_OK s3 = Inr s4"
        and h4: "held s4 a (sint i) ((?T(sint i \<mapsto> ?t))(sint i \<mapsto> ?u)) ?u"
        using held_notify [OF s3(2) q] by (simp_all add: s4_def)
      have "?u\<lparr>t_mtx := None\<rparr> = t\<lparr>t_data := buf\<rparr>" using free by (cases t) simp
      then have "refines n (bindE (MTX_UNLOCK a s4) (\<lambda>s. Inr (PLCTAG_STATUS_OK, s))) s1
        (Inr (PLCTAG_STATUS_OK, ?T(sint i \<mapsto> t\<lparr>t_data := buf\<rparr>), told t i (?es @ ?completed)))"
        by (intro unlock_refines [OF h4]) (use me o ar nodes_only_alloc [OF s3(3)] in \<open>simp_all add: s2_def s4_def told_append\<close>)
      then show ?thesis using Some Inr n1 co k s3(1) n4 by simp
    qed
  qed
qed

lemma getter_refines:
  fixes conv :: "c_int \<Rightarrow> 'a::len word"
  assumes st: "api_store s T" and ready: "lookup_ready n s T" and q: "quiet cl"
  shows "refines n (GETTER conv cl i off s) s (get_spec conv i off (looked_up T (dirt s) (sint i)))"
proof -
  let ?T = "looked_up T (dirt s) (sint i)"
  note g = get_impl_refines [OF st ready q, of i off "getter_cb :: byte list \<Rightarrow> c_int \<Rightarrow> stop + 'a word"]
  have codes: "PLCTAG_ERR_NOT_FOUND \<noteq> PLCTAG_STATUS_OK" "PLCTAG_ERR_BAD_PARAM \<noteq> PLCTAG_STATUS_OK"
    by (simp_all add: status_defs)
  show ?thesis
  proof (cases "?T (sint i)")
    case None
    then show ?thesis using g codes by (auto simp: GETTER_def get_impl_spec_def get_spec_def with_tag_def refines_def)
  next
    case (Some t)
    show ?thesis
    proof (cases "t_mtx t = None")
      case False
      then show ?thesis using g Some by (auto simp: GETTER_def get_impl_spec_def get_spec_def with_tag_def)
    next
      case True
      have "get_impl_spec i off (getter_cb :: byte list \<Rightarrow> c_int \<Rightarrow> stop + 'a word) ?T = (case element_at (t_type t) off of
          None \<Rightarrow> Inr ((PLCTAG_ERR_BAD_PARAM, None), ?T,
            told t i ((PLCTAG_EVENT_READ_STARTED, PLCTAG_STATUS_OK) # aborted (t_type t)))
        | Some p \<Rightarrow> bindE (getter_cb (t_data t) p) (\<lambda>v. Inr ((PLCTAG_STATUS_OK, Some v), ?T, told t i
            [(PLCTAG_EVENT_READ_STARTED, PLCTAG_STATUS_OK), (PLCTAG_EVENT_READ_COMPLETED, PLCTAG_STATUS_OK)])))"
        using Some True by (simp add: get_impl_spec_def with_tag_def)
      with g True Some codes show ?thesis
        by (cases "element_at (t_type t) off"; cases "getter_cb (t_data t) (the (element_at (t_type t) off)) :: stop + 'a word")
          (auto simp: GETTER_def get_spec_def with_tag_def refines_def)
    qed
  qed
qed


subsection \<open>The other functions\<close>

lemma call_notify: "quiet cl \<Longrightarrow> get_node s a = Inr n \<Longrightarrow> cb n \<noteq> NULL \<Longrightarrow> call_cb cl a i e st s = notify cl a i e st s"
  by (simp add: notify_def)

lemma both_events:
  assumes h: "held s a (sint i) T t" and q: "quiet cl" and n: "get_node s a = Inr n"
  shows "(if cb n \<noteq> NULL then bindE (call_cb cl a i e1 PLCTAG_STATUS_OK s) (call_cb cl a i e2 PLCTAG_STATUS_OK) else Inr s)
    = Inr (s\<lparr>events := events s @ told t i [(e1, PLCTAG_STATUS_OK), (e2, PLCTAG_STATUS_OK)]\<rparr>)"
proof -
  have c: "cb n = t_cb t" using held_node [OF h] n by (auto simp: node_is_def)
  have "get_node (s\<lparr>events := es\<rparr>) a = Inr n" for es using n by (simp add: get_node_def split: if_splits)
  then show ?thesis using n q c by (simp add: call_cb_def quiet_def told_def)
qed

lemma event_refines:
  assumes st: "api_store s T" and ready: "lookup_ready n s T" and q: "quiet cl"
  shows "refines n (bindE (tag_tree_lookup i s) (\<lambda>(t, s).
     if t = NULL then Inr (PLCTAG_ERR_NOT_FOUND, s) else
     bindE (MTX_LOCK t s) (\<lambda>s.
     bindE (get_node s t) (\<lambda>n.
     bindE (if cb n \<noteq> NULL then bindE (call_cb cl t i e1 PLCTAG_STATUS_OK s) (call_cb cl t i e2 PLCTAG_STATUS_OK)
            else Inr s) (\<lambda>s.
     bindE (MTX_UNLOCK t s) (\<lambda>s. Inr (PLCTAG_STATUS_OK, s))))))) s
    (with_tag (looked_up T (dirt s) (sint i)) i PLCTAG_ERR_NOT_FOUND (\<lambda>t. Inr (PLCTAG_STATUS_OK,
       looked_up T (dirt s) (sint i), told t i [(e1, PLCTAG_STATUS_OK), (e2, PLCTAG_STATUS_OK)])))"
proof (rule locked_refines [OF st ready])
  fix a s1 and t :: tag
  let ?T = "looked_up T (dirt s) (sint i)" and ?t = "t\<lparr>t_mtx := Some (self s)\<rparr>"
  assume h: "held s1 a (sint i) (?T(sint i \<mapsto> ?t)) ?t" and free: "t_mtx t = None" and t: "?T (sint i) = Some t"
    and me: "self s1 = self s" and ar: "alloc_ready n s1"
  obtain k where k: "get_node s1 a = Inr k" using held_node [OF h] by blast
  define s2 where "s2 = s1\<lparr>events := events s1 @ told t i [(e1, PLCTAG_STATUS_OK), (e2, PLCTAG_STATUS_OK)]\<rparr>"
  have h2: "held s2 a (sint i) (?T(sint i \<mapsto> ?t)) ?t" using held_notify [OF h q] by (simp add: s2_def)
  have T: "(?T(sint i \<mapsto> ?t))(sint i \<mapsto> ?t\<lparr>t_mtx := None\<rparr>) = ?T"
    using t free mtx_roundtrip [of t] by auto
  have "refines n (bindE (MTX_UNLOCK a s2) (\<lambda>s. Inr (PLCTAG_STATUS_OK, s))) s1
    (Inr (PLCTAG_STATUS_OK, ?T, told t i [(e1, PLCTAG_STATUS_OK), (e2, PLCTAG_STATUS_OK)]))"
    by (rule unlock_refines [OF h2]) (use me T ar in \<open>simp_all add: s2_def\<close>)
  then show "refines n (bindE (get_node s1 a) (\<lambda>n.
     bindE (if cb n \<noteq> NULL then bindE (call_cb cl a i e1 PLCTAG_STATUS_OK s1) (call_cb cl a i e2 PLCTAG_STATUS_OK)
            else Inr s1) (\<lambda>s. bindE (MTX_UNLOCK a s) (\<lambda>s. Inr (PLCTAG_STATUS_OK, s))))) s1
     (Inr (PLCTAG_STATUS_OK, ?T, told t i [(e1, PLCTAG_STATUS_OK), (e2, PLCTAG_STATUS_OK)]))"
    using k both_events [OF h q k] by (simp add: s2_def)
qed

lemma lock_refines:
  assumes st: "api_store s T" and ready: "lookup_ready n s T"
  shows "refines n (plc_tag_lock i s) s (lock_spec (self s) i (looked_up T (dirt s) (sint i)))"
  unfolding plc_tag_lock_def lock_spec_def
proof (rule locked_refines [OF st ready])
  fix a s1 and t :: tag
  let ?T = "looked_up T (dirt s) (sint i)" and ?t = "t\<lparr>t_mtx := Some (self s)\<rparr>"
  assume h: "held s1 a (sint i) (?T(sint i \<mapsto> ?t)) ?t" and ar: "alloc_ready n s1"
  then show "refines n (Inr (PLCTAG_STATUS_OK, s1)) s1 (Inr (PLCTAG_STATUS_OK, ?T(sint i \<mapsto> ?t), []))"
    using api_held [OF h] held_ready [OF h] by (simp add: refines_def keeps_rest_def)
qed

lemma register_refines:
  assumes st: "api_store s T" and ready: "lookup_ready n s T"
  shows "refines n (plc_tag_register_callback i f s) s (register_spec i f (looked_up T (dirt s) (sint i)))"
  unfolding plc_tag_register_callback_def register_spec_def
proof (rule locked_refines [OF st ready])
  fix a s1 and t :: tag
  let ?T = "looked_up T (dirt s) (sint i)" and ?t = "t\<lparr>t_mtx := Some (self s)\<rparr>"
  assume h: "held s1 a (sint i) (?T(sint i \<mapsto> ?t)) ?t" and free: "t_mtx t = None" and me: "self s1 = self s" and ar: "alloc_ready n s1"
  obtain s2 where s2: "upd_node a (\<lambda>n. n\<lparr>cb := f\<rparr>) s1 = Inr s2"
    "held s2 a (sint i) ((?T(sint i \<mapsto> ?t))(sint i \<mapsto> ?t\<lparr>t_cb := f\<rparr>)) (?t\<lparr>t_cb := f\<rparr>)" "nodes_only s1 s2"
    using held_upd [OF h, of "\<lambda>n. n\<lparr>cb := f\<rparr>" "?t\<lparr>t_cb := f\<rparr>"] by (auto simp: node_is_def sized_def)
  note o = nodes_only_fields [OF s2(3)]
  have "t\<lparr>t_cb := f, t_mtx := None\<rparr> = t\<lparr>t_cb := f\<rparr>" using free by (cases t) simp
  then have "refines n (bindE (MTX_UNLOCK a s2) (\<lambda>s. Inr (PLCTAG_STATUS_OK, s))) s1
    (Inr (PLCTAG_STATUS_OK, ?T(sint i \<mapsto> t\<lparr>t_cb := f\<rparr>), []))"
    by (intro unlock_refines [OF s2(2)]) (use me o nodes_only_alloc [OF s2(3) ar] in simp_all)
  then show "refines n (bindE (upd_node a (\<lambda>n. n\<lparr>cb := f\<rparr>) s1) (\<lambda>s. bindE (MTX_UNLOCK a s) (\<lambda>s. Inr (PLCTAG_STATUS_OK, s)))) s1
    (Inr (PLCTAG_STATUS_OK, ?T(sint i \<mapsto> t\<lparr>t_cb := f\<rparr>), []))"
    using s2(1) by simp
qed

lemma read_refines:
  assumes st: "api_store s T" and ready: "lookup_ready n s T" and q: "quiet cl"
  shows "refines n (plc_tag_read cl i timeout s) s (if sint timeout < 0 then Inr (PLCTAG_ERR_BAD_PARAM, T, [])
    else event_spec PLCTAG_EVENT_READ_STARTED PLCTAG_EVENT_READ_COMPLETED i timeout (looked_up T (dirt s) (sint i)))"
  using event_refines [OF st ready q, of i PLCTAG_EVENT_READ_STARTED PLCTAG_EVENT_READ_COMPLETED] st
    lookup_ready_for [OF ready]
  by (auto simp: plc_tag_read_def event_spec_def word_sless_alt refines_def keeps_rest_def)

lemma write_refines:
  assumes st: "api_store s T" and ready: "lookup_ready n s T" and q: "quiet cl"
  shows "refines n (plc_tag_write cl i timeout s) s (if sint timeout < 0 then Inr (PLCTAG_ERR_BAD_PARAM, T, [])
    else event_spec PLCTAG_EVENT_WRITE_STARTED PLCTAG_EVENT_WRITE_COMPLETED i timeout (looked_up T (dirt s) (sint i)))"
  using event_refines [OF st ready q, of i PLCTAG_EVENT_WRITE_STARTED PLCTAG_EVENT_WRITE_COMPLETED] st
    lookup_ready_for [OF ready]
  by (auto simp: plc_tag_write_def event_spec_def word_sless_alt refines_def keeps_rest_def)

lemma unlock_api_refines:
  assumes st: "api_store s T" and ready: "lookup_ready n s T"
  shows "refines n (plc_tag_unlock i s) s (unlock_spec (self s) i (looked_up T (dirt s) (sint i)))"
proof -
  let ?T = "looked_up T (dirt s) (sint i)"
  obtain a s1 where l: "tag_tree_lookup i s = Inr (a, s1)" "api_store s1 ?T" "keeps_rest s s1" "events s1 = events s"
    "ready_for n s1" "case ?T (sint i) of None \<Rightarrow> a = NULL | Some t \<Rightarrow> a \<noteq> NULL \<and> held s1 a (sint i) ?T t"
    using lookup_held [OF st ready] by blast
  show ?thesis
  proof (cases "?T (sint i)")
    case None
    then show ?thesis using l by (simp add: unlock_spec_def plc_tag_unlock_def refines_def)
  next
    case (Some t)
    then have h: "held s1 a (sint i) ?T t" "a \<noteq> NULL" using l(6) by simp_all
    have me: "self s1 = self s" using l(3) by (simp add: keeps_rest_def)
    show ?thesis
    proof (cases "t_mtx t = Some (self s)")
      case True
      then obtain s2 where s2: "MTX_UNLOCK a s1 = Inr s2" "held s2 a (sint i) (?T(sint i \<mapsto> t\<lparr>t_mtx := None\<rparr>)) (t\<lparr>t_mtx := None\<rparr>)"
        "nodes_only s1 s2" using held_unlock [OF h(1)] me by auto
      have "ready_for n s2" using nodes_only_alloc [OF s2(3)] held_ready [OF h(1)] held_ready [OF s2(2)] l(5) by simp
      then show ?thesis using Some True l(1,3,4) h(2) s2(1) api_held [OF s2(2)] nodes_only_fields [OF s2(3)]
        by (auto simp: unlock_spec_def plc_tag_unlock_def refines_def keeps_rest_def)
    next
      case False
      then show ?thesis using Some l(1) h(2) held_unlock [OF h(1)] me by (simp add: unlock_spec_def plc_tag_unlock_def)
    qed
  qed
qed

lemma status_refines:
  assumes st: "api_store s T" and ready: "lookup_ready n s T"
  shows "refines n (plc_tag_status i s) s (status_spec i (looked_up T (dirt s) (sint i)))"
proof -
  let ?T = "looked_up T (dirt s) (sint i)"
  obtain a s1 where "tag_tree_lookup i s = Inr (a, s1)" "api_store s1 ?T" "keeps_rest s s1" "events s1 = events s"
    "ready_for n s1" "case ?T (sint i) of None \<Rightarrow> a = NULL | Some t \<Rightarrow> a \<noteq> NULL \<and> held s1 a (sint i) ?T t"
    using lookup_held [OF st ready] by blast
  then show ?thesis by (cases "?T (sint i)") (simp_all add: plc_tag_status_def status_spec_def refines_def)
qed

text \<open>The size is the address of the node, cut to 32 bits.\<close>

lemma size_spec:
  assumes st: "api_store s T" and ready: "lookup_ready n s T"
  shows "case looked_up T (dirt s) (sint i) (sint i) of
     None \<Rightarrow> \<exists>s'. plc_tag_get_size i s = Inr (PLCTAG_ERR_NOT_FOUND, s') \<and> api_store s' (looked_up T (dirt s) (sint i))
   | Some t \<Rightarrow> if t_mtx t \<noteq> None then plc_tag_get_size i s = Inl Blocked
       else \<exists>a s'. plc_tag_get_size i s = Inr (ucast a, s') \<and> points s' a (sint i)
         \<and> api_store s' (looked_up T (dirt s) (sint i))"
proof -
  let ?T = "looked_up T (dirt s) (sint i)"
  obtain a s1 where l: "tag_tree_lookup i s = Inr (a, s1)" "api_store s1 ?T" "keeps_rest s s1" "events s1 = events s"
    "ready_for n s1" "case ?T (sint i) of None \<Rightarrow> a = NULL | Some t \<Rightarrow> a \<noteq> NULL \<and> held s1 a (sint i) ?T t"
    using lookup_held [OF st ready] by blast
  show ?thesis
  proof (cases "?T (sint i)")
    case None
    then show ?thesis using l by (simp add: plc_tag_get_size_def)
  next
    case (Some t)
    then have h: "held s1 a (sint i) ?T t" "a \<noteq> NULL" using l(6) by simp_all
    show ?thesis
    proof (cases "t_mtx t")
      case None
      let ?t = "t\<lparr>t_mtx := Some (self s1)\<rparr>"
      obtain s2 where s2: "MTX_LOCK a s1 = Inr s2" "nodes_only s1 s2" "held s2 a (sint i) (?T(sint i \<mapsto> ?t)) ?t"
        using held_lock [OF h(1)] None by auto
      note o = nodes_only_fields [OF s2(2)]
      have "(?T(sint i \<mapsto> ?t))(sint i \<mapsto> ?t\<lparr>t_mtx := None\<rparr>) = ?T" using Some None mtx_roundtrip [of t] by auto
      then obtain s3 where s3: "MTX_UNLOCK a s2 = Inr s3" "held s3 a (sint i) ?T (?t\<lparr>t_mtx := None\<rparr>)"
        using held_unlock [OF s2(3)] o(1) by auto
      then have "plc_tag_get_size i s = Inr (ucast a, s3)" using l(1) h(2) s2(1) by (simp add: plc_tag_get_size_def)
      moreover have "points s3 a (sint i)" using s3(2) by (simp add: held_def)
      ultimately show ?thesis using Some None api_held [OF s3(2)] by auto
    next
      case (Some me')
      then show ?thesis using \<open>?T (sint i) = Some t\<close> held_lock [OF h(1)] l(1) h(2) by (simp add: plc_tag_get_size_def)
    qed
  qed
qed

lemma destroy_refines:
  assumes st: "api_store s T" and ready: "ready_for n s"
  shows "refines n (plc_tag_destroy i s) s (destroy_api i T)"
proof (cases "i = METATAG_ID")
  case True
  then show ?thesis using st ready
    by (simp add: plc_tag_destroy_def destroy_api_def tag_tree_remove_def refines_def keeps_rest_def)
next
  case False
  then show ?thesis using remove_spec [OF st ready [unfolded ready_for_def] False]
    by (auto simp: ready_for_def init_cost_def plc_tag_destroy_def destroy_api_def with_tag_def refines_def keeps_rest_def keeps_def split: option.splits)
qed

end
