(* ===== verification/Attrib.thy ===== *)
theory Attrib
  imports Tag_Tree
begin

text \<open>
  The attribute strings of \<open>plc_tag_create\<close>, \<^verbatim>\<open>src/plcstub.c\<close>: the loop over the key-value
  pairs, with the functions of the C library it calls, a specification of it on the list of the
  pairs, and the function itself.
\<close>

section \<open>The C library\<close>

text \<open>\<open>strtok_r\<close> with one separator: the next token, and what is left behind the separator that
  ends it. \<open>strchr\<close>: the text before and the text behind the first occurrence.\<close>

definition strtok_r :: "char \<Rightarrow> string \<Rightarrow> (string \<times> string) option" where
  "strtok_r sep str = (case dropWhile (\<lambda>c. c = sep) str of
     [] \<Rightarrow> None
   | c # cs \<Rightarrow> Some (takeWhile (\<lambda>c. c \<noteq> sep) (c # cs), tl (dropWhile (\<lambda>c. c \<noteq> sep) (c # cs))))"

definition strchr :: "string \<Rightarrow> char \<Rightarrow> (string \<times> string) option" where
  "strchr str c = (if c \<in> set str
     then Some (takeWhile (\<lambda>x. x \<noteq> c) str, tl (dropWhile (\<lambda>x. x \<noteq> c) str)) else None)"

lemma strtok_r_shorter: "strtok_r sep str = Some (tok, rest) \<Longrightarrow> length rest < length str"
proof -
  assume a: "strtok_r sep str = Some (tok, rest)"
  then obtain c cs where d: "dropWhile (\<lambda>c. c = sep) str = c # cs"
    "rest = tl (dropWhile (\<lambda>c. c \<noteq> sep) (c # cs))" by (auto simp: strtok_r_def split: list.splits)
  have "length (dropWhile (\<lambda>c. c \<noteq> sep) (c # cs)) \<le> length (c # cs)" by (rule length_dropWhile_le)
  moreover have "length (c # cs) \<le> length str" using length_dropWhile_le [of "\<lambda>c. c = sep" str] d(1) by simp
  ultimately show ?thesis using d(2) by (auto simp: d(1) simp del: dropWhile.simps)
qed

section \<open>The loop\<close>

text \<open>
  The result is the value of \<open>name\<close> at the end (\<open>None\<close> for \<open>NULL\<close>), or the status of the
  \<open>goto done\<close>. For the token \<open>protocol\<close> the code goes on with the null pointer \<open>val\<close>. The
  attributes \<open>elem_size\<close> and \<open>elem_count\<close>, and every other one, are not used.
\<close>

function create_loop :: "string \<Rightarrow> string option \<Rightarrow> stop + c_int + string option" where
  "create_loop str nm = (case strtok_r CHR ''&'' str of
     None \<Rightarrow> Inr (Inr nm)
   | Some (kv, rest) \<Rightarrow> (case strchr kv CHR ''='' of
       None \<Rightarrow> if kv \<noteq> ''protocol'' then Inr (Inl PLCTAG_ERR_BAD_PARAM) else Inl (Undef NullDeref)
     | Some (key, val) \<Rightarrow>
         if key = ''name'' then create_loop rest (Some val)
         else if key = ''elem_size'' then create_loop rest nm
         else if key = ''elem_count'' then create_loop rest nm
         else create_loop rest nm))"
  by pat_completeness auto
termination
  by (relation "measure (\<lambda>(str, nm). length str)") (auto dest: strtok_r_shorter)

declare create_loop.simps [simp del]

definition plc_tag_create :: "cstr \<Rightarrow> c_int \<Rightarrow> lib \<Rightarrow> stop + c_int \<times> lib" where
  "plc_tag_create attrib timeout s =
     bindE (strdup attrib (types s)) (\<lambda>(str, m). let s = s\<lparr>types := m\<rparr> in
     case str of
       CStr x \<Rightarrow>
         bindE (create_loop x None) (\<lambda>r.
         bindE (case r of
             Inl ret \<Rightarrow> Inr (ret, s)
           | Inr None \<Rightarrow> Inr (PLCTAG_ERR_BAD_PARAM, s)
           | Inr (Some nm) \<Rightarrow> tag_tree_insert (CStr nm) (type_new_simple TAG_LINT) s) (\<lambda>(ret, s).
         bindE (free_string str) (\<lambda>_. Inr (ret, s))))
     | _ \<Rightarrow> Inl (Undef BadPointer))"

section \<open>The pairs of an attribute string\<close>

text \<open>The pieces between the separators, the empty ones left out.\<close>

fun pieces :: "char \<Rightarrow> string \<Rightarrow> string list" where
  "pieces sep [] = [[]]"
| "pieces sep (c # cs) = (if c = sep then [] # pieces sep cs
     else (case pieces sep cs of [] \<Rightarrow> [[c]] | p # ps \<Rightarrow> (c # p) # ps))"

definition tokens :: "string \<Rightarrow> string list" where
  "tokens str = filter (\<lambda>p. p \<noteq> []) (pieces CHR ''&'' str)"

text \<open>The specification: the first token without a \<open>=\<close> ends the parsing, otherwise the last
  \<open>name\<close> counts.\<close>

fun attributes :: "string list \<Rightarrow> string option \<Rightarrow> stop + c_int + string option" where
  "attributes [] nm = Inr (Inr nm)"
| "attributes (kv # kvs) nm = (case strchr kv CHR ''='' of
     None \<Rightarrow> if kv = ''protocol'' then Inl (Undef NullDeref) else Inr (Inl PLCTAG_ERR_BAD_PARAM)
   | Some (key, val) \<Rightarrow> attributes kvs (if key = ''name'' then Some val else nm))"

lemma pieces_not_Nil [simp]: "pieces sep str \<noteq> []"
  by (induction str) (auto split: list.splits)

lemma pieces_split: "pieces sep str = takeWhile (\<lambda>c. c \<noteq> sep) str #
    (if sep \<in> set str then pieces sep (tl (dropWhile (\<lambda>c. c \<noteq> sep) str)) else [])"
  by (induction str) auto

lemma tokens_skip: "tokens (dropWhile (\<lambda>c. c = CHR ''&'') str) = tokens str"
  by (induction str) (auto simp: tokens_def)

lemma tokens_step: "tokens str = (case strtok_r CHR ''&'' str of None \<Rightarrow> [] | Some (t, rest) \<Rightarrow> t # tokens rest)"
proof (cases "dropWhile (\<lambda>c. c = CHR ''&'') str")
  case Nil
  then have "tokens str = tokens []" using tokens_skip [of str, unfolded Nil] by simp
  moreover have "strtok_r CHR ''&'' str = None" unfolding strtok_r_def Nil by simp
  ultimately show ?thesis by (simp add: tokens_def)
next
  case (Cons c cs)
  have "c \<noteq> CHR ''&''" using hd_dropWhile [of "\<lambda>c. c = CHR ''&''" str] Cons by auto
  moreover have "tokens str = tokens (c # cs)" using tokens_skip [of str] Cons by simp
  moreover have "tokens (tl (dropWhile (\<lambda>c. c \<noteq> CHR ''&'') (c # cs))) = []" if "CHR ''&'' \<notin> set (c # cs)"
  proof -
    have "dropWhile (\<lambda>c. c \<noteq> CHR ''&'') (c # cs) = []" using that by (auto simp: dropWhile_eq_Nil_conv)
    then show ?thesis by (simp add: tokens_def)
  qed
  ultimately show ?thesis using Cons pieces_split [of "CHR ''&''" "c # cs"]
    by (auto simp: tokens_def strtok_r_def)
qed

lemma create_loop_attributes: "create_loop str nm = attributes (tokens str) nm"
proof (induction "length str" arbitrary: str nm rule: less_induct)
  case less
  show ?case
  proof (cases "strtok_r CHR ''&'' str")
    case None
    then show ?thesis using tokens_step [of str] by (simp add: create_loop.simps)
  next
    case (Some kr)
    obtain kv rest where kr: "kr = (kv, rest)" by (cases kr)
    note step = less [OF strtok_r_shorter [OF Some [unfolded kr]]]
    show ?thesis
    proof (cases "strchr kv CHR ''=''")
      case None
      then show ?thesis using Some kr tokens_step [of str] by (subst create_loop.simps) simp
    next
      case (Some p)
      obtain key val where "p = (key, val)" by (cases p)
      then show ?thesis using step Some \<open>strtok_r CHR ''&'' str = Some kr\<close> kr tokens_step [of str]
        by (subst create_loop.simps) simp
    qed
  qed
qed

text \<open>The string of a list of pairs.\<close>

fun attrib_string :: "(string \<times> string) list \<Rightarrow> string" where
  "attrib_string [] = []"
| "attrib_string [(k, v)] = k @ ''='' @ v"
| "attrib_string ((k, v) # kv # kvs) = k @ ''='' @ v @ ''&'' @ attrib_string (kv # kvs)"

definition last_name :: "(string \<times> string) list \<Rightarrow> string option" where
  "last_name kvs = map_of (rev kvs) ''name''"

definition plain_pair :: "string \<times> string \<Rightarrow> bool" where
  "plain_pair kv \<longleftrightarrow> CHR ''&'' \<notin> set (fst kv) \<and> CHR ''='' \<notin> set (fst kv) \<and> CHR ''&'' \<notin> set (snd kv)"

lemma pieces_append: "sep \<notin> set p \<Longrightarrow> pieces sep (p @ sep # rest) = p # pieces sep rest"
  by (induction p) auto

lemma pieces_plain: "sep \<notin> set p \<Longrightarrow> pieces sep p = [p]"
  by (induction p) auto

lemma tokens_attrib_string: "\<forall>kv \<in> set kvs. plain_pair kv \<Longrightarrow> tokens (attrib_string kvs) = map (\<lambda>(k, v). k @ ''='' @ v) kvs"
proof (induction kvs rule: attrib_string.induct)
  case 1
  then show ?case by (simp add: tokens_def)
next
  case (2 k v)
  then have "CHR ''&'' \<notin> set (k @ ''='' @ v)" by (simp add: plain_pair_def)
  from pieces_plain [OF this] show ?case by (simp add: tokens_def)
next
  case (3 k v kv kvs)
  then have "CHR ''&'' \<notin> set (k @ ''='' @ v)" by (simp add: plain_pair_def)
  from pieces_append [OF this] have "tokens (attrib_string ((k, v) # kv # kvs)) = (k @ ''='' @ v) # tokens (attrib_string (kv # kvs))"
    by (simp add: tokens_def)
  with 3 show ?case by simp
qed

lemma strchr_pair: "CHR ''='' \<notin> set k \<Longrightarrow> strchr (k @ ''='' @ v) CHR ''='' = Some (k, v)"
proof -
  assume "CHR ''='' \<notin> set k"
  then have "takeWhile (\<lambda>x. x \<noteq> CHR ''='') (k @ ''='' @ v) = k \<and> dropWhile (\<lambda>x. x \<noteq> CHR ''='') (k @ ''='' @ v) = ''='' @ v"
    by (induction k) auto
  then show ?thesis by (simp add: strchr_def)
qed

lemma attributes_pairs: "\<forall>kv \<in> set kvs. plain_pair kv \<Longrightarrow>
    attributes (map (\<lambda>(k, v). k @ ''='' @ v) kvs) nm = Inr (Inr (case last_name kvs of None \<Rightarrow> nm | Some x \<Rightarrow> Some x))"
proof (induction kvs arbitrary: nm)
  case (Cons kv kvs)
  obtain k v where kv: "kv = (k, v)" by (cases kv)
  have s: "strchr (k @ ''='' @ v) CHR ''='' = Some (k, v)" using Cons.prems kv by (intro strchr_pair) (simp add: plain_pair_def)
  show ?case using Cons kv s by (auto simp: last_name_def map_add_def split: option.splits simp del: append_Cons)
qed (simp add: last_name_def)

end
