(* ===== verification/Session.thy ===== *)
theory Session
  imports Api_Spec Attrib Tag_Props
begin

text \<open>
  Sequences of calls: the calls of one thread on the library, one after the other, and the
  refinement of the abstract store by all of them together.
\<close>

section \<open>Creating a tag\<close>

definition insert_spec :: "(nat \<Rightarrow> byte) \<Rightarrow> string \<Rightarrow> store \<Rightarrow> c_int outcome" where
  "insert_spec junk x T =
     (if x = ''@tags'' then
        (if locked T 1 then Inl Blocked else Inr (METATAG_ID, T(1 \<mapsto> metatag T junk), []))
      else if 2 ^ 31 \<le> fresh_id T then Inl (Undef SignedOverflow)
      else if locked T 1 then Inl Blocked
      else Inr (word_of_int (fresh_id T), T(1 := None, fresh_id T \<mapsto> new_tag x (Simple TAG_LINT) None), []))"

definition create_spec :: "(nat \<Rightarrow> byte) \<Rightarrow> string \<Rightarrow> store \<Rightarrow> c_int outcome" where
  "create_spec junk attrib T = bindE (attributes (tokens attrib) None) (\<lambda>r. case r of
     Inl ret \<Rightarrow> Inr (ret, T, [])
   | Inr None \<Rightarrow> Inr (PLCTAG_ERR_BAD_PARAM, T, [])
   | Inr (Some x) \<Rightarrow> insert_spec junk x T)"

lemma insert_refines:
  assumes st: "api_store s T" and ready: "ready_for (4 + n) s" and total: "names_total T < 2 ^ 64"
  shows "refines n (tag_tree_insert (CStr x) (type_new_simple TAG_LINT) s) s (insert_spec (dirt s) x T)"
proof (cases "x = ''@tags''")
  case True
  have "lookup_ready n s T" using ready total by (simp add: lookup_ready_def ready_for_def)
  from insert_metatag_spec [OF st this, of "type_new_simple TAG_LINT"] show ?thesis using True
    by (auto simp: insert_spec_def refines_def ready_for_def init_cost_def keeps_def keeps_rest_def)
next
  case False
  have r: "alloc_ready (init_cost s + (3 + blocks (Simple TAG_LINT) + n)) s"
    by (rule alloc_ready_le [OF ready [unfolded ready_for_def]]) simp
  have "2 \<le> stack (types s)" using st by (auto simp: api_store_def store_but_def split: if_splits)
  then show ?thesis
    using insert_new_spec [OF st r False, of "type_new_simple TAG_LINT"] False
    by (auto simp: insert_spec_def refines_def ready_for_def init_cost_def keeps_def keeps_rest_def type_new_simple_def)
qed

lemma create_refines:
  assumes st: "api_store s T" and ready: "ready_for (5 + n) s" and total: "names_total T < 2 ^ 64"
  shows "refines n (plc_tag_create (CStr x) timeout s) s (create_spec (dirt s) x T)"
proof -
  define s1 where "s1 = s\<lparr>types := (types s)\<lparr>pool := tl (pool (types s))\<rparr>\<rparr>"
  have "Suc (init_cost s + (4 + n)) = init_cost s + (5 + n)" by simp
  then have "alloc_ready (Suc (init_cost s + (4 + n))) s" using ready unfolding ready_for_def by metis
  from alloc_ready_Suc [OF this]
  have a: "pool (types s) \<noteq> []" "hd (pool (types s)) \<noteq> NULL" "alloc_ready (init_cost s + (4 + n)) s1"
    by (simp_all add: s1_def)
  have d: "strdup (CStr x) (types s) = Inr (CStr x, types s1)" using a(1,2) by (simp add: strdup_def malloc_value_cases s1_def)
  have s1: "s\<lparr>types := types s1\<rparr> = s1" by (simp add: s1_def)
  have st1: "api_store s1 T" using st store_types [of "{}" s _ "types s1"] by (auto simp: api_store_def s1_def)
  have r4: "ready_for (4 + n) s1" using a(3) by (simp add: ready_for_def s1_def init_cost_def)
  then have r1: "ready_for n s1" using alloc_ready_le [of "init_cost s1 + (4 + n)" s1 "init_cost s1 + n"] by (simp add: ready_for_def)
  have go: "plc_tag_create (CStr x) timeout s = bindE (create_loop x None) (\<lambda>r. case r of
      Inl ret \<Rightarrow> Inr (ret, s1)
    | Inr None \<Rightarrow> Inr (PLCTAG_ERR_BAD_PARAM, s1)
    | Inr (Some nm) \<Rightarrow> tag_tree_insert (CStr nm) (type_new_simple TAG_LINT) s1)"
  proof -
    have id: "bindE m Inr = m" for m :: "stop + c_int \<times> lib" by (cases m) auto
    show ?thesis by (simp add: plc_tag_create_def d s1 free_string_def id)
  qed
  have shift: "refines n c s1 out \<Longrightarrow> refines n c s out" for c and out :: "c_int outcome"
    by (auto simp: refines_def keeps_rest_def s1_def split: sum.splits)
  have keep: "refines n (Inr (r, s1)) s (Inr (r, T, []))" for r :: c_int
    using st1 r1 by (simp add: refines_def) (simp add: s1_def keeps_rest_def)
  note i = insert_refines [OF st1 r4 total]
  have "dirt s1 = dirt s" by (simp add: s1_def)
  then show ?thesis unfolding go create_spec_def create_loop_attributes
    using keep shift [OF i] by (cases "attributes (tokens x) None") (auto split: sum.splits option.splits)
qed


section \<open>The text of the names\<close>

lemma looked_up_total: "finite (dom T) \<Longrightarrow> names_total (looked_up T junk i) \<le> names_total T + 27"
  using names_total_add [of T 1 "metatag T junk"] by (simp add: looked_up_def sizeof_metatag_def metatag_def)

lemma token_length: "strtok_r sep str = Some (tok, rest) \<Longrightarrow> length tok \<le> length str"
proof -
  assume "strtok_r sep str = Some (tok, rest)"
  then obtain c cs where d: "dropWhile (\<lambda>c. c = sep) str = c # cs" "tok = takeWhile (\<lambda>c. c \<noteq> sep) (c # cs)"
    by (auto simp: strtok_r_def split: list.splits)
  have "length tok \<le> length (c # cs)" unfolding d(2) by (rule length_takeWhile_le)
  also have "\<dots> \<le> length str" using length_dropWhile_le [of "\<lambda>c. c = sep" str] d(1) by simp
  finally show ?thesis .
qed

lemma value_length: "strchr kv c = Some (key, val) \<Longrightarrow> length val \<le> length kv"
  using length_dropWhile_le [of "\<lambda>x. x \<noteq> c" kv] by (auto simp: strchr_def split: if_splits)

lemma created_length:
  "create_loop str nm = Inr (Inr (Some x)) \<Longrightarrow> nm = Some x \<or> length x \<le> length str"
proof (induction "length str" arbitrary: str nm rule: less_induct)
  case less
  show ?case
  proof (cases "strtok_r CHR ''&'' str")
    case None
    then show ?thesis using less.prems by (simp add: create_loop.simps)
  next
    case (Some kr)
    obtain kv rest where kr: "kr = (kv, rest)" by (cases kr)
    note shorter = strtok_r_shorter [OF Some [unfolded kr]] and kv = token_length [OF Some [unfolded kr]]
    obtain key val where p: "strchr kv CHR ''='' = Some (key, val)"
      using less.prems Some kr by (auto simp: create_loop.simps [of str] split: option.splits if_splits)
    have "create_loop rest (if key = ''name'' then Some val else nm) = Inr (Inr (Some x))"
      using less.prems Some kr p by (simp add: create_loop.simps [of str] split: if_splits)
    from less.hyps [OF shorter this] shorter kv value_length [OF p] show ?thesis by (auto split: if_splits)
  qed
qed


section \<open>Calls and their sequences\<close>

text \<open>The calls of the interface that a client makes; \<open>plc_tag_get_size\<close>, whose result is an
  address, and the floating-point functions are left out. A result is widened to 64 bits.\<close>

datatype api_call =
  Create string c_int | Destroy c_int | Lock c_int | Unlock c_int | Status c_int
| Read_tag c_int c_int | Write_tag c_int c_int | Register c_int addr | Unregister c_int
| Get64 c_int c_int | Get32 c_int c_int | Get16 c_int c_int | Get8 c_int c_int
| Set64 c_int c_int "64 word" | Set32 c_int c_int "32 word" | Set16 c_int c_int "16 word" | Set8 c_int c_int "8 word"

definition map_result :: "('a \<Rightarrow> 'b) \<Rightarrow> stop + 'a \<times> 'c \<Rightarrow> stop + 'b \<times> 'c" where
  "map_result f m = bindE m (\<lambda>(r, rest). Inr (f r, rest))"

fun api_step :: "client \<Rightarrow> api_call \<Rightarrow> lib \<Rightarrow> stop + size_t \<times> lib" where
  "api_step cl (Create x timeout) s = map_result scast (plc_tag_create (CStr x) timeout s)"
| "api_step cl (Destroy i) s = map_result scast (plc_tag_destroy i s)"
| "api_step cl (Lock i) s = map_result scast (plc_tag_lock i s)"
| "api_step cl (Unlock i) s = map_result scast (plc_tag_unlock i s)"
| "api_step cl (Status i) s = map_result scast (plc_tag_status i s)"
| "api_step cl (Read_tag i timeout) s = map_result scast (plc_tag_read cl i timeout s)"
| "api_step cl (Write_tag i timeout) s = map_result scast (plc_tag_write cl i timeout s)"
| "api_step cl (Register i f) s = map_result scast (plc_tag_register_callback i f s)"
| "api_step cl (Unregister i) s = map_result scast (plc_tag_unregister_callback i s)"
| "api_step cl (Get64 i off) s = map_result id (plc_tag_get_uint64 cl i off s)"
| "api_step cl (Get32 i off) s = map_result ucast (plc_tag_get_uint32 cl i off s)"
| "api_step cl (Get16 i off) s = map_result ucast (plc_tag_get_uint16 cl i off s)"
| "api_step cl (Get8 i off) s = map_result ucast (plc_tag_get_uint8 cl i off s)"
| "api_step cl (Set64 i off v) s = map_result scast (plc_tag_set_uint64 cl i off v s)"
| "api_step cl (Set32 i off v) s = map_result scast (plc_tag_set_uint32 cl i off v s)"
| "api_step cl (Set16 i off v) s = map_result scast (plc_tag_set_uint16 cl i off v s)"
| "api_step cl (Set8 i off v) s = map_result scast (plc_tag_set_uint8 cl i off v s)"

fun api_run :: "client \<Rightarrow> api_call list \<Rightarrow> lib \<Rightarrow> stop + size_t list \<times> lib" where
  "api_run cl [] s = Inr ([], s)"
| "api_run cl (c # cs) s = bindE (api_step cl c s) (\<lambda>(r, s). map_result (\<lambda>rs. r # rs) (api_run cl cs s))"

text \<open>The same on the abstract store; \<open>junk\<close> is what new memory contains.\<close>

fun spec_step :: "nat \<Rightarrow> (nat \<Rightarrow> byte) \<Rightarrow> api_call \<Rightarrow> store \<Rightarrow> size_t outcome" where
  "spec_step me junk (Create x timeout) T = map_result scast (create_spec junk x T)"
| "spec_step me junk (Destroy i) T = map_result scast (destroy_api i T)"
| "spec_step me junk (Lock i) T = map_result scast (lock_spec me i (looked_up T junk (sint i)))"
| "spec_step me junk (Unlock i) T = map_result scast (unlock_spec me i (looked_up T junk (sint i)))"
| "spec_step me junk (Status i) T = map_result scast (status_spec i (looked_up T junk (sint i)))"
| "spec_step me junk (Read_tag i timeout) T = map_result scast
     (if sint timeout < 0 then Inr (PLCTAG_ERR_BAD_PARAM, T, [])
      else event_spec PLCTAG_EVENT_READ_STARTED PLCTAG_EVENT_READ_COMPLETED i timeout (looked_up T junk (sint i)))"
| "spec_step me junk (Write_tag i timeout) T = map_result scast
     (if sint timeout < 0 then Inr (PLCTAG_ERR_BAD_PARAM, T, [])
      else event_spec PLCTAG_EVENT_WRITE_STARTED PLCTAG_EVENT_WRITE_COMPLETED i timeout (looked_up T junk (sint i)))"
| "spec_step me junk (Register i f) T = map_result scast (register_spec i f (looked_up T junk (sint i)))"
| "spec_step me junk (Unregister i) T = map_result scast (register_spec i NULL (looked_up T junk (sint i)))"
| "spec_step me junk (Get64 i off) T = map_result id (get_spec int_to_int i off (looked_up T junk (sint i)))"
| "spec_step me junk (Get32 i off) T = map_result ucast (get_spec int_to_int i off (looked_up T junk (sint i)) :: 32 word outcome)"
| "spec_step me junk (Get16 i off) T = map_result ucast (get_spec int_to_int i off (looked_up T junk (sint i)) :: 16 word outcome)"
| "spec_step me junk (Get8 i off) T = map_result ucast (get_spec int_to_int i off (looked_up T junk (sint i)) :: 8 word outcome)"
| "spec_step me junk (Set64 i off v) T = map_result scast (set_spec i off v (looked_up T junk (sint i)))"
| "spec_step me junk (Set32 i off v) T = map_result scast (set_spec i off v (looked_up T junk (sint i)))"
| "spec_step me junk (Set16 i off v) T = map_result scast (set_spec i off v (looked_up T junk (sint i)))"
| "spec_step me junk (Set8 i off v) T = map_result scast (set_spec i off v (looked_up T junk (sint i)))"

fun spec_run :: "nat \<Rightarrow> (nat \<Rightarrow> byte) \<Rightarrow> api_call list \<Rightarrow> store \<Rightarrow> size_t list outcome" where
  "spec_run me junk [] T = Inr ([], T, [])"
| "spec_run me junk (c # cs) T = bindE (spec_step me junk c T) (\<lambda>(r, T, es).
     bindE (spec_run me junk cs T) (\<lambda>(rs, T, es'). Inr (r # rs, T, es @ es')))"

text \<open>What a call may add to the text of the names.\<close>

fun call_text :: "api_call \<Rightarrow> nat" where
  "call_text (Create x timeout) = 49 + length x"
| "call_text _ = 27"

lemma refines_map: "refines n c s out \<Longrightarrow> refines n (map_result f c) s (map_result f out)"
  by (auto simp: refines_def map_result_def split: sum.splits)

lemma api_step_refines:
  assumes st: "api_store s T" and ready: "ready_for (5 + n) s" and q: "quiet cl" and total: "names_total T < 2 ^ 64"
  shows "refines n (api_step cl c s) s (spec_step (self s) (dirt s) c T)"
proof -
  have r: "ready_for n s" using ready alloc_ready_le [of "init_cost s + (5 + n)" s "init_cost s + n"] by (simp add: ready_for_def)
  have l: "lookup_ready n s T"
    using ready total alloc_ready_le [of "init_cost s + (5 + n)" s "init_cost s + (4 + n)"]
    by (simp add: ready_for_def lookup_ready_def)
  note getters = plc_tag_get_uint64_def plc_tag_get_uint32_def plc_tag_get_uint16_def plc_tag_get_uint8_def
  note setters = plc_tag_set_uint64_def plc_tag_set_uint32_def plc_tag_set_uint16_def plc_tag_set_uint8_def
  show ?thesis
    by (cases c; simp only: api_step.simps spec_step.simps getters setters plc_tag_unregister_callback_def)
      (rule refines_map create_refines [OF st ready total] destroy_refines [OF st r] lock_refines [OF st l]
        unlock_api_refines [OF st l] status_refines [OF st l] read_refines [OF st l q] write_refines [OF st l q]
        register_refines [OF st l] getter_refines [OF st l q] set_impl_refines [OF st l q])+
qed

lemma with_tag_total:
  assumes "finite (dom T)" and "with_tag T i m f = Inr (r, T', es)"
    and "\<And>t r T' es. f t = Inr (r, T', es) \<Longrightarrow> T' = T \<or> (\<exists>t'. T' = T(sint i \<mapsto> t') \<and> t_name t' = t_name t)"
  shows "names_total T' = names_total T"
proof (cases "T (sint i)")
  case None
  then show ?thesis using assms(2) by (simp add: with_tag_def)
next
  case (Some t)
  then have "f t = Inr (r, T', es)" using assms(2) by (auto simp: with_tag_def split: if_splits)
  from assms(3) [OF this] show ?thesis using names_total_same [OF assms(1) Some] by auto
qed

lemma specs_total:
  assumes "finite (dom T)"
  shows "get_spec conv i off T = Inr (r, T', es) \<Longrightarrow> names_total T' = names_total T"
    and "set_spec i off v T = Inr (r', T', es) \<Longrightarrow> names_total T' = names_total T"
    and "lock_spec me i T = Inr (r', T', es) \<Longrightarrow> names_total T' = names_total T"
    and "register_spec i g T = Inr (r', T', es) \<Longrightarrow> names_total T' = names_total T"
    and "event_spec e1 e2 i timeout T = Inr (r', T', es) \<Longrightarrow> names_total T' = names_total T"
    and "unlock_spec me i T = Inr (r', T', es) \<Longrightarrow> names_total T' = names_total T"
    and "status_spec i T = Inr (r', T', es) \<Longrightarrow> names_total T' = names_total T"
proof -
  show "get_spec conv i off T = Inr (r, T', es) \<Longrightarrow> names_total T' = names_total T" unfolding get_spec_def
    by (erule with_tag_total [OF assms]) (auto simp: bindE_Inr_iff split: option.splits)
  show "set_spec i off v T = Inr (r', T', es) \<Longrightarrow> names_total T' = names_total T" unfolding set_spec_def
    by (erule with_tag_total [OF assms]) (auto simp: bindE_Inr_iff split: option.splits)
  show "lock_spec me i T = Inr (r', T', es) \<Longrightarrow> names_total T' = names_total T" unfolding lock_spec_def
    by (erule with_tag_total [OF assms]) auto
  show "register_spec i g T = Inr (r', T', es) \<Longrightarrow> names_total T' = names_total T" unfolding register_spec_def
    by (erule with_tag_total [OF assms]) auto
  show "event_spec e1 e2 i timeout T = Inr (r', T', es) \<Longrightarrow> names_total T' = names_total T" unfolding event_spec_def
    by (auto split: if_splits elim!: with_tag_total [OF assms])
  show "unlock_spec me i T = Inr (r', T', es) \<Longrightarrow> names_total T' = names_total T"
    using names_total_same [OF assms] by (auto simp: unlock_spec_def split: option.splits if_splits)
  show "status_spec i T = Inr (r', T', es) \<Longrightarrow> names_total T' = names_total T" by (simp add: status_spec_def)
qed

lemma create_total:
  assumes "finite (dom T)" and "create_spec junk x T = Inr (r, T', es)"
  shows "names_total T' \<le> names_total T + 49 + length x"
proof -
  obtain a where a: "attributes (tokens x) None = Inr a"
    "(case a of Inl ret \<Rightarrow> Inr (ret, T, []) | Inr None \<Rightarrow> Inr (PLCTAG_ERR_BAD_PARAM, T, [])
       | Inr (Some y) \<Rightarrow> insert_spec junk y T) = (Inr (r, T', es) :: c_int outcome)"
    using assms(2) by (auto simp: create_spec_def bindE_Inr_iff)
  show ?thesis
  proof (cases "\<exists>y. a = Inr (Some y)")
    case False
    then have "T' = T" using a(2) by (auto split: sum.splits option.splits)
    then show ?thesis by simp
  next
    case True
    then obtain y where y: "a = Inr (Some y)" by blast
    then have "length y \<le> length x" using a(1) created_length [of x None y] by (auto simp: create_loop_attributes)
    moreover have "insert_spec junk y T = Inr (r, T', es)" using a(2) y by simp
    then consider "T' = T(1 \<mapsto> metatag T junk)"
      | "T' = T(1 := None, fresh_id T \<mapsto> new_tag y (Simple TAG_LINT) None)"
      by (auto simp: insert_spec_def split: if_splits)
    then have "names_total T' \<le> names_total T + sizeof_metatag + max 5 (length y)"
    proof cases
      case 1
      then show ?thesis using names_total_add [OF assms(1), of 1 "metatag T junk"] by (simp add: metatag_def)
    next
      case 2
      have "finite (dom (T(1 := None)))" using assms(1) by simp
      from names_total_add [OF this, of "fresh_id T" "new_tag y (Simple TAG_LINT) None"]
      show ?thesis using 2 names_total_remove [OF assms(1), of 1] by (simp add: new_tag_def)
    qed
    ultimately show ?thesis by (simp add: sizeof_metatag_def)
  qed
qed

lemma map_result_Inr: "map_result f m = Inr (r, rest) \<longleftrightarrow> (\<exists>r0. m = Inr (r0, rest) \<and> r = f r0)"
  by (cases m) (auto simp: map_result_def)

lemma specs_text:
  assumes f: "finite (dom T)"
  shows "get_spec conv i off (looked_up T junk j) = Inr (r, T', es) \<Longrightarrow> names_total T' \<le> names_total T + 27"
    and "set_spec i off v (looked_up T junk j) = Inr (r', T', es) \<Longrightarrow> names_total T' \<le> names_total T + 27"
    and "lock_spec me i (looked_up T junk j) = Inr (r', T', es) \<Longrightarrow> names_total T' \<le> names_total T + 27"
    and "register_spec i g (looked_up T junk j) = Inr (r', T', es) \<Longrightarrow> names_total T' \<le> names_total T + 27"
    and "event_spec e1 e2 i timeout (looked_up T junk j) = Inr (r', T', es) \<Longrightarrow> names_total T' \<le> names_total T + 27"
    and "unlock_spec me i (looked_up T junk j) = Inr (r', T', es) \<Longrightarrow> names_total T' \<le> names_total T + 27"
    and "status_spec i (looked_up T junk j) = Inr (r', T', es) \<Longrightarrow> names_total T' \<le> names_total T + 27"
proof -
  have fl: "finite (dom (looked_up T junk j))" using f by (simp add: looked_up_def)
  have g: "names_total T' = names_total (looked_up T junk j) \<Longrightarrow> names_total T' \<le> names_total T + 27"
    using looked_up_total [OF f, of junk j] by simp
  note rules = specs_total [OF fl, THEN g]
  show "get_spec conv i off (looked_up T junk j) = Inr (r, T', es) \<Longrightarrow> names_total T' \<le> names_total T + 27"
    "set_spec i off v (looked_up T junk j) = Inr (r', T', es) \<Longrightarrow> names_total T' \<le> names_total T + 27"
    "lock_spec me i (looked_up T junk j) = Inr (r', T', es) \<Longrightarrow> names_total T' \<le> names_total T + 27"
    "register_spec i g (looked_up T junk j) = Inr (r', T', es) \<Longrightarrow> names_total T' \<le> names_total T + 27"
    "event_spec e1 e2 i timeout (looked_up T junk j) = Inr (r', T', es) \<Longrightarrow> names_total T' \<le> names_total T + 27"
    "unlock_spec me i (looked_up T junk j) = Inr (r', T', es) \<Longrightarrow> names_total T' \<le> names_total T + 27"
    "status_spec i (looked_up T junk j) = Inr (r', T', es) \<Longrightarrow> names_total T' \<le> names_total T + 27"
    by (erule rules)+
qed

lemma destroy_text: "finite (dom T) \<Longrightarrow> destroy_api i T = Inr (r, T', es) \<Longrightarrow> names_total T' \<le> names_total T + 27"
  using names_total_remove [of T "sint i"] by (auto simp: destroy_api_def with_tag_def split: if_splits option.splits)

lemma create_text: "finite (dom T) \<Longrightarrow> create_spec junk x T = Inr (r, T', es) \<Longrightarrow> names_total T' \<le> names_total T + (49 + length x)"
  using create_total by (simp add: add.assoc)

lemma spec_step_total:
  assumes f: "finite (dom T)" and s: "spec_step me junk c T = Inr (r, T', es)"
  shows "names_total T' \<le> names_total T + call_text c"
  using s by (cases c) (auto simp: map_result_Inr split: if_splits
    dest: specs_text [OF f] destroy_text [OF f] create_text [OF f])

lemma run_refines:
  assumes "api_store s T" and "ready_for (5 * length cs) s" and "quiet cl"
    and "names_total T + sum_list (map call_text cs) < 2 ^ 64"
  shows "refines 0 (api_run cl cs s) s (spec_run (self s) (dirt s) cs T)"
  using assms
proof (induction cs arbitrary: s T)
  case Nil
  then show ?case by (simp add: refines_def keeps_rest_def)
next
  case (Cons c cs)
  have r: "ready_for (5 + 5 * length cs) s" using Cons.prems(2) by simp
  have step: "refines (5 * length cs) (api_step cl c s) s (spec_step (self s) (dirt s) c T)"
    using Cons.prems by (intro api_step_refines [OF _ r]) simp_all
  show ?case
  proof (cases "spec_step (self s) (dirt s) c T")
    case (Inl e)
    then show ?thesis using step by simp
  next
    case (Inr out)
    obtain r' T1 es where out: "out = (r', T1, es)" by (cases out)
    obtain s1 where s1: "api_step cl c s = Inr (r', s1)" "api_store s1 T1" "events s1 = events s @ es"
      "keeps_rest s s1" "ready_for (5 * length cs) s1" using step Inr out by (auto simp: refines_def)
    have "names_total T1 \<le> names_total T + call_text c"
      using spec_step_total [OF api_store_finite [OF Cons.prems(1)]] Inr out by blast
    then have "refines 0 (api_run cl cs s1) s1 (spec_run (self s1) (dirt s1) cs T1)"
      using Cons.prems(3,4) by (intro Cons.IH [OF s1(2,5)]) simp_all
    moreover have "self s1 = self s" "dirt s1 = dirt s" using s1(4) by (simp_all add: keeps_rest_def)
    ultimately show ?thesis using s1 Inr out
      by (auto simp: refines_def map_result_def keeps_rest_def intro: map_le_trans split: sum.splits)
  qed
qed

text \<open>C1: one thread's calls, in any number and any order, from any state of the library
  that stands for a store, do together what the abstract store does: the same results in the same order, the
  same callbacks in the same order, the store that results, and the same stop at the same call when one
  of them waits for a mutex or runs into undefined behaviour. The tree, the nodes, the locks, the metatag that is
  thrown away and built anew and the lazy initialisation are invisible. Five allocations per call must
  succeed, beside the thirty of the initialisation, and the names must not add up to \<open>2 ^ 64\<close> bytes.\<close>

theorem session_refines:
  assumes "api_store s T" and "ready_for (5 * length cs) s" and "quiet cl"
    and "names_total T + sum_list (map call_text cs) < 2 ^ 64"
  shows "case spec_run (self s) (dirt s) cs T of
     Inl e \<Rightarrow> api_run cl cs s = Inl e
   | Inr (rs, T', es) \<Rightarrow> \<exists>s'. api_run cl cs s = Inr (rs, s') \<and> api_store s' T' \<and> events s' = events s @ es"
  using run_refines [OF assms] by (auto simp: refines_def split: sum.splits)

text \<open>A session: a tag is created, written, read, destroyed and asked for.\<close>

definition silent :: client where
  "silent = (\<lambda>f i event status s. Inr s)"

lemma silent_quiet: "quiet silent"
  by (simp add: quiet_def silent_def)

lemma demo_lookup_ready: "34 + n \<le> k \<Longrightarrow> k \<le> 1000 \<Longrightarrow> lookup_ready n (demo_lib k) default_store"
  using demo_lib_ready [of k "34 + n"] by (simp add: lookup_ready_def default_names)

theorem session_refines_witness:
  "\<exists>s'. api_run silent [Create ''name=x&elem_count=1'' 0, Set64 12 0 7, Get64 12 0, Destroy 12, Status 12] (demo_lib 60)
      = Inr ([12, 0, 7, 0, - 19], s') \<and> api_store s' default_store \<and> events s' = []"
proof -
  let ?cs = "[Create ''name=x&elem_count=1'' 0, Set64 12 0 7, Get64 12 0, Destroy 12, Status 12]"
  let ?new = "new_tag ''x'' (Simple TAG_LINT) None"
  have parse: "attributes (tokens ''name=x&elem_count=1'') None = Inr (Inr (Some ''x''))" by code_simp
  have set: "setter_cb (t_data ?new) 0 (7 :: 64 word) = Inr (le_bytes 8 (7 :: 64 word))" by code_simp
  have get: "getter_cb (le_bytes 8 (7 :: 64 word)) 0 = Inr (7 :: 64 word)" by code_simp
  have d: "default_store 12 = None" by (simp add: default_store_def tags_inc_def)
  have e: "element_at (t_type ?new) 0 = Some 0" "t_mtx ?new = None" "t_cb ?new = NULL"
    by (simp_all add: element_at_def new_tag_def)
  have s12: "looked_up T (\<lambda>_. 0) 12 = T" for T by (simp add: looked_up_def)
  have n: "default_store(1 := None) = default_store" using default_none by auto
  have r: "default_store(12 := None) = default_store" using d by auto
  have c: "create_spec (\<lambda>_. 0) ''name=x&elem_count=1'' default_store = Inr (12, default_store(12 \<mapsto> ?new), [])"
    by (simp add: create_spec_def parse insert_spec_def default_fresh locked_def default_none n)
  have "spec_run 1 (\<lambda>_. 0) ?cs default_store = Inr ([12, 0, 7, 0, - 19], default_store, [])"
    using e by (simp add: c map_result_def set_spec_def get_spec_def with_tag_def s12 set get told_def destroy_api_def
        status_spec_def METATAG_ID_def status_defs r d)
  moreover have "ready_for (5 * length ?cs) (demo_lib 60)" using demo_lib_ready [of 60 55] by (simp add: ready_for_def)
  moreover have "names_total default_store + sum_list (map call_text ?cs) < 2 ^ 64" by (simp add: default_names)
  ultimately show ?thesis using session_refines [OF demo_lib_store [of 60] _ silent_quiet, of ?cs] by simp
qed

section \<open>Types and buffers\<close>

text \<open>C11: whatever one thread has called, every tag in memory has a type whose objects are alive and which is no struct: \<open>type_size_bytes\<close> computes its size, and the buffer is at least that long, at least eight
  bytes for a scalar, so that every getter and setter at its start stays inside; the name is a string, the identifier positive.\<close>

theorem buffers_fit_types:
  assumes "api_store s T" and "ready_for (5 * length cs) s" and "quiet cl"
    and "names_total T + sum_list (map call_text cs) < 2 ^ 64"
    and run: "api_run cl cs s = Inr (rs, s')" and n: "tags_heap s' a = Some n"
  shows "\<exists>e size x. type_to_enum (types s') (tag_type n) = Inr e \<and> e \<noteq> TAG_STRUCT
    \<and> type_size_bytes (types s') (tag_type n) = Inr size \<and> unat size \<le> length (data n)
    \<and> (if e = TAG_ARRAY then True else 8 \<le> length (data n)) \<and> name n = CStr x \<and> 1 \<le> sint (tag_id n)"
proof -
  obtain T' where "api_store s' T'"
    using run_refines [OF assms(1-4)] run by (auto simp: refines_def split: sum.splits)
  then have "store_is s' T'" using n by (auto simp: api_store_def store_but_def split: if_splits)
  then obtain t where t: "T' (sint (tag_id n)) = Some t" "node_is (types s') n t" "1 \<le> sint (tag_id n)"
    using store_node [OF _ n] by blast
  then have d: "denotes (objs (types s')) (tag_type n) (t_type t)" "ty_depth (t_type t) \<le> stack (types s')"
    and sized: "sized t" "data n = t_data t" "name n = CStr (t_name t)" by (simp_all add: node_is_def)
  have "type_size_bytes (types s') (tag_type n) = Inr (of_nat (ty_size (t_type t)))"
    using type_size_at_refine [OF d] by (simp add: type_size_bytes_def)
  moreover have "shape (t_type t) \<noteq> TAG_STRUCT"
    using sized(1) d(1) by (cases "t_type t") (auto simp: sized_def)
  ultimately show ?thesis using d(1) sized t(3) by (auto simp: sized_def)
qed

theorem buffers_fit_types_witness:
  "\<exists>s' a n size. api_run silent [Create ''name=x'' 0, Set64 12 0 7] (demo_lib 60) = Inr ([12, 0], s') \<and> tags_heap s' a = Some n
     \<and> sint (tag_id n) = 12 \<and> type_size_bytes (types s') (tag_type n) = Inr size \<and> unat size \<le> length (data n)"
proof -
  let ?cs = "[Create ''name=x'' 0, Set64 12 0 7]" and ?new = "new_tag ''x'' (Simple TAG_LINT) None"
  have parse: "attributes (tokens ''name=x'') None = Inr (Inr (Some ''x''))" by code_simp
  have set: "setter_cb (t_data ?new) 0 (7 :: 64 word) = Inr (le_bytes 8 (7 :: 64 word))" by code_simp
  have e: "element_at (t_type ?new) 0 = Some 0" "t_mtx ?new = None" "t_cb ?new = NULL"
    by (simp_all add: element_at_def new_tag_def)
  have s12: "looked_up T (\<lambda>_. 0) 12 = T" for T by (simp add: looked_up_def)
  have n: "default_store(1 := None) = default_store" using default_none by auto
  have c: "create_spec (\<lambda>_. 0) ''name=x'' default_store = Inr (12, default_store(12 \<mapsto> ?new), [])"
    by (simp add: create_spec_def parse insert_spec_def default_fresh locked_def default_none n)
  have spec: "\<exists>T'. spec_run 1 (\<lambda>_. 0) ?cs default_store = Inr ([12, 0], T', []) \<and> T' 12 \<noteq> None"
    using e by (simp add: c map_result_def set_spec_def with_tag_def s12 set told_def status_defs)
  have r: "ready_for (5 * length ?cs) (demo_lib 60)" using demo_lib_ready [of 60 40] by (simp add: ready_for_def)
  have t: "names_total default_store + sum_list (map call_text ?cs) < 2 ^ 64" by (simp add: default_names)
  note hyps = demo_lib_store [of 60] r silent_quiet t
  obtain s' T' where s': "api_run silent ?cs (demo_lib 60) = Inr ([12, 0], s')" "api_store s' T'" "T' 12 \<noteq> None"
    using run_refines [OF hyps] spec by (auto simp: refines_def)
  have "default_store 12 = None" by (simp add: default_store_def tags_inc_def)
  then have "store_is s' T'" using s'(2,3) by (auto simp: api_store_def split: if_splits)
  then obtain a n where a: "tags_heap s' a = Some n" "sint (tag_id n) = 12"
    using s'(3) store_tag [of "{}" s' T' 12] by (auto simp: points_def)
  then show ?thesis using buffers_fit_types [OF hyps s'(1) a(1)] s'(1) by blast
qed

end
