(* ===== verification/Api_Props.thy ===== *)
theory Api_Props
  imports Session Metatag
begin

text \<open>
  What a client of the interface can rely on, and what it must not do: the typed accessors, their
  offsets, their errors and the callbacks they make, stated of the functions of \<open>Plcstub\<close>.
\<close>

section \<open>Access to an element\<close>

lemma looked_up_found: "T (sint i) = Some t \<Longrightarrow> looked_up T junk (sint i) = T"
  by (auto simp: looked_up_def)

lemma looked_up_other: "i \<noteq> METATAG_ID \<Longrightarrow> looked_up T junk (sint i) = T"
  using sint_eq_1 [of i] by (simp add: looked_up_def)

lemma refinesE:
  assumes "refines n c s (Inr (r, T, es))"
  obtains s' where "c = Inr (r, s')" "api_store s' T" "events s' = events s @ es" "keeps_rest s s'" "ready_for n s'"
  using assms by (auto simp: refines_def)

lemma still_ready:
  assumes "ready_for (4 + n) s" and "names_total T < 2 ^ 64"
  shows "lookup_ready n s T"
  using assms by (simp add: lookup_ready_def ready_for_def)

text \<open>The element lies in the buffer.\<close>

definition in_buffer :: "tag \<Rightarrow> c_int \<Rightarrow> nat \<Rightarrow> bool" where
  "in_buffer t p k \<longleftrightarrow> 0 \<le> sint p \<and> nat (sint p) + k \<le> length (t_data t)"

lemma unat_nonneg: "0 \<le> sint p \<Longrightarrow> unat p = nat (sint p)" for p :: c_int
  using uint_sint [of p] sint_lt [of p] take_bit_int_eq_self [of "sint p" 32]
  by (simp add: nat_uint_eq [symmetric] del: nat_uint_eq)

lemma setter_in_buffer:
  fixes v :: "'a::len word"
  shows "if in_buffer t p (LENGTH('a) div 8) then \<exists>buf. setter_cb (t_data t) p v = Inr buf
    else setter_cb (t_data t) p v = Inl (Undef OutOfBounds)"
  using unat_nonneg [of p] by (auto simp: in_buffer_def setter_cb_def write_bytes_def word_sle_eq)

lemma getter_in_buffer:
  shows "if in_buffer t p (LENGTH('a::len) div 8) then \<exists>v. (getter_cb (t_data t) p :: stop + 'a word) = Inr v
    else (getter_cb (t_data t) p :: stop + 'a word) = Inl (Undef OutOfBounds)"
  using unat_nonneg [of p] by (auto simp: in_buffer_def getter_cb_def word_sle_eq Let_def)

text \<open>The two functions on a tag that is there and free.\<close>

lemma set_found:
  fixes v :: "'a::len word"
  assumes st: "api_store s T" and ready: "lookup_ready n s T" and q: "quiet cl"
    and t: "T (sint i) = Some t" "t_mtx t = None"
  shows "refines n (SETTER cl i off v s) s (case element_at (t_type t) off of
       None \<Rightarrow> Inr (PLCTAG_ERR_BAD_PARAM, T,
         told t i ((PLCTAG_EVENT_WRITE_STARTED, PLCTAG_STATUS_OK) # aborted (t_type t)))
     | Some p \<Rightarrow> bindE (setter_cb (t_data t) p v) (\<lambda>buf. Inr (PLCTAG_STATUS_OK, T(sint i \<mapsto> t\<lparr>t_data := buf\<rparr>), told t i
         [(PLCTAG_EVENT_WRITE_STARTED, PLCTAG_STATUS_OK), (PLCTAG_EVENT_WRITE_COMPLETED, PLCTAG_STATUS_OK)])))"
  using set_impl_refines [OF st ready q, of i off v] t looked_up_found [of T i t]
  by (simp add: set_spec_def with_tag_def)

lemma get_found:
  fixes conv :: "c_int \<Rightarrow> 'a::len word"
  assumes st: "api_store s T" and ready: "lookup_ready n s T" and q: "quiet cl"
    and t: "T (sint i) = Some t" "t_mtx t = None"
  shows "refines n (GETTER conv cl i off s) s (case element_at (t_type t) off of
       None \<Rightarrow> Inr (conv PLCTAG_ERR_BAD_PARAM, T,
         told t i ((PLCTAG_EVENT_READ_STARTED, PLCTAG_STATUS_OK) # aborted (t_type t)))
     | Some p \<Rightarrow> bindE (getter_cb (t_data t) p) (\<lambda>v. Inr (v, T, told t i
         [(PLCTAG_EVENT_READ_STARTED, PLCTAG_STATUS_OK), (PLCTAG_EVENT_READ_COMPLETED, PLCTAG_STATUS_OK)])))"
  using getter_refines [OF st ready q, of conv i off] t looked_up_found [of T i t]
  by (simp add: get_spec_def with_tag_def)

lemma set_in_buffer:
  fixes v :: "'a::len word"
  assumes st: "api_store s T" and ready: "lookup_ready 4 s T" and q: "quiet cl"
    and t: "T (sint i) = Some t" "t_mtx t = None" and el: "element_at (t_type t) off = Some p"
    and b: "in_buffer t p (LENGTH('a) div 8)"
  obtains s1 buf where "setter_cb (t_data t) p v = Inr buf" "SETTER cl i off v s = Inr (PLCTAG_STATUS_OK, s1)"
    "api_store s1 (T(sint i \<mapsto> t\<lparr>t_data := buf\<rparr>))" "ready_for 4 s1"
    "events s1 = events s @ told t i
      [(PLCTAG_EVENT_WRITE_STARTED, PLCTAG_STATUS_OK), (PLCTAG_EVENT_WRITE_COMPLETED, PLCTAG_STATUS_OK)]"
proof -
  obtain buf where buf: "setter_cb (t_data t) p v = Inr buf" using setter_in_buffer [of t p v] b by auto
  with that show thesis using set_found [OF st ready q t, of off v] el by (auto elim: refinesE)
qed

text \<open>C7: a value set at an offset is what a getter of the same width reads there afterwards,
  through any client's callbacks that leave the library alone: both calls report success, the setter makes the
  two write events and the getter the two read events, and only the buffer of the tag changes.\<close>

theorem set_get_roundtrip:
  fixes v :: "'a::len word"
  assumes st: "api_store s T" and ready: "lookup_ready 4 s T" and q: "quiet cl"
    and t: "T (sint i) = Some t" "t_mtx t = None" and el: "element_at (t_type t) off = Some p"
    and b: "in_buffer t p (LENGTH('a) div 8)" and w: "8 dvd LENGTH('a)"
  shows "\<exists>s1 s2 buf. SETTER cl i off v s = Inr (PLCTAG_STATUS_OK, s1) \<and> GETTER conv cl i off s1 = Inr (v, s2)
    \<and> api_store s2 (T(sint i \<mapsto> t\<lparr>t_data := buf\<rparr>)) \<and> length buf = length (t_data t)
    \<and> events s2 = events s @ told t i
        [(PLCTAG_EVENT_WRITE_STARTED, PLCTAG_STATUS_OK), (PLCTAG_EVENT_WRITE_COMPLETED, PLCTAG_STATUS_OK),
         (PLCTAG_EVENT_READ_STARTED, PLCTAG_STATUS_OK), (PLCTAG_EVENT_READ_COMPLETED, PLCTAG_STATUS_OK)]"
proof -
  obtain s1 buf where buf: "setter_cb (t_data t) p v = Inr buf"
    and s1: "SETTER cl i off v s = Inr (PLCTAG_STATUS_OK, s1)" "api_store s1 (T(sint i \<mapsto> t\<lparr>t_data := buf\<rparr>))" "ready_for 4 s1"
    "events s1 = events s @ told t i
      [(PLCTAG_EVENT_WRITE_STARTED, PLCTAG_STATUS_OK), (PLCTAG_EVENT_WRITE_COMPLETED, PLCTAG_STATUS_OK)]"
    by (rule set_in_buffer [OF st ready q t el b])
  let ?t = "t\<lparr>t_data := buf\<rparr>"
  let ?T = "T(sint i \<mapsto> ?t)"
  have "names_total ?T = names_total T" by (rule names_total_same [OF api_store_finite [OF st] t(1)]) simp
  then have r: "lookup_ready 0 s1 ?T" using ready s1(3) by (intro still_ready) (simp_all add: lookup_ready_def)
  have "getter_cb (t_data ?t) p = Inr v" using getter_setter [OF w buf] by simp
  then have "refines 0 (GETTER conv cl i off s1) s1 (Inr (v, ?T, told t i
      [(PLCTAG_EVENT_READ_STARTED, PLCTAG_STATUS_OK), (PLCTAG_EVENT_READ_COMPLETED, PLCTAG_STATUS_OK)]))"
    using get_found [OF s1(2) r q, of i ?t conv off] t(2) el by simp
  then obtain s2 where "GETTER conv cl i off s1 = Inr (v, s2)" "api_store s2 ?T" "events s2 = events s1 @ told t i
      [(PLCTAG_EVENT_READ_STARTED, PLCTAG_STATUS_OK), (PLCTAG_EVENT_READ_COMPLETED, PLCTAG_STATUS_OK)]"
    by (rule refinesE)
  then show ?thesis using s1 setter_cb_length [OF buf] by (auto simp: told_append)
qed

text \<open>A tag of the demonstration library, a variant of it with a callback, and the readiness of the library.\<close>

definition demo_tag :: tag where
  "demo_tag = the (default_store 5)"

lemma demo_tag: "default_store (sint (5 :: c_int)) = Some demo_tag" "t_mtx demo_tag = None" "t_type demo_tag = Simple TAG_INT"
  "length (t_data demo_tag) = 8" "t_cb demo_tag = NULL"
  by (simp_all add: demo_tag_def default_store_def tags_inc_def defined_tag_def new_tag_def)

theorem set_get_roundtrip_witness:
  "\<exists>s1 s2. plc_tag_set_uint32 silent 5 0 0xDEADBEEF (demo_lib 60) = Inr (0, s1)
     \<and> plc_tag_get_uint32 silent 5 0 s1 = Inr (0xDEADBEEF, s2)"
  using set_get_roundtrip [OF demo_lib_store [of 60] demo_lookup_ready [of 4 60] silent_quiet demo_tag(1,2),
      of 0 0 "0xDEADBEEF :: 32 word" int_to_int] demo_tag
  by (auto simp: plc_tag_set_uint32_def plc_tag_get_uint32_def element_at_def in_buffer_def status_defs)

text \<open>The tag after a setter that returned.\<close>

lemma set_result:
  fixes v :: "'a::len word"
  assumes st: "api_store s T" and ready: "lookup_ready 4 s T" and q: "quiet cl"
    and set: "SETTER cl i off v s = Inr (r, s')" and t: "T (sint i) = Some t"
  shows "\<exists>t'. api_store s' (T(sint i \<mapsto> t')) \<and> ready_for 4 s' \<and> t_name t' = t_name t \<and> t_type t' = t_type t
      \<and> t_mtx t = None \<and> t_mtx t' = None \<and> (t' = t \<or> (\<exists>p buf. element_at (t_type t) off = Some p
        \<and> setter_cb (t_data t) p v = Inr buf \<and> t' = t\<lparr>t_data := buf\<rparr>))"
proof -
  have free: "t_mtx t = None"
  proof (rule ccontr)
    assume "t_mtx t \<noteq> None"
    then show False using set_impl_refines [OF st ready q, of i off v] set t looked_up_found [of T i t]
      by (simp add: set_spec_def with_tag_def)
  qed
  note found = set_found [OF st ready q t free, of off v]
  show ?thesis
  proof (cases "element_at (t_type t) off")
    case None
    have "T(sint i \<mapsto> t) = T" using t by auto
    then show ?thesis using found None set free by (auto elim!: refinesE)
  next
    case (Some p)
    show ?thesis
    proof (cases "setter_cb (t_data t) p v")
      case (Inl e)
      then show ?thesis using found Some set by simp
    next
      case (Inr buf)
      then have "refines 4 (SETTER cl i off v s) s (Inr (PLCTAG_STATUS_OK, T(sint i \<mapsto> t\<lparr>t_data := buf\<rparr>), told t i
         [(PLCTAG_EVENT_WRITE_STARTED, PLCTAG_STATUS_OK), (PLCTAG_EVENT_WRITE_COMPLETED, PLCTAG_STATUS_OK)]))"
        using found Some by simp
      then obtain s1 where "SETTER cl i off v s = Inr (PLCTAG_STATUS_OK, s1)" "api_store s1 (T(sint i \<mapsto> t\<lparr>t_data := buf\<rparr>))"
        "ready_for 4 s1" by (rule refinesE)
      then show ?thesis using set Inr Some free by (intro exI [of _ "t\<lparr>t_data := buf\<rparr>"]) auto
    qed
  qed
qed

text \<open>C23: a setter changes what a getter reads only where the two overlap: the same getter on another
  tag, or on other bytes of the same one, has the same result after the call as before, whether that is a
  value, an error code, waiting or undefined behaviour.\<close>

theorem set_is_local:
  fixes v :: "'a::len word" and conv :: "c_int \<Rightarrow> 'b::len word"
  assumes st: "api_store s T" and ready: "lookup_ready 4 s T" and q: "quiet cl"
    and set: "SETTER cl i off v s = Inr (r, s')" and t: "T (sint i) = Some t" and there: "T (sint j) \<noteq> None"
    and apart: "i = j \<Longrightarrow> case (element_at (t_type t) off, element_at (t_type t) off') of
        (Some p, Some q) \<Rightarrow> unat q + LENGTH('b) div 8 \<le> unat p \<or> unat p + LENGTH('a) div 8 \<le> unat q
      | _ \<Rightarrow> True"
  shows "map_sum id fst (GETTER conv cl j off' s') = map_sum id fst (GETTER conv cl j off' s)"
proof -
  obtain t' where t': "api_store s' (T(sint i \<mapsto> t'))" "ready_for 4 s'" "t_name t' = t_name t" "t_type t' = t_type t"
    "t_mtx t = None" "t_mtx t' = None" "t' = t \<or> (\<exists>p buf. element_at (t_type t) off = Some p
        \<and> setter_cb (t_data t) p v = Inr buf \<and> t' = t\<lparr>t_data := buf\<rparr>)"
    using set_result [OF st ready q set t] by blast
  have ready_s: "lookup_ready 0 s T" using alloc_ready_le [of "init_cost s + (4 + 4)" s "init_cost s + 4"] ready
    by (simp add: lookup_ready_def)
  let ?T = "T(sint i \<mapsto> t')"
  have "names_total ?T = names_total T" by (rule names_total_same [OF api_store_finite [OF st] t t'(3)])
  then have r: "lookup_ready 0 s' ?T" using ready t'(2) by (intro still_ready) (simp_all add: lookup_ready_def)
  have l: "looked_up T junk (sint j) = T" "looked_up ?T junk (sint j) = ?T" for junk
    using there by (auto simp: looked_up_def)
  have outcome: "map_sum id fst c = map_sum id fst out" if "refines 0 c s0 out" for c s0 and out :: "'b word outcome"
    using that by (cases out) (auto simp: refines_def)
  have spec: "map_sum id fst (get_spec conv j off' ?T) = map_sum id fst (get_spec conv j off' T)"
  proof (cases "i = j")
    case False
    then have "?T (sint j) = T (sint j)" using signed_word_eqI [of j i] by auto
    then show ?thesis using there by (auto simp: get_spec_def with_tag_def bindE_def split: option.splits sum.splits)
  next
    case True
    show ?thesis
    proof (cases "element_at (t_type t) off'")
      case None
      then show ?thesis using t t' True by (auto simp: get_spec_def with_tag_def)
    next
      case (Some p')
      have "(getter_cb (t_data t') p' :: stop + 'b word) = getter_cb (t_data t) p'"
        using t'(7) apart [OF True] Some getter_setter_other [where w = v and ?'b = 'b] by fastforce
      then show ?thesis using t t' True Some
        by (auto simp: get_spec_def with_tag_def bindE_def split: sum.splits)
    qed
  qed
  show ?thesis
    using outcome [OF getter_refines [OF t'(1) r q, of conv j off']] outcome [OF getter_refines [OF st ready_s q, of conv j off']]
      l spec by simp
qed

theorem set_is_local_witness:
  "\<exists>s'. plc_tag_set_uint16 silent 5 0 7 (demo_lib 60) = Inr (0, s')
     \<and> map_sum id fst (plc_tag_get_uint16 silent 6 0 s') = map_sum id fst (plc_tag_get_uint16 silent 6 0 (demo_lib 60))"
proof -
  obtain s' where s': "SETTER silent 5 0 (7 :: 16 word) (demo_lib 60) = Inr (PLCTAG_STATUS_OK, s')"
    using set_in_buffer [OF demo_lib_store [of 60] demo_lookup_ready [of 4 60] silent_quiet demo_tag(1,2),
        of 0 0 "7 :: 16 word"] demo_tag by (auto simp: element_at_def in_buffer_def)
  have "default_store (sint (6 :: c_int)) \<noteq> None" by (simp add: default_store_def tags_inc_def)
  from set_is_local [OF demo_lib_store demo_lookup_ready [of 4 60] silent_quiet s' demo_tag(1) this, of 0 int_to_int] s'
  show ?thesis by (auto simp: plc_tag_set_uint16_def plc_tag_get_uint16_def status_defs)
qed

section \<open>Offsets\<close>

lemma api_sized:
  fixes i :: c_int
  assumes "api_store s T" and "lookup_ready n s T" and t: "T (sint i) = Some t"
  shows "sized t"
proof -
  obtain a s1 where "tag_tree_lookup i s = Inr (a, s1)" "held s1 a (sint i) T t"
    using lookup_held [OF assms(1,2), of i] looked_up_found [of T i t, OF t] t by (metis option.simps(5))
  from held_node [OF this(2)] show ?thesis by (auto simp: node_is_def)
qed

lemma unat_small: "m < 2 ^ 31 \<Longrightarrow> unat (of_nat m :: size_t) = m"
  by (simp add: unat_of_nat)

lemma sint_scaled:
  fixes off :: c_int
  assumes "- (2 ^ 31) \<le> sint off * int k" and "sint off * int k < 2 ^ 31"
  shows "sint (off * of_nat k) = sint off * int k"
proof -
  have "off * of_nat k = word_of_int (sint off * int k)" by simp
  then show ?thesis using signed_take_bit_int_eq_self [of 31 "sint off * int k"] assms by (simp only: sint_sbintrunc') simp
qed

text \<open>What the two functions do at an element, in terms of its place in the buffer.\<close>

lemma set_at:
  fixes v :: "'a::len word"
  assumes "api_store s T" and "lookup_ready n s T" and "quiet cl" and "T (sint i) = Some t" and "t_mtx t = None"
    and "element_at (t_type t) off = Some p"
  shows "if in_buffer t p (LENGTH('a) div 8)
    then \<exists>s' buf. SETTER cl i off v s = Inr (PLCTAG_STATUS_OK, s') \<and> api_store s' (T(sint i \<mapsto> t\<lparr>t_data := buf\<rparr>))
    else SETTER cl i off v s = Inl (Undef OutOfBounds)"
  using set_found [OF assms(1-5), of off v] assms(6) setter_in_buffer [of t p v]
  by (auto elim!: refinesE split: if_splits) blast

lemma get_at:
  fixes conv :: "c_int \<Rightarrow> 'a::len word"
  assumes "api_store s T" and "lookup_ready n s T" and "quiet cl" and "T (sint i) = Some t" and "t_mtx t = None"
    and "element_at (t_type t) off = Some p"
  shows "if in_buffer t p (LENGTH('a) div 8)
    then \<exists>v s'. GETTER conv cl i off s = Inr (v, s') \<and> getter_cb (t_data t) p = Inr v \<and> api_store s' T
    else GETTER conv cl i off s = Inl (Undef OutOfBounds)"
  using get_found [OF assms(1-5), of conv off] assms(6) getter_in_buffer [of t p, where ?'a = 'a]
  by (auto elim!: refinesE split: if_splits)

lemma rejected:
  assumes "api_store s T" and "lookup_ready n s T" and "quiet cl" and "T (sint i) = Some t" and "t_mtx t = None"
    and "element_at (t_type t) off = None"
  shows "(\<exists>s'. SETTER cl i off v s = Inr (PLCTAG_ERR_BAD_PARAM, s') \<and> api_store s' T
      \<and> events s' = events s @ told t i ((PLCTAG_EVENT_WRITE_STARTED, PLCTAG_STATUS_OK) # aborted (t_type t)))
    \<and> (\<exists>s'. GETTER conv cl i off s = Inr (conv PLCTAG_ERR_BAD_PARAM, s') \<and> api_store s' T
      \<and> events s' = events s @ told t i ((PLCTAG_EVENT_READ_STARTED, PLCTAG_STATUS_OK) # aborted (t_type t)))"
  using set_found [OF assms(1-5), of off v] get_found [OF assms(1-5), of conv off] assms(6) by (auto elim!: refinesE)

text \<open>C18: on a scalar tag, offset 0 is always safe and succeeds, whatever the width of the accessor up
  to 64 bits and of the tag; a positive offset is refused with \<open>PLCTAG_ERR_BAD_PARAM\<close> after the events of the
  start and of the abort, and changes nothing; a negative offset is not refused and reaches before the buffer.\<close>

theorem scalar_offsets:
  fixes v :: "'a::len word" and conv :: "c_int \<Rightarrow> 'a word"
  assumes st: "api_store s T" and ready: "lookup_ready n s T" and q: "quiet cl"
    and t: "T (sint i) = Some t" "t_mtx t = None" and scalar: "shape (t_type t) \<noteq> TAG_ARRAY" and w: "LENGTH('a) \<le> 64"
  shows "if off = 0 then (\<exists>s' buf. SETTER cl i off v s = Inr (PLCTAG_STATUS_OK, s') \<and> api_store s' (T(sint i \<mapsto> t\<lparr>t_data := buf\<rparr>)))
      \<and> (\<exists>v s'. GETTER conv cl i off s = Inr (v, s') \<and> getter_cb (t_data t) 0 = Inr v \<and> api_store s' T)
    else if 0 < sint off then (\<exists>s'. SETTER cl i off v s = Inr (PLCTAG_ERR_BAD_PARAM, s') \<and> api_store s' T
        \<and> events s' = events s @ told t i [(PLCTAG_EVENT_WRITE_STARTED, PLCTAG_STATUS_OK), (PLCTAG_EVENT_ABORTED, PLCTAG_ERR_BAD_PARAM)])
      \<and> (\<exists>s'. GETTER conv cl i off s = Inr (conv PLCTAG_ERR_BAD_PARAM, s') \<and> api_store s' T
        \<and> events s' = events s @ told t i [(PLCTAG_EVENT_READ_STARTED, PLCTAG_STATUS_OK), (PLCTAG_EVENT_ABORTED, PLCTAG_ERR_BAD_PARAM)])
    else SETTER cl i off v s = Inl (Undef OutOfBounds) \<and> GETTER conv cl i off s = Inl (Undef OutOfBounds)"
proof -
  have e: "element_at (t_type t) off = (if 0 < sint off then None else Some off)"
    using scalar by (auto simp: element_at_def split: ty.splits)
  have "sized t" by (rule api_sized [OF st ready t(1)])
  then have "8 \<le> length (t_data t)" using scalar by (simp add: sized_def)
  moreover have "LENGTH('a) div 8 \<le> 8" using w by (simp add: div_le_mono [of _ 64 8, simplified])
  ultimately have b: "in_buffer t off (LENGTH('a) div 8)" if "off = 0" using that by (simp add: in_buffer_def)
  have nb: "\<not> in_buffer t off k" if "sint off < 0" for k using that by (simp add: in_buffer_def)
  have z: "off = 0 \<longleftrightarrow> sint off = 0" using signed_word_eqI [of off 0] by auto
  note at = set_at [OF st ready q t, of off off v] get_at [OF st ready q t, of off off conv]
  consider "off = 0" | "0 < sint off" | "sint off < 0" using z by linarith
  then show ?thesis
  proof cases
    case 1
    then show ?thesis using at e b by simp
  next
    case 2
    then show ?thesis using rejected [OF st ready q t, of off v conv] e scalar by (auto simp: aborted_def)
  next
    case 3
    then show ?thesis using at e nb by auto
  qed
qed

theorem scalar_offsets_witness:
  "plc_tag_set_uint8 silent 5 (- 1) 7 (demo_lib 60) = Inl (Undef OutOfBounds)"
  using scalar_offsets [OF demo_lib_store [of 60] demo_lookup_ready [of 0 60] silent_quiet demo_tag(1,2), of "- 1" "7 :: 8 word"]
    demo_tag(3) by (simp add: plc_tag_set_uint8_def)

text \<open>C17: on an array of elements of \<open>k\<close> bytes an offset counts elements: one at or past the end is
  refused, without an event for the abort; any other access succeeds exactly when its bytes, from \<open>off * k\<close> on, lie
  in the buffer, and is out of bounds otherwise. So an access as wide as the elements is safe at every offset
  from 0 to the end, a wider one may run over the end of the buffer, and a negative offset runs before it.\<close>

theorem array_offsets:
  fixes v :: "'a::len word" and conv :: "c_int \<Rightarrow> 'a word"
  assumes st: "api_store s T" and ready: "lookup_ready n s T" and q: "quiet cl"
    and t: "T (sint i) = Some t" "t_mtx t = None" and array: "t_type t = Arr len mt" and k: "k = ty_size mt"
    and total: "unat len * k < 2 ^ 31" and low: "- (2 ^ 31) \<le> sint off * int k"
  shows "(if int (unat len) \<le> sint off then
      (\<exists>s'. SETTER cl i off v s = Inr (PLCTAG_ERR_BAD_PARAM, s') \<and> api_store s' T
        \<and> events s' = events s @ told t i [(PLCTAG_EVENT_WRITE_STARTED, PLCTAG_STATUS_OK)])
      \<and> (\<exists>s'. GETTER conv cl i off s = Inr (conv PLCTAG_ERR_BAD_PARAM, s') \<and> api_store s' T
        \<and> events s' = events s @ told t i [(PLCTAG_EVENT_READ_STARTED, PLCTAG_STATUS_OK)])
    else if 0 \<le> sint off * int k \<and> sint off * int k + int (LENGTH('a) div 8) \<le> int (length (t_data t)) then
      (\<exists>s' buf. SETTER cl i off v s = Inr (PLCTAG_STATUS_OK, s') \<and> api_store s' (T(sint i \<mapsto> t\<lparr>t_data := buf\<rparr>)))
      \<and> (\<exists>v s'. GETTER conv cl i off s = Inr (v, s') \<and> api_store s' T)
    else SETTER cl i off v s = Inl (Undef OutOfBounds) \<and> GETTER conv cl i off s = Inl (Undef OutOfBounds))
    \<and> unat len * k \<le> length (t_data t)" (is "?offsets \<and> ?room")
proof -
  have "int (unat len * k) < int (2 ^ 31)" using total by (simp only: of_nat_less_iff)
  then have less: "sint off * int k < 2 ^ 31" if "sint off < int (unat len)"
    using that mult_right_mono [of "sint off" "int (unat len)" "int k"] by simp
  have e: "element_at (t_type t) off = (if int (unat len) \<le> sint off then None else Some (off * of_nat k))"
    using array k by (simp add: element_at_def)
  note at = set_at [OF st ready q t, of off "off * of_nat k" v] get_at [OF st ready q t, of off "off * of_nat k" conv]
  have ?offsets
  proof (cases "int (unat len) \<le> sint off")
    case True
    then show ?thesis using rejected [OF st ready q t, of off v conv] e array by (simp add: aborted_def)
  next
    case False
    then have "sint (off * of_nat k) = sint off * int k" using low less by (intro sint_scaled) auto
    then have "in_buffer t (off * of_nat k) (LENGTH('a) div 8) \<longleftrightarrow>
        0 \<le> sint off * int k \<and> sint off * int k + int (LENGTH('a) div 8) \<le> int (length (t_data t))"
      by (auto simp: in_buffer_def nat_le_iff le_nat_iff)
    then show ?thesis using at e False by (auto split: if_splits)
  qed
  moreover have "unat (of_nat (unat len * k) :: size_t) = unat len * k" by (rule unat_small [OF total])
  then have ?room using api_sized [OF st ready t(1)] array k by (simp add: sized_def mult.commute)
  ultimately show ?thesis by blast
qed

text \<open>The demonstration library with its metatag, an array of 390 single bytes.\<close>

definition with_metatag :: store where
  "with_metatag = default_store(1 \<mapsto> metatag default_store (\<lambda>_. 0))"

lemma with_metatag:
  "\<exists>s. tag_tree_insert (CStr ''@tags'') NULL (demo_lib 60) = Inr (METATAG_ID, s) \<and> api_store s with_metatag
     \<and> lookup_ready 4 s with_metatag"
  using first_refresh [of 60] alloc_ready_le [of 26 _ 8]
  by (auto simp: with_metatag_def lookup_ready_def init_cost_def refreshed_total)

lemma metatag_of_default: "with_metatag (sint METATAG_ID) = Some (metatag default_store (\<lambda>_. 0))"
  "t_mtx (metatag default_store junk) = None" "t_type (metatag default_store junk) = Arr 390 (Simple TAG_SINT)"
  "length (t_data (metatag default_store junk)) = 390" "t_cb (metatag default_store junk) = NULL"
  using length_metatag_data [of default_store junk] default_store_dom
  by (simp_all add: with_metatag_def default_names) (simp_all add: metatag_def default_names)

theorem array_offsets_witness:
  "\<exists>s. tag_tree_insert (CStr ''@tags'') NULL (demo_lib 60) = Inr (METATAG_ID, s)
     \<and> plc_tag_set_uint16 silent METATAG_ID 389 7 s = Inl (Undef OutOfBounds)"
proof -
  obtain s where s: "tag_tree_insert (CStr ''@tags'') NULL (demo_lib 60) = Inr (METATAG_ID, s)" "api_store s with_metatag"
    "lookup_ready 4 s with_metatag" using with_metatag by blast
  have "SETTER silent METATAG_ID 389 (7 :: 16 word) s = Inl (Undef OutOfBounds)"
    using array_offsets [OF s(2,3) silent_quiet metatag_of_default(1,2,3), of 1 389 "7 :: 16 word"] metatag_of_default(4)
    by simp
  then show ?thesis using s(1) by (auto simp: plc_tag_set_uint16_def)
qed

section \<open>Errors and events\<close>

lemma getter_missing:
  "tag_tree_lookup i s = Inr (NULL, s') \<Longrightarrow> GETTER conv cl i off s = Inr (conv PLCTAG_ERR_NOT_FOUND, s')"
  by (simp add: GETTER_def plcstub_get_impl_def status_defs)

text \<open>A getter has no way to report an error but its value: for an identifier without a tag it
  returns \<open>PLCTAG_ERR_NOT_FOUND\<close> converted to its type, which is 237 for a byte, 65517 for 16 bits and
  \<open>-19.0\<close> for a \<open>double\<close> or a \<open>float\<close>, all values a tag may have. The store is not changed and no callback made.\<close>

theorem missing_tag_in_band:
  assumes "api_store s T" and "lookup_ready n s T" and "quiet cl" and "T (sint i) = None" and "i \<noteq> METATAG_ID"
  shows "\<exists>s'. api_store s' T \<and> events s' = events s
    \<and> plc_tag_get_uint8 cl i off s = Inr (237, s') \<and> plc_tag_get_uint16 cl i off s = Inr (65517, s')
    \<and> plc_tag_get_uint32 cl i off s = Inr (PLCTAG_ERR_NOT_FOUND, s') \<and> plc_tag_get_uint64 cl i off s = Inr (- 19, s')
    \<and> plc_tag_get_float64 cl i off s = Inr (0xC033000000000000, s') \<and> plc_tag_get_float32 cl i off s = Inr (0xC1980000, s')
    \<and> plc_tag_set_uint64 cl i off v s = Inr (PLCTAG_ERR_NOT_FOUND, s')"
proof -
  have l: "looked_up T (dirt s) (sint i) = T" by (rule looked_up_other [OF assms(5)])
  obtain a s' where look: "tag_tree_lookup i s = Inr (a, s')" "api_store s' T" "events s' = events s" "a = NULL"
    using assms(4) by (auto intro: lookup_held [OF assms(1,2), of i, unfolded l])
  have "int_to_double PLCTAG_ERR_NOT_FOUND = 0xC033000000000000" "int_to_float PLCTAG_ERR_NOT_FOUND = 0xC1980000"
    "(int_to_int PLCTAG_ERR_NOT_FOUND :: 8 word) = 237" "(int_to_int PLCTAG_ERR_NOT_FOUND :: 16 word) = 65517"
    "(int_to_int PLCTAG_ERR_NOT_FOUND :: 32 word) = PLCTAG_ERR_NOT_FOUND" "(int_to_int PLCTAG_ERR_NOT_FOUND :: 64 word) = - 19"
    by code_simp+
  moreover have "plc_tag_set_uint64 cl i off v s = Inr (PLCTAG_ERR_NOT_FOUND, s')"
    using look(1,4) by (simp add: plc_tag_set_uint64_def SETTER_def plcstub_set_impl_def)
  ultimately show ?thesis using look(2,3)
    by (auto simp: getter_missing [OF look(1) [unfolded look(4)]] plc_tag_get_uint8_def plc_tag_get_uint16_def plc_tag_get_uint32_def plc_tag_get_uint64_def
        plc_tag_get_float64_def plc_tag_get_float32_def)
qed

theorem missing_tag_in_band_witness:
  "\<exists>s1 s2 s3. plc_tag_get_uint8 silent 77 0 (demo_lib 60) = Inr (237, s1)
    \<and> plc_tag_set_uint8 silent 5 0 237 (demo_lib 60) = Inr (0, s2) \<and> plc_tag_get_uint8 silent 5 0 s2 = Inr (237, s3)"
proof -
  have "default_store (sint (77 :: c_int)) = None" by (simp add: default_store_def tags_inc_def)
  from missing_tag_in_band [OF demo_lib_store [of 60] demo_lookup_ready [of 0 60] silent_quiet this, of 0 0]
  have "\<exists>s1. plc_tag_get_uint8 silent 77 0 (demo_lib 60) = Inr (237, s1)" by (auto simp: METATAG_ID_def)
  moreover obtain s2 where s2: "SETTER silent 5 0 (237 :: 8 word) (demo_lib 60) = Inr (PLCTAG_STATUS_OK, s2)"
    "api_store s2 (default_store(5 \<mapsto> demo_tag\<lparr>t_data := 237 # tl (t_data demo_tag)\<rparr>))" "ready_for 4 s2"
  proof -
    have "setter_cb (t_data demo_tag) 0 (237 :: 8 word) = Inr (237 # tl (t_data demo_tag))"
      by (simp add: demo_tag_def default_store_def tags_inc_def defined_tag_def new_tag_def) code_simp
    then show thesis using that set_found [OF demo_lib_store [of 60] demo_lookup_ready [of 4 60] silent_quiet demo_tag(1,2),
        of 0 "237 :: 8 word"] demo_tag by (auto simp: element_at_def elim!: refinesE)
  qed
  moreover have "\<exists>s3. GETTER int_to_int silent 5 0 s2 = Inr (237 :: 8 word, s3)"
  proof -
    let ?t = "demo_tag\<lparr>t_data := 237 # tl (t_data demo_tag)\<rparr>"
    have "names_total (default_store(5 \<mapsto> ?t)) = names_total default_store"
      using demo_tag(1) by (intro names_total_same [of _ _ demo_tag]) (simp_all add: default_store_dom)
    then have r: "lookup_ready 0 s2 (default_store(5 \<mapsto> ?t))" using s2(3) by (intro still_ready) (simp_all add: default_names)
    have "getter_cb (t_data ?t) 0 = Inr (237 :: 8 word)" by (simp add: getter_cb_def)
    then show ?thesis using get_found [OF s2(2) r silent_quiet, of 5 ?t "int_to_int :: c_int \<Rightarrow> 8 word" 0] demo_tag
      by (auto simp: element_at_def elim!: refinesE)
  qed
  ultimately show ?thesis by (auto simp: plc_tag_set_uint8_def plc_tag_get_uint8_def status_defs)
qed

end
