(* ===== verification/Lock_Props.thy ===== *)
theory Lock_Props
  imports Api_Props
begin

text \<open>
  The mutex and the callback of a tag: what a client that locks a tag excludes, the callbacks that are made, and
  what a callback that calls the library back runs into.
\<close>

section \<open>Callbacks\<close>

text \<open>\<open>plc_tag_read\<close> and \<open>plc_tag_write\<close> of a free tag with a callback call it twice, with the
  event of the start and that of the completion, and change no tag; without a callback they do nothing. A negative
  timeout is refused before anything else happens, and any other timeout is without effect.\<close>

lemma read_write_events:
  assumes st: "api_store s T" and ready: "lookup_ready n s T" and q: "quiet cl"
    and t: "T (sint i) = Some t" "t_mtx t = None"
  shows "if sint timeout < 0 then plc_tag_read cl i timeout s = Inr (PLCTAG_ERR_BAD_PARAM, s)
      \<and> plc_tag_write cl i timeout s = Inr (PLCTAG_ERR_BAD_PARAM, s)
    else (\<exists>s'. plc_tag_read cl i timeout s = Inr (PLCTAG_STATUS_OK, s') \<and> api_store s' T
        \<and> events s' = events s @ (if t_cb t = NULL then [] else
          [(t_cb t, i, PLCTAG_EVENT_READ_STARTED, PLCTAG_STATUS_OK), (t_cb t, i, PLCTAG_EVENT_READ_COMPLETED, PLCTAG_STATUS_OK)]))
      \<and> (\<exists>s'. plc_tag_write cl i timeout s = Inr (PLCTAG_STATUS_OK, s') \<and> api_store s' T
        \<and> events s' = events s @ (if t_cb t = NULL then [] else
          [(t_cb t, i, PLCTAG_EVENT_WRITE_STARTED, PLCTAG_STATUS_OK), (t_cb t, i, PLCTAG_EVENT_WRITE_COMPLETED, PLCTAG_STATUS_OK)]))"
proof (cases "sint timeout < 0")
  case True
  then show ?thesis by (simp add: plc_tag_read_def plc_tag_write_def word_sless_alt)
next
  case False
  then show ?thesis
    using read_refines [OF st ready q, of i timeout] write_refines [OF st ready q, of i timeout] t looked_up_found [of T i t, OF t(1)]
    by (auto simp: event_spec_def with_tag_def told_def elim!: refinesE)
qed

text \<open>A state with a callback: the function at 64, registered for the tag 5.\<close>

lemma demo_registered:
  "\<exists>s. plc_tag_register_callback 5 64 (demo_lib 60) = Inr (PLCTAG_STATUS_OK, s) \<and> ready_for 20 s \<and> events s = []
     \<and> api_store s (default_store(5 \<mapsto> demo_tag\<lparr>t_cb := 64\<rparr>)) \<and> lookup_ready 16 s (default_store(5 \<mapsto> demo_tag\<lparr>t_cb := 64\<rparr>))"
proof -
  have "looked_up default_store junk 5 = default_store" for junk by (simp add: looked_up_def)
  then have "refines 20 (plc_tag_register_callback 5 64 (demo_lib 60)) (demo_lib 60)
    (Inr (PLCTAG_STATUS_OK, default_store(5 \<mapsto> demo_tag\<lparr>t_cb := 64\<rparr>), []))"
    using register_refines [OF demo_lib_store demo_lookup_ready [of 20 60], of 5 64] demo_tag
    by (simp add: register_spec_def with_tag_def)
  then obtain s where s: "plc_tag_register_callback 5 64 (demo_lib 60) = Inr (PLCTAG_STATUS_OK, s)" "ready_for 20 s" "events s = []"
    "api_store s (default_store(5 \<mapsto> demo_tag\<lparr>t_cb := 64\<rparr>))" by (auto elim: refinesE)
  have "names_total (default_store(5 \<mapsto> demo_tag\<lparr>t_cb := 64\<rparr>)) = 390"
    using demo_tag(1) default_names by (subst names_total_same [of _ _ demo_tag]) (simp_all add: default_store_dom)
  then have "lookup_ready 16 s (default_store(5 \<mapsto> demo_tag\<lparr>t_cb := 64\<rparr>))"
    using s(2) by (intro still_ready) simp_all
  then show ?thesis using s by blast
qed

lemma read_write_events_witness:
  "\<exists>s s'. plc_tag_register_callback 5 64 (demo_lib 60) = Inr (0, s) \<and> plc_tag_read silent 5 100 s = Inr (0, s')
     \<and> events s' = [(64, 5, 1, 0), (64, 5, 2, 0)]"
proof -
  obtain s where s: "plc_tag_register_callback 5 64 (demo_lib 60) = Inr (PLCTAG_STATUS_OK, s)" "events s = []"
    "api_store s (default_store(5 \<mapsto> demo_tag\<lparr>t_cb := 64\<rparr>))" "lookup_ready 16 s (default_store(5 \<mapsto> demo_tag\<lparr>t_cb := 64\<rparr>))"
    using demo_registered by blast
  from read_write_events [OF s(3,4) silent_quiet, of 5 "demo_tag\<lparr>t_cb := 64\<rparr>" 100] s(1,2) demo_tag(2)
  show ?thesis by (auto simp: status_defs PLCTAG_EVENT_READ_STARTED_def PLCTAG_EVENT_READ_COMPLETED_def)
qed

text \<open>Registering a callback for a tag that has one already succeeds and replaces it, and so does
  removing one that is not there: neither is an error. Nothing else of the tag changes and no callback is called.\<close>

lemma callback_replaced:
  assumes st: "api_store s T" and ready: "lookup_ready 4 s T" and t: "T (sint i) = Some t" "t_mtx t = None"
  shows "\<exists>s1 s2. plc_tag_register_callback i f s = Inr (PLCTAG_STATUS_OK, s1) \<and> api_store s1 (T(sint i \<mapsto> t\<lparr>t_cb := f\<rparr>))
    \<and> plc_tag_unregister_callback i s1 = Inr (PLCTAG_STATUS_OK, s2) \<and> api_store s2 (T(sint i \<mapsto> t\<lparr>t_cb := NULL\<rparr>))
    \<and> events s2 = events s"
proof -
  let ?T = "T(sint i \<mapsto> t\<lparr>t_cb := f\<rparr>)"
  have "refines 4 (plc_tag_register_callback i f s) s (Inr (PLCTAG_STATUS_OK, ?T, []))"
    using register_refines [OF st ready, of i f] t looked_up_found [of T i t, OF t(1)] by (simp add: register_spec_def with_tag_def)
  then obtain s1 where s1: "plc_tag_register_callback i f s = Inr (PLCTAG_STATUS_OK, s1)" "api_store s1 ?T"
    "events s1 = events s" "ready_for 4 s1" by (auto elim: refinesE)
  have "names_total ?T = names_total T" by (rule names_total_same [OF api_store_finite [OF st] t(1)]) simp
  then have r: "lookup_ready 0 s1 ?T" using ready s1(4) by (intro still_ready) (simp_all add: lookup_ready_def)
  have "refines 0 (plc_tag_unregister_callback i s1) s1 (Inr (PLCTAG_STATUS_OK, T(sint i \<mapsto> t\<lparr>t_cb := NULL\<rparr>), []))"
    using register_refines [OF s1(2) r, of i NULL] t looked_up_found [of ?T i "t\<lparr>t_cb := f\<rparr>"]
    by (simp add: plc_tag_unregister_callback_def register_spec_def with_tag_def)
  then show ?thesis using s1 by (auto elim: refinesE)
qed

lemma callback_replaced_witness:
  "\<exists>s1 s2. plc_tag_register_callback 5 64 (demo_lib 60) = Inr (0, s1) \<and> plc_tag_unregister_callback 5 s1 = Inr (0, s2)
     \<and> api_store s2 default_store"
proof -
  have "default_store(5 \<mapsto> demo_tag\<lparr>t_cb := NULL\<rparr>) = default_store" using demo_tag by (cases demo_tag) auto
  then show ?thesis using callback_replaced [OF demo_lib_store demo_lookup_ready [of 4 60] demo_tag(1,2), of 64]
    by (auto simp: status_defs)
qed

section \<open>Locks\<close>

text \<open>The calls that take the mutex of the tag \<open>i\<close>; \<open>plc_tag_unlock\<close> and \<open>plc_tag_status\<close> do not.\<close>

fun takes_lock :: "c_int \<Rightarrow> api_call \<Rightarrow> bool" where
  "takes_lock i (Destroy j) = (j = i \<and> i \<noteq> METATAG_ID)"
| "takes_lock i (Lock j) = (j = i)"
| "takes_lock i (Read_tag j timeout) = (j = i \<and> 0 \<le> sint timeout)"
| "takes_lock i (Write_tag j timeout) = (j = i \<and> 0 \<le> sint timeout)"
| "takes_lock i (Register j f) = (j = i)"
| "takes_lock i (Unregister j) = (j = i)"
| "takes_lock i (Get64 j off) = (j = i)"
| "takes_lock i (Get32 j off) = (j = i)"
| "takes_lock i (Get16 j off) = (j = i)"
| "takes_lock i (Get8 j off) = (j = i)"
| "takes_lock i (Set64 j off v) = (j = i)"
| "takes_lock i (Set32 j off v) = (j = i)"
| "takes_lock i (Set16 j off v) = (j = i)"
| "takes_lock i (Set8 j off v) = (j = i)"
| "takes_lock i _ = False"

lemma spec_blocked:
  assumes "T (sint i) = Some t" and "t_mtx t \<noteq> None" and "takes_lock i c"
  shows "spec_step me junk c T = Inl Blocked"
  using assms looked_up_found [of T i t junk]
  by (cases c) (auto simp: map_result_def destroy_api_def with_tag_def lock_spec_def event_spec_def register_spec_def
      get_spec_def set_spec_def)

lemma other_thread:
  "api_store s T \<Longrightarrow> api_store (s\<lparr>self := me\<rparr>) T" "ready_for n (s\<lparr>self := me\<rparr>) = ready_for n s"
  by (auto simp: api_store_def ready_for_def alloc_ready_def init_cost_def)

text \<open>C16: while a tag is locked by \<open>plc_tag_lock\<close>, every call that works on it waits, from any thread and
  from the one that holds the lock too, for the mutex is not recursive (the header means the lock to keep other threads out while its
  holder gets and sets values, up to \<open>plc_tag_unlock\<close>; such a holder waits for itself); the holder's \<open>plc_tag_unlock\<close> ends this and
  leaves the tags as they were before, and anyone else's is undefined behaviour.\<close>

theorem lock_excludes:
  assumes st: "api_store s T" and ready: "ready_for 10 s" and total: "names_total T < 2 ^ 64" and q: "quiet cl"
    and t: "T (sint i) = Some t" "t_mtx t = None"
  shows "\<exists>s1. plc_tag_lock i s = Inr (PLCTAG_STATUS_OK, s1)
    \<and> (\<forall>c me. takes_lock i c \<longrightarrow> api_step cl c (s1\<lparr>self := me\<rparr>) = Inl Blocked)
    \<and> (\<forall>me. me \<noteq> self s \<longrightarrow> plc_tag_unlock i (s1\<lparr>self := me\<rparr>) = Inl (Undef BadUnlock))
    \<and> (\<exists>s2. plc_tag_unlock i s1 = Inr (PLCTAG_STATUS_OK, s2) \<and> api_store s2 T)"
proof -
  let ?t = "t\<lparr>t_mtx := Some (self s)\<rparr>"
  let ?T = "T(sint i \<mapsto> ?t)"
  have "lookup_ready 6 s T" using ready total by (intro still_ready) simp_all
  from lock_refines [OF st this, of i] t looked_up_found [of T i t]
  obtain s1 where s1: "plc_tag_lock i s = Inr (PLCTAG_STATUS_OK, s1)" "api_store s1 ?T" "ready_for 6 s1" "keeps_rest s s1"
    by (auto simp: lock_spec_def with_tag_def elim: refinesE)
  have "names_total ?T = names_total T" by (rule names_total_same [OF api_store_finite [OF st] t(1)]) simp
  then have total1: "names_total ?T < 2 ^ 64" using total by simp
  have blocked: "api_step cl c (s1\<lparr>self := me\<rparr>) = Inl Blocked" if "takes_lock i c" for c me
    using api_step_refines [of "s1\<lparr>self := me\<rparr>" ?T 1 cl c] other_thread(1) [OF s1(2), of me] s1(3) q total1
      spec_blocked [of ?T i ?t c] that by (simp add: other_thread(2))
  have l: "looked_up ?T junk (sint i) = ?T" for junk by (simp add: looked_up_found [of ?T i ?t])
  have lr: "lookup_ready 2 (s1\<lparr>self := me\<rparr>) ?T" for me
    using s1(3) total1 by (intro still_ready) (simp_all add: other_thread(2))
  have foreign: "plc_tag_unlock i (s1\<lparr>self := me\<rparr>) = Inl (Undef BadUnlock)" if "me \<noteq> self s" for me
    using unlock_api_refines [OF other_thread(1) [OF s1(2), of me] lr [of me], of i] l that by (simp add: unlock_spec_def)
  have same: "s1\<lparr>self := self s\<rparr> = s1" using s1(4) by (simp add: keeps_rest_def)
  have "?T(sint i \<mapsto> t\<lparr>t_mtx := None\<rparr>) = T" using t by (cases t) auto
  then have "refines 2 (plc_tag_unlock i s1) s1 (Inr (PLCTAG_STATUS_OK, T, []))"
    using unlock_api_refines [OF s1(2) lr [of "self s", unfolded same], of i] l s1(4)
    by (simp add: unlock_spec_def keeps_rest_def)
  then show ?thesis using s1(1) blocked foreign by (auto elim: refinesE)
qed

theorem lock_excludes_witness:
  "\<exists>s1 s2. plc_tag_lock 5 (demo_lib 60) = Inr (0, s1) \<and> api_step silent (Get16 5 0) s1 = Inl Blocked
     \<and> plc_tag_unlock 5 (s1\<lparr>self := 2\<rparr>) = Inl (Undef BadUnlock) \<and> plc_tag_unlock 5 s1 = Inr (0, s2)"
proof -
  have r: "ready_for 10 (demo_lib 60)" using demo_lib_ready [of 60 40] by (simp add: ready_for_def)
  obtain s1 where s1: "plc_tag_lock 5 (demo_lib 60) = Inr (PLCTAG_STATUS_OK, s1)"
    "\<forall>c me. takes_lock 5 c \<longrightarrow> api_step silent c (s1\<lparr>self := me\<rparr>) = Inl Blocked"
    "\<forall>me. me \<noteq> 1 \<longrightarrow> plc_tag_unlock 5 (s1\<lparr>self := me\<rparr>) = Inl (Undef BadUnlock)"
    "\<exists>s2. plc_tag_unlock 5 s1 = Inr (PLCTAG_STATUS_OK, s2)"
    using lock_excludes [OF demo_lib_store r _ silent_quiet demo_tag(1,2)] default_names by auto
  have "s1\<lparr>self := self s1\<rparr> = s1" by simp
  then have "api_step silent (Get16 5 0) s1 = Inl Blocked" using s1(2) by (metis takes_lock.simps(9))
  then show ?thesis using s1(1,3,4) by (auto simp: status_defs)
qed

section \<open>Callbacks that call back\<close>

text \<open>The client whose callbacks make the call \<open>c tag\<close>.\<close>

definition calls_back :: "(c_int \<Rightarrow> api_call) \<Rightarrow> client" where
  "calls_back c = (\<lambda>f tag event status s. bindE (api_step silent (c tag) s) (\<lambda>(r, s). Inr s))"

lemma reentry_blocks:
  assumes h: "held s a (sint i) T t" and m: "t_mtx t \<noteq> None" and f: "t_cb t \<noteq> NULL" and c: "takes_lock i (c i)"
    and ready: "alloc_ready 6 s" and total: "names_total T < 2 ^ 64"
  shows "notify (calls_back c) a i e st s = Inl Blocked" and "call_cb (calls_back c) a i e st s = Inl Blocked"
proof -
  obtain n where n: "get_node s a = Inr n" "cb n = t_cb t" using held_node [OF h] by (auto simp: node_is_def)
  let ?s = "s\<lparr>events := events s @ [(cb n, i, e, st)]\<rparr>"
  have "held ?s a (sint i) T t" using h by (simp add: held_def)
  from api_held [OF this] have "api_store ?s T" .
  moreover have "ready_for (5 + 1) ?s" using held_ready [OF h, of 6] ready
    by (simp add: ready_for_def init_cost_def)
  ultimately have "api_step silent (c i) ?s = Inl Blocked"
    using api_step_refines [of ?s T 1 silent "c i"] silent_quiet total h m spec_blocked [of T i t "c i"] c
    by (simp add: held_def)
  then show "call_cb (calls_back c) a i e st s = Inl Blocked" "notify (calls_back c) a i e st s = Inl Blocked"
    using n f by (simp_all add: notify_def call_cb_def calls_back_def)
qed

lemma reentry_refines:
  assumes st: "api_store s T" and ready: "lookup_ready 6 s T" and t: "T (sint i) = Some t" "t_mtx t = None" "t_cb t \<noteq> NULL"
    and g: "\<And>a s1 T1 t1. held s1 a (sint i) T1 t1 \<Longrightarrow> t_mtx t1 \<noteq> None \<Longrightarrow> t_cb t1 \<noteq> NULL \<Longrightarrow> alloc_ready 6 s1 \<Longrightarrow>
      names_total T1 < 2 ^ 64 \<Longrightarrow> g a s1 = Inl Blocked"
  shows "bindE (tag_tree_lookup i s) (\<lambda>(t, s). if t = NULL then Inr (missing, s) else bindE (MTX_LOCK t s) (g t)) = Inl Blocked"
proof -
  have l: "looked_up T (dirt s) (sint i) = T" by (rule looked_up_found [of T i t, OF t(1)])
  have "refines 6 (bindE (tag_tree_lookup i s) (\<lambda>(t, s). if t = NULL then Inr (missing, s) else bindE (MTX_LOCK t s) (g t))) s
    (with_tag (looked_up T (dirt s) (sint i)) i missing (\<lambda>_. Inl Blocked))"
  proof (rule locked_refines [OF st ready], unfold l)
    fix a s1 and u :: tag
    let ?u = "u\<lparr>t_mtx := Some (self s)\<rparr>"
    assume h: "held s1 a (sint i) (T(sint i \<mapsto> ?u)) ?u" "T (sint i) = Some u" "alloc_ready 6 s1"
    have "names_total (T(sint i \<mapsto> ?u)) = names_total T" by (rule names_total_same [OF api_store_finite [OF st] h(2)]) simp
    then show "refines 6 (g a s1) s1 (Inl Blocked)"
      using g [OF h(1)] h(2,3) t ready by (simp add: lookup_ready_def)
  qed
  then show ?thesis using t unfolding l by (simp add: with_tag_def)
qed

lemma reentry_events:
  assumes "held s a (sint i) T t" and "t_mtx t \<noteq> None" and "t_cb t \<noteq> NULL" and "takes_lock i (c i)" and "alloc_ready 6 s"
    and "names_total T < 2 ^ 64"
  shows "bindE (get_node s a) (\<lambda>n. bindE (if cb n \<noteq> NULL then bindE (call_cb (calls_back c) a i e st s) k else Inr s) k') = Inl Blocked"
  using held_node [OF assms(1)] assms(3) reentry_blocks(2) [of s a i T t c, OF assms] by (auto simp: node_is_def)

lemma reentry_access:
  assumes "api_store s T" and "lookup_ready 6 s T" and "T (sint i) = Some t" and "t_mtx t = None" and "t_cb t \<noteq> NULL"
    and c: "takes_lock i (c i)"
  shows "plcstub_get_impl (calls_back c) i off fn s = Inl Blocked" and "plcstub_set_impl (calls_back c) i off fn' s = Inl Blocked"
  unfolding plcstub_get_impl_def plcstub_set_impl_def
  by (rule reentry_refines [OF assms(1-5)]; simp add: reentry_blocks(1) [of _ _ i _ _ c, OF _ _ _ c])+

text \<open>C26: the callback of a tag is called with the mutex of the tag held, so a callback that makes any
  call that takes this mutex waits for itself, whichever of the getters, setters, \<open>plc_tag_read\<close> or \<open>plc_tag_write\<close>
  called it, and whatever the offset: the outer call never returns.\<close>

theorem reentrant_callback_blocks:
  fixes v :: "'a::len word"
  assumes st: "api_store s T" and ready: "lookup_ready 6 s T" and t: "T (sint i) = Some t" "t_mtx t = None" "t_cb t \<noteq> NULL"
    and c: "takes_lock i (c i)" and time: "0 \<le> sint timeout"
  shows "GETTER conv (calls_back c) i off s = Inl Blocked \<and> SETTER (calls_back c) i off v s = Inl Blocked
    \<and> plc_tag_read (calls_back c) i timeout s = Inl Blocked \<and> plc_tag_write (calls_back c) i timeout s = Inl Blocked"
proof -
  have time': "\<not> timeout <s 0" using time by (simp add: word_sless_alt)
  have "plc_tag_read (calls_back c) i timeout s = Inl Blocked" "plc_tag_write (calls_back c) i timeout s = Inl Blocked"
    unfolding plc_tag_read_def plc_tag_write_def if_not_P [OF time']
    by (rule reentry_refines [OF st ready t]; simp add: reentry_events [of _ _ i _ _ c, OF _ _ _ c])+
  then show ?thesis by (simp add: GETTER_def SETTER_def reentry_access [of s T i t c, OF st ready t c])
qed

theorem reentrant_callback_blocks_witness:
  "\<exists>s. plc_tag_register_callback 5 64 (demo_lib 60) = Inr (0, s)
     \<and> plc_tag_get_int16 (calls_back (\<lambda>tag. Get16 tag 0)) 5 0 s = Inl Blocked"
proof -
  obtain s where s: "plc_tag_register_callback 5 64 (demo_lib 60) = Inr (PLCTAG_STATUS_OK, s)" "ready_for 20 s"
    "api_store s (default_store(5 \<mapsto> demo_tag\<lparr>t_cb := 64\<rparr>))" "lookup_ready 16 s (default_store(5 \<mapsto> demo_tag\<lparr>t_cb := 64\<rparr>))"
    using demo_registered by blast
  have r: "lookup_ready 6 s (default_store(5 \<mapsto> demo_tag\<lparr>t_cb := 64\<rparr>))"
    using s(2,4) alloc_ready_le [of "init_cost s + 20" s "init_cost s + (4 + 6)"] by (simp add: lookup_ready_def ready_for_def)
  show ?thesis
    using reentrant_callback_blocks [OF s(3) r, of 5 "demo_tag\<lparr>t_cb := 64\<rparr>" "\<lambda>tag. Get16 tag 0" 0 int_to_int 0] s(1) demo_tag
    by (auto simp: plc_tag_get_int16_def status_defs)
qed

section \<open>The size\<close>

text \<open>What \<open>plc_tag_get_size\<close> returns for a tag is the address of its node cut to 32 bits,
  whatever the type and the buffer of the tag.\<close>

lemma size_is_address:
  assumes "api_store s T" and "lookup_ready n s T" and t: "T (sint i) = Some t" "t_mtx t = None"
  shows "\<exists>a s'. plc_tag_get_size i s = Inr (ucast a, s') \<and> (\<exists>n. tags_heap s' a = Some n \<and> tag_id n = i) \<and> a \<noteq> NULL
    \<and> api_store s' T"
proof -
  obtain a s' where a: "plc_tag_get_size i s = Inr (ucast a, s')" "points s' a (sint i)" "api_store s' T"
    using size_spec [OF assms(1,2), of i] t looked_up_found [of T i t, OF t(1)] by auto
  then obtain n where "tags_heap s' a = Some n" "sint (tag_id n) = sint i" "a \<noteq> NULL" by (auto simp: points_def)
  moreover from this have "tag_id n = i" by (simp add: signed_word_eqI)
  ultimately show ?thesis using a by blast
qed

lemma size_is_address_witness:
  "\<exists>a s'. plc_tag_get_size 5 (demo_lib 60) = Inr (ucast a, s') \<and> (\<exists>n. tags_heap s' a = Some n \<and> tag_id n = 5)"
  using size_is_address [OF demo_lib_store demo_lookup_ready [of 0 60] demo_tag(1,2)] by fastforce

end
