(* ===== verification/Create_Props.thy ===== *)
theory Create_Props
  imports Api_Props
begin

text \<open>
  What \<open>plc_tag_create\<close> makes of its attribute string, the strings it refuses and the one it crashes on, and what
  becomes of an identifier that was destroyed.
\<close>

section \<open>Attribute strings\<close>

lemma create_outcome:
  assumes "api_store s T" and "ready_for (5 + n) s" and "names_total T < 2 ^ 64"
    and "attributes (tokens x) None = r"
  shows "refines n (plc_tag_create (CStr x) timeout s) s (bindE r (\<lambda>r. case r of
     Inl ret \<Rightarrow> Inr (ret, T, [])
   | Inr None \<Rightarrow> Inr (PLCTAG_ERR_BAD_PARAM, T, [])
   | Inr (Some x) \<Rightarrow> insert_spec (dirt s) x T))"
  using create_refines [OF assms(1-3), of x timeout] assms(4) by (simp add: create_spec_def)

text \<open>C19: a string of \<open>key=value\<close> pairs joined by \<open>&\<close>, the keys and values free of separators, creates a
  tag with the value of its last \<open>name\<close>, whatever the other keys, the element size and count among them: the new tag is
  a \<open>LINT\<close> of eight bytes \<open>0x42\<close> under the next identifier. Without a \<open>name\<close> it is refused and nothing changes. (The header requires \<open>protocol=XXX\<close> and nothing
  else; the code does not look at it, and requires a name.)\<close>

theorem create_from_pairs:
  assumes st: "api_store s T" and ready: "ready_for 5 s" and total: "names_total T < 2 ^ 64"
    and plain: "\<forall>kv \<in> set kvs. plain_pair kv" and free: "\<not> locked T 1" and room: "fresh_id T < 2 ^ 31"
    and meta: "last_name kvs \<noteq> Some ''@tags''"
  shows "\<exists>s'. events s' = events s \<and> (case last_name kvs of
     None \<Rightarrow> plc_tag_create (CStr (attrib_string kvs)) timeout s = Inr (PLCTAG_ERR_BAD_PARAM, s') \<and> api_store s' T
   | Some x \<Rightarrow> plc_tag_create (CStr (attrib_string kvs)) timeout s = Inr (word_of_int (fresh_id T), s')
       \<and> api_store s' (T(1 := None, fresh_id T \<mapsto>
           \<lparr>t_name = x, t_type = Simple TAG_LINT, t_cb = NULL, t_mtx = None, t_data = replicate 8 0x42\<rparr>)))"
proof -
  have "attributes (tokens (attrib_string kvs)) None = Inr (Inr (last_name kvs))"
    using attributes_pairs [OF plain] by (simp add: tokens_attrib_string [OF plain] option.case_eq_if)
  from create_outcome [OF st _ total this, of 0 timeout] ready meta free room show ?thesis
    by (cases "last_name kvs") (auto simp: insert_spec_def new_tag_def elim!: refinesE)
qed

theorem create_from_pairs_witness:
  "(\<exists>s'. plc_tag_create (CStr ''protocol=ab_eip&name=x&elem_size=4&name=y'') 1000 (demo_lib 60) = Inr (12, s')
     \<and> api_store s' (default_store(12 \<mapsto> \<lparr>t_name = ''y'', t_type = Simple TAG_LINT, t_cb = NULL, t_mtx = None,
         t_data = replicate 8 0x42\<rparr>)))
     \<and> (\<exists>s'. plc_tag_create (CStr ''protocol=ab_eip'') 1000 (demo_lib 60) = Inr (PLCTAG_ERR_BAD_PARAM, s'))
     \<and> (\<exists>s'. plc_tag_create (CStr ''name=y'') 1000 (demo_lib 60) = Inr (12, s'))"
proof (intro conjI)
  let ?kvs = "[(''protocol'', ''ab_eip''), (''name'', ''x''), (''elem_size'', ''4''), (''name'', ''y'')]"
  have l: "last_name ?kvs = Some ''y''" by (simp add: last_name_def)
  have p: "\<forall>kv \<in> set ?kvs. plain_pair kv" by (simp add: plain_pair_def)
  have r: "ready_for 5 (demo_lib 60)" using demo_lib_ready [of 60 35] by (simp add: ready_for_def)
  have n: "default_store(1 := None) = default_store" using default_none by auto
  have "attrib_string ?kvs = ''protocol=ab_eip&name=x&elem_size=4&name=y''" by simp
  then show "\<exists>s'. plc_tag_create (CStr ''protocol=ab_eip&name=x&elem_size=4&name=y'') 1000 (demo_lib 60) = Inr (12, s')
     \<and> api_store s' (default_store(12 \<mapsto> \<lparr>t_name = ''y'', t_type = Simple TAG_LINT, t_cb = NULL, t_mtx = None,
         t_data = replicate 8 0x42\<rparr>))"
    using create_from_pairs [OF demo_lib_store r _ p, of 1000] l default_none n
    by (simp add: default_names default_fresh locked_def) blast
  show "\<exists>s'. plc_tag_create (CStr ''protocol=ab_eip'') 1000 (demo_lib 60) = Inr (PLCTAG_ERR_BAD_PARAM, s')"
    using create_from_pairs [OF demo_lib_store r, of "[(''protocol'', ''ab_eip'')]" 1000] default_none
    by (auto simp: default_names default_fresh locked_def plain_pair_def last_name_def)
  show "\<exists>s'. plc_tag_create (CStr ''name=y'') 1000 (demo_lib 60) = Inr (12, s')"
    using create_from_pairs [OF demo_lib_store r, of "[(''name'', ''y'')]" 1000] default_none
    by (auto simp: default_names default_fresh locked_def plain_pair_def last_name_def)
qed

lemma pieces_at_separator: "pieces sep (a @ sep # b) = pieces sep a @ pieces sep b"
  by (induction a) (auto split: list.splits)

lemma tokens_at_separator: "tokens (a @ CHR ''&'' # b) = tokens a @ tokens b"
  by (simp add: tokens_def pieces_at_separator)

lemma attributes_stop:
  assumes "\<forall>kv \<in> set kvs. plain_pair kv" and "CHR ''='' \<notin> set w"
  shows "attributes (map (\<lambda>(k, v). k @ ''='' @ v) kvs @ w # ws) nm =
    (if w = ''protocol'' then Inl (Undef NullDeref) else Inr (Inl PLCTAG_ERR_BAD_PARAM))"
  using assms(1)
proof (induction kvs arbitrary: nm)
  case Nil
  then show ?case using assms(2) by (simp add: strchr_def)
next
  case (Cons kv kvs)
  obtain k v where kv: "kv = (k, v)" by (cases kv)
  have "strchr (k @ ''='' @ v) CHR ''='' = Some (k, v)"
    using Cons.prems kv by (intro strchr_pair) (simp add: plain_pair_def)
  then show ?case using Cons kv by (cases "w = ''protocol''") simp_all
qed

text \<open>C20: a token without \<open>=\<close> ends the parsing, whatever pairs were there before it and whatever follows: the
  call returns \<open>PLCTAG_ERR_BAD_PARAM\<close> and changes no tag; but when the token is \<open>protocol\<close>, which the code means to
  let pass, it writes through a null pointer.\<close>

theorem create_rejects:
  assumes st: "api_store s T" and ready: "ready_for 5 s" and total: "names_total T < 2 ^ 64"
    and plain: "\<forall>kv \<in> set kvs. plain_pair kv" and w: "w \<noteq> []" "CHR ''='' \<notin> set w" "CHR ''&'' \<notin> set w"
  shows "if w = ''protocol'' then
      plc_tag_create (CStr (attrib_string kvs @ ''&'' @ w @ ''&'' @ rest)) timeout s = Inl (Undef NullDeref)
    else \<exists>s'. plc_tag_create (CStr (attrib_string kvs @ ''&'' @ w @ ''&'' @ rest)) timeout s = Inr (PLCTAG_ERR_BAD_PARAM, s')
      \<and> api_store s' T \<and> events s' = events s"
proof -
  have "tokens w = [w]" using w(1,3) by (simp add: tokens_def pieces_plain)
  then have "tokens (attrib_string kvs @ ''&'' @ w @ ''&'' @ rest) = map (\<lambda>(k, v). k @ ''='' @ v) kvs @ w # tokens rest"
    using tokens_at_separator [of "attrib_string kvs" "w @ ''&'' @ rest"] tokens_at_separator [of w rest]
    by (simp add: tokens_attrib_string [OF plain])
  then have "attributes (tokens (attrib_string kvs @ ''&'' @ w @ ''&'' @ rest)) None =
      (if w = ''protocol'' then Inl (Undef NullDeref) else Inr (Inl PLCTAG_ERR_BAD_PARAM))"
    using attributes_stop [OF plain w(2)] by metis
  from create_outcome [OF st _ total this, of 0 timeout] ready show ?thesis by (auto elim!: refinesE split: if_splits)
qed

theorem create_rejects_witness:
  "plc_tag_create (CStr ''name=x&protocol&path=1'') 0 (demo_lib 60) = Inl (Undef NullDeref)"
proof -
  have r: "ready_for 5 (demo_lib 60)" using demo_lib_ready [of 60 35] by (simp add: ready_for_def)
  have p: "\<forall>kv \<in> set [(''name'', ''x'')]. plain_pair kv" by (simp add: plain_pair_def)
  show ?thesis using create_rejects [OF demo_lib_store r _ p, of "''protocol''" "''path=1''" 0] by (simp add: default_names)
qed

section \<open>Identifiers\<close>

lemma create_named:
  assumes st: "api_store s T" and ready: "ready_for (5 + n) s" and total: "names_total T < 2 ^ 64"
    and x: "CHR ''&'' \<notin> set x" "x \<noteq> ''@tags''" and free: "\<not> locked T 1" and room: "fresh_id T < 2 ^ 31"
  shows "refines n (plc_tag_create (CStr (''name='' @ x)) timeout s) s
    (Inr (word_of_int (fresh_id T), T(1 := None, fresh_id T \<mapsto> new_tag x (Simple TAG_LINT) None), []))"
proof -
  have p: "\<forall>kv \<in> set [(''name'', x)]. plain_pair kv" using x(1) by (simp add: plain_pair_def)
  have "attributes (tokens (''name='' @ x)) None = Inr (Inr (Some x))"
    using attributes_pairs [OF p, of None] tokens_attrib_string [OF p] by (simp add: last_name_def)
  from create_outcome [OF st ready total this, of timeout] show ?thesis using x(2) free room by (simp add: insert_spec_def)
qed

lemma fresh_unused: "finite (dom T) \<Longrightarrow> 2 \<le> fresh_id T \<and> T (fresh_id T) = None"
proof -
  assume fin: "finite (dom T)"
  then have "1 \<le> Max (insert 1 (dom T))" by (intro Max_ge) auto
  moreover have "fresh_id T \<notin> dom T"
  proof
    assume "fresh_id T \<in> dom T"
    then have "fresh_id T \<le> Max (insert 1 (dom T))" using fin by (intro Max_ge) auto
    then show False by (simp add: fresh_id_def)
  qed
  ultimately show ?thesis by (auto simp: fresh_id_def)
qed

text \<open>C33: the identifier of the newest tag is given out again once the tag is destroyed: a tag is created, destroyed
  and another one created, and the handle of the first now names the second.\<close>

theorem handle_reused:
  assumes st: "api_store s T" and ready: "ready_for 15 s" and total: "names_total T < 2 ^ 64"
    and x: "CHR ''&'' \<notin> set x" "x \<noteq> ''@tags''" and y: "CHR ''&'' \<notin> set y" "y \<noteq> ''@tags''"
    and free: "\<not> locked T 1" and room: "fresh_id T < 2 ^ 31"
  shows "\<exists>s1 s2 s3. let i = word_of_int (fresh_id T) in T (sint i) = None
    \<and> plc_tag_create (CStr (''name='' @ x)) timeout s = Inr (i, s1) \<and> plc_tag_destroy i s1 = Inr (PLCTAG_STATUS_OK, s2)
    \<and> plc_tag_create (CStr (''name='' @ y)) timeout s2 = Inr (i, s3)
    \<and> api_store s3 (T(1 := None, sint i \<mapsto> new_tag y (Simple TAG_LINT) None))"
proof -
  let ?f = "fresh_id T" and ?new = "\<lambda>x. new_tag x (Simple TAG_LINT) None"
  let ?U = "T(1 := None, ?f \<mapsto> ?new x)" and ?V = "T(1 := None)"
  have fin: "finite (dom T)" by (rule api_store_finite [OF st])
  note f = conjunct1 [OF fresh_unused [OF fin]] conjunct2 [OF fresh_unused [OF fin]]
  let ?i = "word_of_int ?f :: c_int"
  have i: "sint ?i = ?f" using f(1) room by (intro sint_of_id) auto
  then have "?i \<noteq> METATAG_ID" using f(1) by (auto simp: METATAG_ID_def)
  obtain s1 where s1: "plc_tag_create (CStr (''name='' @ x)) timeout s = Inr (?i, s1)" "api_store s1 ?U" "ready_for 10 s1"
    using create_named [OF st _ _ x free room, of 10 timeout] ready total by (auto elim: refinesE)
  have "?U(?f := None) = ?V" using f(2) by auto
  then have "refines 10 (plc_tag_destroy ?i s1) s1 (Inr (PLCTAG_STATUS_OK, ?V, []))"
    using destroy_refines [OF s1(2,3), of ?i] \<open>?i \<noteq> METATAG_ID\<close> by (simp add: destroy_api_def with_tag_def i new_tag_def)
  then obtain s2 where s2: "plc_tag_destroy ?i s1 = Inr (PLCTAG_STATUS_OK, s2)" "api_store s2 ?V" "ready_for 10 s2"
    by (auto elim: refinesE)
  have "insert 1 (dom ?V) = insert 1 (dom T)" by auto
  then have fV: "fresh_id ?V = ?f" unfolding fresh_id_def by simp
  have "names_total ?V < 2 ^ 64" using names_total_remove [OF fin, of 1] total by linarith
  then obtain s3 where "plc_tag_create (CStr (''name='' @ y)) timeout s2 = Inr (?i, s3)"
    "api_store s3 (T(1 := None, ?f \<mapsto> ?new y))"
    using create_named [OF s2(2) _ _ y, of 5 timeout] s2(3) room fV by (auto simp: locked_def elim: refinesE)
  then show ?thesis using s1(1) s2(1) i f(2) by (auto simp: Let_def)
qed

theorem handle_reused_witness:
  "\<exists>s1 s2 s3. plc_tag_create (CStr ''name=a'') 0 (demo_lib 60) = Inr (12, s1) \<and> plc_tag_destroy 12 s1 = Inr (0, s2)
     \<and> plc_tag_create (CStr ''name=b'') 0 s2 = Inr (12, s3)"
proof -
  have r: "ready_for 15 (demo_lib 60)" using demo_lib_ready [of 60 45] by (simp add: ready_for_def)
  have free: "\<not> locked default_store 1" by (simp add: locked_def default_none)
  show ?thesis using handle_reused [OF demo_lib_store r, of "''a''" "''b''" 0] free
    by (auto simp: default_names default_fresh status_defs)
qed

end
