(* ===== verification/Locked.thy ===== *)
theory Locked
  imports Session
begin

text \<open>
  The functions of the interface that look a tag up, work on it with its mutex held and give the mutex back: what they do in
  between, their \<open>work\<close>, and what it can change. A result is an \<open>int\<close>, the bits of the word the function returns.
\<close>

type_synonym work = "addr \<Rightarrow> lib \<Rightarrow> stop + int \<times> lib"

definition bits :: "stop + 'a::len word \<times> lib \<Rightarrow> stop + int \<times> lib" where
  "bits c = bindE c (\<lambda>(r, s). Inr (uint r, s))"

text \<open>A function with the work \<open>w\<close>, which returns \<open>missing\<close> when there is no tag.\<close>

definition locked_call :: "c_int \<Rightarrow> int \<Rightarrow> work \<Rightarrow> lib \<Rightarrow> stop + int \<times> lib" where
  "locked_call i missing w s =
     bindE (tag_tree_lookup i s) (\<lambda>(t, s).
     if t = NULL then Inr (missing, s) else
     bindE (MTX_LOCK t s) (\<lambda>s.
     bindE (w t s) (\<lambda>(r, s).
     bindE (MTX_UNLOCK t s) (\<lambda>s. Inr (r, s)))))"

section \<open>The work of each function\<close>

definition size_work :: work where
  "size_work t s = Inr (uint (ucast t :: c_int), s)"

definition register_work :: "addr \<Rightarrow> work" where
  "register_work f t s = bindE (upd_node t (\<lambda>n. n\<lparr>cb := f\<rparr>) s) (\<lambda>s. Inr (uint PLCTAG_STATUS_OK, s))"

definition event_work :: "client \<Rightarrow> c_int \<Rightarrow> c_int \<Rightarrow> c_int \<Rightarrow> work" where
  "event_work cl i started completed t s =
     bindE (get_node s t) (\<lambda>n.
     bindE (if cb n \<noteq> NULL then
              bindE (call_cb cl t i started PLCTAG_STATUS_OK s) (call_cb cl t i completed PLCTAG_STATUS_OK)
            else Inr s) (\<lambda>s. Inr (uint PLCTAG_STATUS_OK, s)))"

text \<open>\<open>check_offset\<close> up to the unlocking of its early returns.\<close>

definition element_offset :: "client \<Rightarrow> addr \<Rightarrow> c_int \<Rightarrow> c_int \<Rightarrow> lib \<Rightarrow> stop + c_int option \<times> lib" where
  "element_offset cl t tag offset s =
     bindE (get_node s t) (\<lambda>n.
     bindE (type_to_enum (types s) (tag_type n)) (\<lambda>e.
     if e \<noteq> TAG_ARRAY then
       (if 0 <s offset then
          bindE (notify cl t tag PLCTAG_EVENT_ABORTED PLCTAG_ERR_BAD_PARAM s) (\<lambda>s. Inr (None, s))
        else Inr (Some offset, s))
     else
       bindE (as_array (types s) (tag_type n)) (\<lambda>(mt, len).
       if ucast len \<le>s offset then Inr (None, s)
       else bindE (type_size_bytes (types s) mt) (\<lambda>sz.
         Inr (Some (ucast (scast offset * sz)), s)))))"

definition get_work :: "(c_int \<Rightarrow> 'a::len word) \<Rightarrow> client \<Rightarrow> c_int \<Rightarrow> c_int \<Rightarrow> work" where
  "get_work conv cl tag offset t s =
     bindE (notify cl t tag PLCTAG_EVENT_READ_STARTED PLCTAG_STATUS_OK s) (\<lambda>s.
     bindE (element_offset cl t tag offset s) (\<lambda>(off, s).
     case off of None \<Rightarrow> Inr (uint (conv PLCTAG_ERR_BAD_PARAM), s) | Some offset \<Rightarrow>
     bindE (get_node s t) (\<lambda>n.
     bindE (getter_cb (data n) offset) (\<lambda>val.
     bindE (notify cl t tag PLCTAG_EVENT_READ_COMPLETED PLCTAG_STATUS_OK s) (\<lambda>s.
     Inr (uint (val :: 'a word), s))))))"

definition set_work :: "client \<Rightarrow> c_int \<Rightarrow> c_int \<Rightarrow> 'a::len word \<Rightarrow> work" where
  "set_work cl tag offset val t s =
     bindE (notify cl t tag PLCTAG_EVENT_WRITE_STARTED PLCTAG_STATUS_OK s) (\<lambda>s.
     bindE (element_offset cl t tag offset s) (\<lambda>(off, s).
     case off of None \<Rightarrow> Inr (uint PLCTAG_ERR_BAD_PARAM, s) | Some offset \<Rightarrow>
     bindE (get_node s t) (\<lambda>n.
     bindE (setter_cb (data n) offset val) (\<lambda>buf.
     bindE (upd_node t (\<lambda>n. n\<lparr>data := buf\<rparr>) s) (\<lambda>s.
     bindE (notify cl t tag PLCTAG_EVENT_WRITE_COMPLETED PLCTAG_STATUS_OK s) (\<lambda>s.
     Inr (uint PLCTAG_STATUS_OK, s)))))))"

section \<open>The functions by their work\<close>

lemma bits_bindE: "bits (bindE m f) = bindE m (\<lambda>x. bits (f x))"
  by (simp add: bits_def bindE_assoc)

lemma bits_Inr [simp]: "bits (Inr (r, s)) = Inr (uint r, s)"
  by (simp add: bits_def)

lemma check_by_offset:
  "check_offset cl t tag offset s = bindE (element_offset cl t tag offset s) (\<lambda>(off, s).
     case off of None \<Rightarrow> bindE (MTX_UNLOCK t s) (\<lambda>s. Inr (None, s)) | Some x \<Rightarrow> Inr (Some x, s))"
  unfolding check_offset_def element_offset_def bindE_assoc
  by (intro bindE_cong refl) (auto simp: bindE_assoc intro!: bindE_cong)

lemma size_locked: "bits (plc_tag_get_size i s) = locked_call i (uint PLCTAG_ERR_NOT_FOUND) size_work s"
  unfolding plc_tag_get_size_def locked_call_def size_work_def
  by (auto simp: bits_bindE Let_def intro!: bindE_cong)

lemma register_locked: "bits (plc_tag_register_callback i f s) = locked_call i (uint PLCTAG_ERR_NOT_FOUND) (register_work f) s"
  unfolding plc_tag_register_callback_def locked_call_def register_work_def
  by (auto simp: bits_bindE bindE_assoc intro!: bindE_cong)

lemma read_locked: "0 \<le>s timeout \<Longrightarrow> bits (plc_tag_read cl i timeout s) = locked_call i (uint PLCTAG_ERR_NOT_FOUND)
    (event_work cl i PLCTAG_EVENT_READ_STARTED PLCTAG_EVENT_READ_COMPLETED) s"
  unfolding plc_tag_read_def locked_call_def event_work_def
  by (auto simp: bits_bindE bindE_assoc word_sless_alt word_sle_eq intro!: bindE_cong)

lemma write_locked: "0 \<le>s timeout \<Longrightarrow> bits (plc_tag_write cl i timeout s) = locked_call i (uint PLCTAG_ERR_NOT_FOUND)
    (event_work cl i PLCTAG_EVENT_WRITE_STARTED PLCTAG_EVENT_WRITE_COMPLETED) s"
  unfolding plc_tag_write_def locked_call_def event_work_def
  by (auto simp: bits_bindE bindE_assoc word_sless_alt word_sle_eq intro!: bindE_cong)

lemma getter_locked: "bits (GETTER conv cl tag offset s) = locked_call tag (uint (conv PLCTAG_ERR_NOT_FOUND)) (get_work conv cl tag offset) s"
  unfolding GETTER_def plcstub_get_impl_def locked_call_def get_work_def check_by_offset
  by (auto simp: bits_bindE bindE_assoc status_defs intro!: bindE_cong split: option.splits)

lemma setter_locked: "bits (SETTER cl tag offset val s) = locked_call tag (uint PLCTAG_ERR_NOT_FOUND) (set_work cl tag offset val) s"
  unfolding SETTER_def plcstub_set_impl_def locked_call_def set_work_def check_by_offset
  by (auto simp: bits_bindE bindE_assoc intro!: bindE_cong split: option.splits)

section \<open>What the work does\<close>

text \<open>Sending an event changes the log only.\<close>

lemma notify_log:
  assumes "quiet cl" and "a \<noteq> NULL" and "tags_heap s a = Some n"
  shows "\<exists>es. notify cl a i e st s = Inr (s\<lparr>events := es\<rparr>)"
proof (cases "cb n = NULL")
  case True
  then show ?thesis using assms by (intro exI [of _ "events s"]) (simp add: notify_def get_node_def)
next
  case False
  then show ?thesis using assms
    by (intro exI [of _ "events s @ [(cb n, i, e, st)]"]) (simp add: notify_def call_cb_def get_node_def quiet_def)
qed

lemma offset_log:
  assumes q: "quiet cl" and n: "a \<noteq> NULL" "tags_heap s a = Some n" "node_is (types s) n u"
  shows "\<exists>es. element_offset cl a tag off s = Inr (element_at (t_type u) off, s\<lparr>events := es\<rparr>)"
proof -
  have g: "get_node s a = Inr n" using n by (simp add: get_node_def)
  have d: "denotes (objs (types s)) (tag_type n) (t_type u)" "ty_depth (t_type u) \<le> stack (types s)"
    using n(3) by (simp_all add: node_is_def)
  have e: "type_to_enum (types s) (tag_type n) = Inr (shape (t_type u))" using d(1) by simp
  obtain es where es: "notify cl a tag PLCTAG_EVENT_ABORTED PLCTAG_ERR_BAD_PARAM s = Inr (s\<lparr>events := es\<rparr>)"
    using notify_log [OF q n(1,2)] by blast
  have s: "s = s\<lparr>events := events s\<rparr>" by simp
  show ?thesis
  proof (cases "t_type u")
    case (Arr len mt)
    then obtain m where m: "as_array (types s) (tag_type n) = Inr (m, len)" "denotes (objs (types s)) m mt"
      using as_array_denotes d(1) by metis
    have "type_size_bytes (types s) m = Inr (of_nat (ty_size mt))"
      using type_size_at_refine [OF m(2)] d(2) Arr by (simp add: type_size_bytes_def)
    then show ?thesis using g e m(1) Arr s
      by (auto simp: element_offset_def element_at_def len_sle scaled_offset intro: exI [of _ "events s"])
  next
    case (Simple k)
    have "shape (t_type u) \<noteq> TAG_ARRAY" using d(1) Simple by (cases k) auto
    then show ?thesis using g e Simple es s
      by (auto simp: element_offset_def element_at_def word_sless_alt intro: exI [of _ "events s"])
  next
    case (Str fs)
    then show ?thesis using g e es s
      by (auto simp: element_offset_def element_at_def word_sless_alt intro: exI [of _ "events s"])
  qed
qed

text \<open>A getter and a setter on the node \<open>n\<close> of a tag \<open>u\<close>: the error of an offset that is refused, and otherwise the access, which is
  undefined outside of the buffer.\<close>

lemma get_work_result:
  fixes conv :: "c_int \<Rightarrow> 'a::len word"
  assumes q: "quiet cl" and n: "a \<noteq> NULL" "tags_heap s a = Some n" "node_is (types s) n u"
  obtains es where "get_work conv cl i off a s = (case element_at (t_type u) off of
      None \<Rightarrow> Inr (uint (conv PLCTAG_ERR_BAD_PARAM), s\<lparr>events := es\<rparr>)
    | Some p \<Rightarrow> bindE (getter_cb (data n) p :: stop + 'a word) (\<lambda>v. Inr (uint v, s\<lparr>events := es\<rparr>)))"
proof -
  obtain e1 where e1: "notify cl a i PLCTAG_EVENT_READ_STARTED PLCTAG_STATUS_OK s = Inr (s\<lparr>events := e1\<rparr>)"
    using notify_log [OF q n(1,2)] by blast
  obtain e2 where e2: "element_offset cl a i off (s\<lparr>events := e1\<rparr>) = Inr (element_at (t_type u) off, s\<lparr>events := e2\<rparr>)"
    using offset_log [OF q n(1), of "s\<lparr>events := e1\<rparr>" n u i off] n(2,3) by auto
  obtain e3 where e3: "notify cl a i PLCTAG_EVENT_READ_COMPLETED PLCTAG_STATUS_OK (s\<lparr>events := e2\<rparr>) = Inr (s\<lparr>events := e3\<rparr>)"
    using notify_log [OF q n(1), of "s\<lparr>events := e2\<rparr>" n i PLCTAG_EVENT_READ_COMPLETED PLCTAG_STATUS_OK] n(2) by auto
  show thesis
    by (rule that [of "if element_at (t_type u) off = None then e2 else e3"])
      (use e1 e2 e3 n(1,2) in \<open>auto simp: get_work_def get_node_def intro!: bindE_cong split: option.splits\<close>)
qed

lemma set_work_result:
  fixes v :: "'a::len word"
  assumes q: "quiet cl" and n: "a \<noteq> NULL" "tags_heap s a = Some n" "node_is (types s) n u"
  obtains es where "set_work cl i off v a s = (case element_at (t_type u) off of
      None \<Rightarrow> Inr (uint PLCTAG_ERR_BAD_PARAM, s\<lparr>events := es\<rparr>)
    | Some p \<Rightarrow> bindE (setter_cb (data n) p v) (\<lambda>buf.
        Inr (uint PLCTAG_STATUS_OK, s\<lparr>tags_heap := (tags_heap s)(a \<mapsto> n\<lparr>data := buf\<rparr>), events := es\<rparr>)))"
proof -
  obtain e1 where e1: "notify cl a i PLCTAG_EVENT_WRITE_STARTED PLCTAG_STATUS_OK s = Inr (s\<lparr>events := e1\<rparr>)"
    using notify_log [OF q n(1,2)] by blast
  obtain e2 where e2: "element_offset cl a i off (s\<lparr>events := e1\<rparr>) = Inr (element_at (t_type u) off, s\<lparr>events := e2\<rparr>)"
    using offset_log [OF q n(1), of "s\<lparr>events := e1\<rparr>" n u i off] n(2,3) by auto
  show thesis
  proof (cases "\<exists>p buf. element_at (t_type u) off = Some p \<and> setter_cb (data n) p v = Inr buf")
    case False
    show thesis by (rule that [of e2])
      (use False e1 e2 n(1,2) in \<open>auto simp: set_work_def get_node_def bindE_def split: option.splits sum.splits\<close>)
  next
    case True
    then obtain p buf where p: "element_at (t_type u) off = Some p" "setter_cb (data n) p v = Inr buf" by blast
    let ?s = "s\<lparr>events := e2, tags_heap := (tags_heap s)(a \<mapsto> n\<lparr>data := buf\<rparr>)\<rparr>"
    obtain e3 where "notify cl a i PLCTAG_EVENT_WRITE_COMPLETED PLCTAG_STATUS_OK ?s = Inr (?s\<lparr>events := e3\<rparr>)"
      using notify_log [OF q n(1), of ?s "n\<lparr>data := buf\<rparr>" i PLCTAG_EVENT_WRITE_COMPLETED PLCTAG_STATUS_OK] by auto
    then show thesis using that [of e3] p e1 e2 n(1,2) by (simp add: set_work_def upd_node_def get_node_def)
  qed
qed

text \<open>Outside of the buffer, and nowhere else.\<close>

lemma access_undefined:
  "(getter_cb buf off :: stop + 'a::len word) = Inl e \<Longrightarrow> e = Undef OutOfBounds"
  "setter_cb buf off (v :: 'a word) = Inl e \<Longrightarrow> e = Undef OutOfBounds"
  by (auto simp: getter_cb_def setter_cb_def write_bytes_def Let_def split: if_splits)

section \<open>What the work can change\<close>

text \<open>The callback and the bytes of the buffer of the node \<open>a\<close>, which keeps its size, and the log of events.\<close>

definition node_only :: "addr \<Rightarrow> lib \<Rightarrow> lib \<Rightarrow> bool" where
  "node_only a s s' \<longleftrightarrow> (\<exists>n c d es. tags_heap s a = Some n \<and> length d = length (data n)
     \<and> s' = s\<lparr>tags_heap := (tags_heap s)(a \<mapsto> n\<lparr>cb := c, data := d\<rparr>), events := es\<rparr>)"

text \<open>Good work, on the node of any tag, does no more than that, or accesses memory outside of the buffer; it does not wait, it does
  not end the process, and nothing else that it does is undefined.\<close>

definition good_work :: "work \<Rightarrow> bool" where
  "good_work w \<longleftrightarrow> (\<forall>a s n u. a \<noteq> NULL \<longrightarrow> tags_heap s a = Some n \<longrightarrow> node_is (types s) n u \<longrightarrow>
     (case w a s of Inl e \<Rightarrow> e = Undef OutOfBounds | Inr (r, s') \<Rightarrow> node_only a s s'))"

lemma good_workD:
  assumes "good_work w" and "a \<noteq> NULL" and "tags_heap s a = Some n" and "node_is (types s) n u"
  shows "w a s = Inl e \<Longrightarrow> e = Undef OutOfBounds" and "w a s = Inr (r, s') \<Longrightarrow> node_only a s s'"
  using assms unfolding good_work_def by fastforce+

lemma node_only_upd: "tags_heap s a = Some n \<Longrightarrow> length d = length (data n) \<Longrightarrow>
    node_only a s (s\<lparr>tags_heap := (tags_heap s)(a \<mapsto> n\<lparr>cb := c, data := d\<rparr>), events := es\<rparr>)" for s :: lib
  unfolding node_only_def by blast

lemma node_only_events:
  fixes s :: lib
  assumes "tags_heap s a = Some n"
  shows "node_only a s (s\<lparr>events := es\<rparr>)"
proof -
  have "s\<lparr>tags_heap := (tags_heap s)(a \<mapsto> n\<lparr>cb := cb n, data := data n\<rparr>), events := es\<rparr> = s\<lparr>events := es\<rparr>"
    using assms by (cases s) (simp add: fun_upd_idem)
  then show ?thesis using node_only_upd [OF assms refl, where c = "cb n" and es = es] by simp
qed

lemma node_only_refl: "tags_heap s a = Some n \<Longrightarrow> node_only a s s" for s :: lib
  using node_only_events [of s a n "events s"] by simp

text \<open>The work of every function is good, with a callback that leaves the library alone.\<close>

lemma good_size: "good_work size_work"
  by (auto simp: good_work_def size_work_def node_only_refl)

lemma good_register: "good_work (register_work f)"
  unfolding good_work_def
proof (intro allI impI)
  fix a and s :: lib and n u assume n: "a \<noteq> NULL" "tags_heap s a = Some n" "node_is (types s) n u"
  have "register_work f a s = Inr (uint PLCTAG_STATUS_OK, s\<lparr>tags_heap := (tags_heap s)(a \<mapsto> n\<lparr>cb := f, data := data n\<rparr>), events := events s\<rparr>)"
    using n by (simp add: register_work_def upd_node_def get_node_def)
  then show "case register_work f a s of Inl e \<Rightarrow> e = Undef OutOfBounds | Inr (r, s') \<Rightarrow> node_only a s s'"
    using node_only_upd [OF n(2) refl, where c = f and es = "events s"] by simp
qed

lemma good_event: "quiet cl \<Longrightarrow> good_work (event_work cl i st co)"
  by (auto simp: good_work_def event_work_def call_cb_def get_node_def quiet_def node_only_refl node_only_events)

lemma good_get:
  fixes conv :: "c_int \<Rightarrow> 'a::len word"
  assumes q: "quiet cl"
  shows "good_work (get_work conv cl i off)"
  unfolding good_work_def
proof (intro allI impI)
  fix a and s :: lib and n u assume n: "a \<noteq> NULL" "tags_heap s a = Some n" "node_is (types s) n u"
  obtain es where r: "get_work conv cl i off a s = (case element_at (t_type u) off of
      None \<Rightarrow> Inr (uint (conv PLCTAG_ERR_BAD_PARAM), s\<lparr>events := es\<rparr>)
    | Some p \<Rightarrow> bindE (getter_cb (data n) p :: stop + 'a word) (\<lambda>v. Inr (uint v, s\<lparr>events := es\<rparr>)))"
    by (rule get_work_result [OF q n])
  show "case get_work conv cl i off a s of Inl e \<Rightarrow> e = Undef OutOfBounds | Inr (r, s') \<Rightarrow> node_only a s s'"
    unfolding r using node_only_events [OF n(2), of es]
    by (auto simp: bindE_def split: option.split sum.split dest: access_undefined)
qed

lemma good_set:
  fixes v :: "'a::len word"
  assumes q: "quiet cl"
  shows "good_work (set_work cl i off v)"
  unfolding good_work_def
proof (intro allI impI)
  fix a and s :: lib and n u assume n: "a \<noteq> NULL" "tags_heap s a = Some n" "node_is (types s) n u"
  obtain es where r: "set_work cl i off v a s = (case element_at (t_type u) off of
      None \<Rightarrow> Inr (uint PLCTAG_ERR_BAD_PARAM, s\<lparr>events := es\<rparr>)
    | Some p \<Rightarrow> bindE (setter_cb (data n) p v) (\<lambda>buf.
        Inr (uint PLCTAG_STATUS_OK, s\<lparr>tags_heap := (tags_heap s)(a \<mapsto> n\<lparr>data := buf\<rparr>), events := es\<rparr>)))"
    by (rule set_work_result [OF q n])
  have stored: "node_only a s (s\<lparr>tags_heap := (tags_heap s)(a \<mapsto> n\<lparr>data := buf\<rparr>), events := es\<rparr>)"
    if "setter_cb (data n) p v = Inr buf" for p buf
    using node_only_upd [OF n(2) setter_cb_length [OF that], where c = "cb n" and es = es] by simp
  show "case set_work cl i off v a s of Inl e \<Rightarrow> e = Undef OutOfBounds | Inr (r, s') \<Rightarrow> node_only a s s'"
    unfolding r using node_only_events [OF n(2), of es] stored
    by (auto simp: bindE_def split: option.split sum.split dest: access_undefined)
qed

end
