(* ===== verification/Threads.thy ===== *)
theory Threads
  imports Locked
begin

text \<open>
  Threads that call the library at the same time. A call is cut into steps at the places where it takes
  or gives back a lock, reads or changes what other threads can see; a step is atomic, and the steps of
  different threads interleave. Modelled are the calls that work on a tag by its identifier, with all they do under its
  mutex (the \<open>work\<close> of theory \<open>Locked\<close>) as one step, the race of the first calls for the initialisation,
  \<open>tag_tree_remove\<close>, and \<open>tag_tree_insert\<close> and the building of the metatag, whose work under the write lock of the tree is one step.
\<close>

section \<open>The steps of a call\<close>

datatype call = Hold c_int | Release c_int | Probe c_int | Work c_int int work | Drop c_int | Make string

fun call_id :: "call \<Rightarrow> c_int" where
  "call_id (Hold i) = i"
| "call_id (Release i) = i"
| "call_id (Probe i) = i"
| "call_id (Work i m w) = i"
| "call_id (Drop i) = i"
| "call_id (Make x) = METATAG_ID"

text \<open>The functions of the interface they stand for; \<open>Locked\<close> says which ones are a \<open>locked_call\<close>.\<close>

fun call_fun :: "call \<Rightarrow> lib \<Rightarrow> stop + int \<times> lib" where
  "call_fun (Hold i) s = bits (plc_tag_lock i s)"
| "call_fun (Release i) s = bits (plc_tag_unlock i s)"
| "call_fun (Probe i) s = bits (plc_tag_status i s)"
| "call_fun (Work i missing w) s = locked_call i missing w s"
| "call_fun (Drop i) s = bits (plc_tag_destroy i s)"
| "call_fun (Make x) s = bits (tag_tree_insert (CStr x) (type_new_simple TAG_LINT) s)"

fun good_call :: "call \<Rightarrow> bool" where
  "good_call (Work i missing w) \<longleftrightarrow> good_work w"
| "good_call c \<longleftrightarrow> True"

text \<open>Destroying the metatag does nothing at all, not even the initialisation.\<close>

fun no_op :: "call \<Rightarrow> bool" where
  "no_op (Drop i) \<longleftrightarrow> i = METATAG_ID"
| "no_op c \<longleftrightarrow> False"

text \<open>What a call returns when there is no tag.\<close>

fun missing_result :: "call \<Rightarrow> int" where
  "missing_result (Work i missing w) = missing"
| "missing_result c = uint PLCTAG_ERR_NOT_FOUND"

fun drops :: "call \<Rightarrow> bool" where
  "drops (Drop i) = True"
| "drops _ = False"

text \<open>The calls that may create a node: \<open>plc_tag_create\<close>, and every call for the metatag. They take the lock of the tree for
  writing, like those that destroy one.\<close>

definition creates :: "call \<Rightarrow> bool" where
  "creates c \<longleftrightarrow> call_id c = METATAG_ID \<and> \<not> drops c"

lemma creates_simps [simp]:
  "creates (Hold i) \<longleftrightarrow> i = METATAG_ID" "creates (Release i) \<longleftrightarrow> i = METATAG_ID" "creates (Probe i) \<longleftrightarrow> i = METATAG_ID"
  "creates (Work i m w) \<longleftrightarrow> i = METATAG_ID" "\<not> creates (Drop i)" "creates (Make x)"
  by (simp_all add: creates_def)

definition exclusive :: "call \<Rightarrow> bool" where
  "exclusive c \<longleftrightarrow> creates c \<or> drops c"

text \<open>
  Where a thread is: between calls, with the result of the last one; in \<open>tag_tree_init\<close> (\<open>Begun\<close> to \<open>Inited\<close>); in
  the lookup (\<open>Ready\<close> to \<open>Found\<close>), which \<open>tag_tree_remove\<close> starts with as well, and which builds the metatag (\<open>Building\<close>); in
  \<open>tag_tree_insert\<close> (\<open>Making\<close> to \<open>Numbered\<close>); with a pointer to a node and no
  lock of the tree (\<open>Has\<close>); with the mutex of the node (\<open>Inside\<close>, \<open>Leaving\<close>); in \<open>tag_tree_remove\<close> (\<open>Taken\<close> to
  \<open>Released\<close>); and in \<open>tag_tree_node_destroy\<close> (\<open>Doomed\<close>, \<open>Owned\<close>).
\<close>

datatype pc =
  Done int | Begun call | Checking call | Unready call | Initing call | Inited call
| Ready call | Searching call | Building call | Found call addr | Has call addr
| Making string | Made addr | Numbered addr
| Inside addr work | Leaving addr int
| Taken addr | Unlinked addr | Released addr | Doomed addr | Owned addr

text \<open>The next step of a thread; \<open>self\<close> is the thread itself. \<open>Inl Blocked\<close>: it waits.\<close>

fun advance :: "pc \<Rightarrow> lib \<Rightarrow> stop + pc \<times> lib" where
  "advance (Done r) s = Inl Blocked"
| "advance (Begun c) s = (if no_op c then Inr (Done (uint PLCTAG_STATUS_OK), s)
     else bindE (RW_RDLOCK s) (\<lambda>s. Inr (Checking c, s)))"
| "advance (Checking c) s =
     (let q = (if tag_tree_inited s then Ready c else Unready c) in bindE (RW_UNLOCK s) (\<lambda>s. Inr (q, s)))"
| "advance (Unready c) s = bindE (RW_WRLOCK s) (\<lambda>s. Inr (Initing c, s))"
| "advance (Initing c) s = (if tag_tree_inited s then Inr (Inited c, s)
     else bindE (define_tags tags_inc (s\<lparr>tag_tree_inited := True\<rparr>)) (\<lambda>s. Inr (Inited c, s)))"
| "advance (Inited c) s = bindE (RW_UNLOCK s) (\<lambda>s. Inr (Ready c, s))"
| "advance (Ready c) s = bindE (if exclusive c then RW_WRLOCK s else RW_RDLOCK s) (\<lambda>s.
     Inr (case c of Make x \<Rightarrow> Making x | _ \<Rightarrow> Searching c, s))"
| "advance (Searching c) s = bindE (tag_tree_find (call_id c) s) (\<lambda>a.
     Inr (if a = NULL \<and> creates c then Building c else Found c a, s))"
| "advance (Building c) s = bindE (tag_tree_metanode_create s) (\<lambda>(a, s). Inr (Found c a, s))"
| "advance (Found c a) s =
     (if drops c \<and> a \<noteq> NULL then bindE (MTX_LOCK a s) (\<lambda>s. Inr (Taken a, s))
      else bindE (RW_UNLOCK s) (\<lambda>s. Inr (if a = NULL then Done (missing_result c) else Has c a, s)))"
| "advance (Has c a) s = (case c of
       Hold i \<Rightarrow> bindE (MTX_LOCK a s) (\<lambda>s. Inr (Done (uint PLCTAG_STATUS_OK), s))
     | Release i \<Rightarrow> bindE (MTX_UNLOCK a s) (\<lambda>s. Inr (Done (uint PLCTAG_STATUS_OK), s))
     | Probe i \<Rightarrow> Inr (Done (uint PLCTAG_STATUS_OK), s)
     | Work i m w \<Rightarrow> bindE (MTX_LOCK a s) (\<lambda>s. Inr (Inside a w, s))
     | Drop i \<Rightarrow> Inl Blocked
     | Make x \<Rightarrow> Inl Blocked)"
| "advance (Making x) s = (if x = ''@tags''
     then bindE (tag_tree_metanode_create s) (\<lambda>(a, s). Inr (Numbered a, s))
     else bindE (tag_tree_node_create (CStr x) (type_new_simple TAG_LINT) s) (\<lambda>(a, s). Inr (Made a, s)))"
| "advance (Made a) s = bindE (MTX_UNLOCK a s) (\<lambda>s. Inr (Numbered a, s))"
| "advance (Numbered a) s = bindE (get_node s a) (\<lambda>n. bindE (RW_UNLOCK s) (\<lambda>s. Inr (Done (uint (tag_id n)), s)))"
| "advance (Inside a w) s = bindE (w a s) (\<lambda>(r, s). Inr (Leaving a r, s))"
| "advance (Leaving a r) s = bindE (MTX_UNLOCK a s) (\<lambda>s. Inr (Done r, s))"
| "advance (Taken a) s = bindE (tag_tree_unlink a s) (\<lambda>s. Inr (Unlinked a, s\<lparr>tree_size := tree_size s - 1\<rparr>))"
| "advance (Unlinked a) s = bindE (RW_UNLOCK s) (\<lambda>s. Inr (Released a, s))"
| "advance (Released a) s = bindE (MTX_UNLOCK a s) (\<lambda>s. Inr (Doomed a, s))"
| "advance (Doomed a) s = bindE (MTX_LOCK a s) (\<lambda>s. Inr (Owned a, s))"
| "advance (Owned a) s =
     bindE (get_node s a) (\<lambda>n.
     bindE (free_string (name n)) (\<lambda>_.
     bindE (free_node a s) (\<lambda>s.
     bindE (MTX_UNLOCK_copy (mtx n) s) (\<lambda>m.
     bindE (mutex_destroy_copy m) (\<lambda>_. Inr (Done (uint PLCTAG_STATUS_OK), s))))))"

text \<open>The steps of one thread alone, up to the end of its call.\<close>

fun finish :: "nat \<Rightarrow> pc \<Rightarrow> lib \<Rightarrow> stop + int \<times> lib" where
  "finish k (Done r) s = Inr (r, s)"
| "finish 0 q s = Inl Blocked"
| "finish (Suc k) q s = bindE (advance q s) (\<lambda>(q, s). finish k q s)"

section \<open>Interleaving\<close>

type_synonym threads = "(nat \<Rightarrow> pc) \<times> lib"

text \<open>The step that creates a node takes memory: its allocations succeed, and the names of the tags do not wrap the size of
  the metatag. Without memory the process exits.\<close>

fun allocates :: "pc \<Rightarrow> bool" where
  "allocates (Building c) = True"
| "allocates (Making x) = True"
| "allocates _ = False"

definition text_size :: "lib \<Rightarrow> nat" where
  "text_size s = (\<Sum>a \<in> dom (tags_heap s).
     case name (the (tags_heap s a)) of CStr x \<Rightarrow> sizeof_metatag + length x | _ \<Rightarrow> 0)"

definition memory_left :: "lib \<Rightarrow> bool" where
  "memory_left s \<longleftrightarrow> alloc_ready 4 s \<and> finite (dom (tags_heap s)) \<and> text_size s < 2 ^ 64"

text \<open>A thread between calls begins one, with good work; any other takes its next step.\<close>

inductive thread_step :: "nat \<Rightarrow> threads \<Rightarrow> threads \<Rightarrow> bool" where
  begin_call: "p t = Done r \<Longrightarrow> good_call c \<Longrightarrow> thread_step t (p, s) (p(t := Begun c), s)"
| move: "advance (p t) (s\<lparr>self := t\<rparr>) = Inr (q, s') \<Longrightarrow> allocates (p t) \<longrightarrow> memory_left s \<Longrightarrow> thread_step t (p, s) (p(t := q), s')"

inductive_cases thread_stepE: "thread_step t (p, s) x"

definition run_step :: "threads \<Rightarrow> threads \<Rightarrow> bool" where
  "run_step x y \<longleftrightarrow> (\<exists>t. thread_step t x y)"

definition reaches :: "threads \<Rightarrow> threads \<Rightarrow> bool" where
  "reaches = run_step\<^sup>*\<^sup>*"

lemma reaches_refl [simp]: "reaches x x"
  by (simp add: reaches_def)

lemma reaches_trans: "reaches x y \<Longrightarrow> reaches y z \<Longrightarrow> reaches x z"
  by (simp add: reaches_def)

lemma reaches_move:
  "advance (p t) (s\<lparr>self := t\<rparr>) = Inr (q, s') \<Longrightarrow> allocates (p t) \<longrightarrow> memory_left s \<Longrightarrow> reaches (p(t := q), s') y \<Longrightarrow> reaches (p, s) y"
  unfolding reaches_def run_step_def by (rule converse_rtranclp_into_rtranclp, rule exI, erule (1) move)

lemma reaches_begin:
  "p t = Done r \<Longrightarrow> good_call c \<Longrightarrow> reaches (p(t := Begun c), s) y \<Longrightarrow> reaches (p, s) y"
  unfolding reaches_def run_step_def by (rule converse_rtranclp_into_rtranclp, rule exI, erule begin_call)

lemma reaches_induct [consumes 1, case_names refl call move]:
  assumes "reaches (p0, s0) (p, s)" and "P p0 s0"
    and "\<And>p s t r c. reaches (p0, s0) (p, s) \<Longrightarrow> P p s \<Longrightarrow> p t = Done r \<Longrightarrow> good_call c \<Longrightarrow> P (p(t := Begun c)) s"
    and "\<And>p s t q s'. reaches (p0, s0) (p, s) \<Longrightarrow> P p s \<Longrightarrow> advance (p t) (s\<lparr>self := t\<rparr>) = Inr (q, s') \<Longrightarrow>
        allocates (p t) \<longrightarrow> memory_left s \<Longrightarrow> P (p(t := q)) s'"
  shows "P p s"
proof -
  have "case y of (p, s) \<Rightarrow> P p s" if "reaches (p0, s0) y" for y
    using that unfolding reaches_def
  proof (induction rule: rtranclp_induct)
    case base
    then show ?case using assms(2) by simp
  next
    case (step y z)
    obtain p s where y: "y = (p, s)" by (cases y)
    show ?case using step assms(3,4) unfolding y run_step_def reaches_def by (auto elim!: thread_stepE simp del: fun_upd_apply)
  qed
  then show ?thesis using assms(1) by blast
qed

text \<open>A thread that began a good call stays with it, and creates a node only in a call that does.\<close>

fun pc_good :: "pc \<Rightarrow> bool" where
  "pc_good (Begun c) = good_call c"
| "pc_good (Checking c) = good_call c"
| "pc_good (Unready c) = good_call c"
| "pc_good (Initing c) = good_call c"
| "pc_good (Inited c) = good_call c"
| "pc_good (Ready c) = good_call c"
| "pc_good (Searching c) = good_call c"
| "pc_good (Building c) = good_call c"
| "pc_good (Found c a) = good_call c"
| "pc_good (Has c a) = good_call c"
| "pc_good (Inside a w) = good_work w"
| "pc_good _ = True"

lemma advance_good: "advance q s = Inr (q', s') \<Longrightarrow> pc_good q \<Longrightarrow> pc_good q'"
  by (cases "(q, s)" rule: advance.cases) (auto simp: bindE_Inr_iff Let_def split: if_splits call.splits)

fun pc_creates :: "pc \<Rightarrow> bool" where
  "pc_creates (Ready c) = creates c"
| "pc_creates (Searching c) = creates c"
| "pc_creates (Building c) = True"
| "pc_creates (Making x) = True"
| "pc_creates _ = False"

section \<open>The lock of the tree\<close>

fun writing :: "pc \<Rightarrow> bool" where
  "writing (Initing c) = True"
| "writing (Inited c) = True"
| "writing (Searching c) = exclusive c"
| "writing (Building c) = True"
| "writing (Found c a) = exclusive c"
| "writing (Making x) = True"
| "writing (Made a) = True"
| "writing (Numbered a) = True"
| "writing (Taken a) = True"
| "writing (Unlinked a) = True"
| "writing _ = False"

fun reading :: "pc \<Rightarrow> bool" where
  "reading (Checking c) = True"
| "reading (Searching c) = (\<not> exclusive c)"
| "reading (Found c a) = (\<not> exclusive c)"
| "reading _ = False"

lemma not_both: "\<not> (writing q \<and> reading q)"
  by (cases q) auto

text \<open>The lock is what the places of the threads say: as many readers, or one writer and nobody else.\<close>

definition lock_agrees :: "(nat \<Rightarrow> pc) \<Rightarrow> rwlock \<Rightarrow> bool" where
  "lock_agrees p l \<longleftrightarrow> finite {t. reading (p t)} \<and> (case l of
     RW_free \<Rightarrow> (\<forall>t. \<not> reading (p t) \<and> \<not> writing (p t))
   | RW_read n \<Rightarrow> 0 < n \<and> card {t. reading (p t)} = n \<and> (\<forall>t. \<not> writing (p t))
   | RW_write \<Rightarrow> (\<forall>t. \<not> reading (p t)) \<and> (\<exists>t. \<forall>t'. writing (p t') \<longleftrightarrow> t' = t))"

lemma readers_upd:
  "{t'. reading ((p(t := q)) t')} = (if reading q then insert t {t'. reading (p t')} else {t'. reading (p t')} - {t})"
  by auto

lemma lock_same:
  "reading q = reading (p t) \<Longrightarrow> writing q = writing (p t) \<Longrightarrow> lock_agrees p l \<Longrightarrow> lock_agrees (p(t := q)) l"
proof -
  assume same: "reading q = reading (p t)" "writing q = writing (p t)" and l: "lock_agrees p l"
  have "reading ((p(t := q)) t') = reading (p t')" "writing ((p(t := q)) t') = writing (p t')" for t' using same by auto
  then show ?thesis using l by (cases l) (simp_all add: lock_agrees_def del: fun_upd_apply)
qed

lemma lock_read:
  assumes "RW_RDLOCK s = Inr s'" and "lock_agrees p (tag_tree_mtx s)" and "\<not> reading (p t)" "\<not> writing (p t)"
    and "reading q" "\<not> writing q"
  shows "s' = s\<lparr>tag_tree_mtx := tag_tree_mtx s'\<rparr> \<and> lock_agrees (p(t := q)) (tag_tree_mtx s')"
proof -
  have card: "card (insert t {t'. reading (p t')}) = Suc (card {t'. reading (p t')})"
    using assms(2,3) by (subst card_insert_disjoint) (simp_all add: lock_agrees_def)
  show ?thesis using assms card
    unfolding RW_RDLOCK_def lock_agrees_def readers_upd by (auto split: rwlock.splits)
qed

lemma lock_write:
  assumes "RW_WRLOCK s = Inr s'" and "lock_agrees p (tag_tree_mtx s)" and "\<not> reading q" "writing q"
  shows "s' = s\<lparr>tag_tree_mtx := tag_tree_mtx s'\<rparr> \<and> lock_agrees (p(t := q)) (tag_tree_mtx s')"
  using assms unfolding RW_WRLOCK_def lock_agrees_def readers_upd by (auto split: rwlock.splits)

lemma lock_back:
  assumes "RW_UNLOCK s = Inr s'" and "lock_agrees p (tag_tree_mtx s)" and "reading (p t) \<or> writing (p t)"
    and "\<not> reading q" "\<not> writing q"
  shows "s' = s\<lparr>tag_tree_mtx := tag_tree_mtx s'\<rparr> \<and> lock_agrees (p(t := q)) (tag_tree_mtx s')"
proof (cases "tag_tree_mtx s")
  case (RW_read n)
  then have r: "reading (p t)" "finite {t'. reading (p t')}" "card {t'. reading (p t')} = n"
    using assms(2,3) by (auto simp: lock_agrees_def)
  then have "card ({t'. reading (p t')} - {t}) = n - 1" by (subst card_Diff_singleton) auto
  moreover have "n \<le> 1 \<Longrightarrow> {t'. reading (p t')} = {t}" using r card_le_Suc0_iff_eq [of "{t'. reading (p t')}"] by auto
  ultimately show ?thesis using assms RW_read
    unfolding RW_UNLOCK_def lock_agrees_def readers_upd by (auto split: if_splits)
next
  case RW_write
  then show ?thesis using assms not_both [of "p t"]
    unfolding RW_UNLOCK_def lock_agrees_def readers_upd by auto
next
  case RW_free
  then show ?thesis using assms by (auto simp: lock_agrees_def)
qed

text \<open>A thread that has the lock can give it back, and one that writes is alone.\<close>

lemma lock_held:
  assumes "lock_agrees p (tag_tree_mtx s)" and "reading (p t) \<or> writing (p t)"
  shows "\<exists>s'. RW_UNLOCK s = Inr s'"
  using assms by (auto simp: lock_agrees_def RW_UNLOCK_def split: rwlock.splits)

lemma lock_alone:
  assumes "lock_agrees p l" and "writing (p t)"
  shows "l = RW_write" and "\<not> reading (p t')" and "t' \<noteq> t \<Longrightarrow> \<not> writing (p t')"
proof -
  show "l = RW_write" using assms by (cases l) (auto simp: lock_agrees_def)
  then show "\<not> reading (p t')" "t' \<noteq> t \<Longrightarrow> \<not> writing (p t')" using assms by (auto simp: lock_agrees_def)
qed

section \<open>The store under the threads\<close>

text \<open>The node a thread has taken out of the tree and not freed yet.\<close>

fun dying :: "pc \<Rightarrow> addr option" where
  "dying (Unlinked a) = Some a"
| "dying (Released a) = Some a"
| "dying (Doomed a) = Some a"
| "dying (Owned a) = Some a"
| "dying _ = None"

definition doomed :: "(nat \<Rightarrow> pc) \<Rightarrow> addr set" where
  "doomed p = {a. \<exists>t. dying (p t) = Some a}"

definition held_by :: "lib \<Rightarrow> nat \<Rightarrow> addr \<Rightarrow> bool" where
  "held_by s t a \<longleftrightarrow> a \<noteq> NULL \<and> (\<exists>n. tags_heap s a = Some n \<and> mtx n = Some t)"

text \<open>What a thread at a place may rely on. With nothing but a pointer (\<open>Has\<close>) that is nothing at all.\<close>

fun thread_ok :: "addr set \<Rightarrow> lib \<Rightarrow> nat \<Rightarrow> pc \<Rightarrow> bool" where
  "thread_ok E s t (Found c a) = (a = NULL \<or> points s a (sint (call_id c)) \<and> a \<notin> E)"
| "thread_ok E s t (Has c a) = (a \<noteq> NULL \<and> \<not> drops c)"
| "thread_ok E s t (Inside a w) = held_by s t a"
| "thread_ok E s t (Leaving a r) = held_by s t a"
| "thread_ok E s t (Building c) = creates c"
| "thread_ok E s t (Made a) = (held_by s t a \<and> a \<notin> E)"
| "thread_ok E s t (Numbered a) = (\<exists>i. points s a i \<and> a \<notin> E)"
| "thread_ok E s t (Taken a) = (held_by s t a \<and> a \<notin> E)"
| "thread_ok E s t (Unlinked a) = held_by s t a"
| "thread_ok E s t (Released a) = held_by s t a"
| "thread_ok E s t (Owned a) = held_by s t a"
| "thread_ok E s t _ = True"

text \<open>Every tag of a store is one of \<open>T0\<close>, with the same name, type and size; or, where new tags are made, one as
  \<open>plc_tag_create\<close> makes it, or the metatag.\<close>

definition same_tag :: "tag \<Rightarrow> tag \<Rightarrow> bool" where
  "same_tag u u' \<longleftrightarrow> t_name u' = t_name u \<and> t_type u' = t_type u \<and> length (t_data u') = length (t_data u)"

definition tags_of :: "bool \<Rightarrow> store \<Rightarrow> store \<Rightarrow> bool" where
  "tags_of new T0 T \<longleftrightarrow> (\<forall>i t. T i = Some t \<longrightarrow> (\<exists>t0. T0 i = Some t0 \<and> same_tag t0 t)
     \<or> new \<and> (i = 1 \<or> t_type t = Simple TAG_LINT \<and> length (t_data t) = 8))"

lemma tags_of_refl: "tags_of new T T"
  by (simp add: tags_of_def same_tag_def)

lemma tags_of_trans: "tags_of new T0 T \<Longrightarrow> tags_of new T T' \<Longrightarrow> tags_of new T0 T'"
proof -
  assume a: "tags_of new T0 T" "tags_of new T T'"
  have "(\<exists>t0. T0 i = Some t0 \<and> same_tag t0 t') \<or> new \<and> (i = 1 \<or> t_type t' = Simple TAG_LINT \<and> length (t_data t') = 8)"
    if "T' i = Some t'" for i t'
  proof (cases "\<exists>t. T i = Some t \<and> same_tag t t'")
    case True
    then obtain t where t: "T i = Some t" "same_tag t t'" by blast
    have "(\<exists>t0. T0 i = Some t0 \<and> same_tag t0 t) \<or> new \<and> (i = 1 \<or> t_type t = Simple TAG_LINT \<and> length (t_data t) = 8)"
      using a(1) t(1) by (simp add: tags_of_def)
    then show ?thesis using t(2) by (auto simp: same_tag_def)
  next
    case False
    then show ?thesis using a(2) [unfolded tags_of_def, rule_format, OF that] by blast
  qed
  then show "tags_of new T0 T'" by (simp add: tags_of_def)
qed

definition world :: "bool \<Rightarrow> store \<Rightarrow> (nat \<Rightarrow> pc) \<Rightarrow> lib \<Rightarrow> bool" where
  "world new T0 p s \<longleftrightarrow> (\<exists>T. store_but (doomed p) s T \<and> tags_of new T0 T)
     \<and> (\<forall>a \<in> doomed p. a \<noteq> NULL \<and> (\<exists>n u. tags_heap s a = Some n \<and> node_is (types s) n u))
     \<and> (\<forall>t t' a. dying (p t) = Some a \<longrightarrow> dying (p t') = Some a \<longrightarrow> t = t')
     \<and> (\<forall>t. thread_ok (doomed p) s t (p t))"

text \<open>Every node in memory, in the tree or on its way out, is that of a tag.\<close>

lemma world_node:
  assumes "world new T0 p s" and "tags_heap s a = Some n"
  shows "\<exists>u. node_is (types s) n u"
proof (cases "a \<in> doomed p")
  case True
  then have "\<exists>n u. tags_heap s a = Some n \<and> node_is (types s) n u" using assms(1) unfolding world_def by blast
  then show ?thesis using assms(2) by auto
next
  case False
  obtain T where "store_but (doomed p) s T" using assms(1) by (auto simp: world_def)
  then obtain as where "dom (tags_heap s) = doomed p \<union> set as" 
      "\<forall>a \<in> set as. \<exists>t. T (id_of s a) = Some t \<and> node_is (types s) (the (tags_heap s a)) t \<and> 1 \<le> id_of s a"
    by (auto simp: store_but_def)
  moreover have "a \<in> dom (tags_heap s)" using assms(2) by blast
  ultimately have "\<exists>t. node_is (types s) (the (tags_heap s a)) t" using False by blast
  then show ?thesis using assms(2) by simp
qed

lemma node_is_touch:
  "node_is m n u \<Longrightarrow> length d = length (data n) \<Longrightarrow>
     node_is m (n\<lparr>mtx := x, cb := c, data := d\<rparr>) (u\<lparr>t_mtx := x, t_cb := c, t_data := d\<rparr>)"
  by (auto simp: node_is_def sized_def)

lemma dying_same: "dying q = dying (p t) \<Longrightarrow> dying ((p(t := q)) t') = dying (p t')"
  by simp

lemma doomed_same: "dying q = dying (p t) \<Longrightarrow> doomed (p(t := q)) = doomed p"
  using dying_same [of q p t] by (simp add: doomed_def del: fun_upd_apply)

lemma doomed_add:
  assumes "dying (p t) = None" and "dying q = Some a"
  shows "doomed (p(t := q)) = insert a (doomed p)"
proof (intro set_eqI iffI)
  fix b assume "b \<in> doomed (p(t := q))"
  then show "b \<in> insert a (doomed p)" using assms by (auto simp: doomed_def split: if_splits)
next
  fix b assume b: "b \<in> insert a (doomed p)"
  show "b \<in> doomed (p(t := q))"
  proof (cases "b = a")
    case True
    then show ?thesis using assms(2) by (auto simp: doomed_def intro!: exI [of _ t])
  next
    case False
    then obtain t' where "dying (p t') = Some b" using b by (auto simp: doomed_def)
    then show ?thesis using assms(1) by (auto simp: doomed_def intro!: exI [of _ t'])
  qed
qed

lemma thread_ok_mono:
  assumes "thread_ok E s t q" and "\<And>a i. points s a i \<Longrightarrow> a \<notin> E \<Longrightarrow> points s' a i" and "\<And>a. held_by s t a \<Longrightarrow> held_by s' t a"
  shows "thread_ok E s' t q"
  using assms by (cases q) auto

lemma held_by_other [simp]:
  "held_by (s\<lparr>tree_size := x1\<rparr>) t a = held_by s t a" "held_by (s\<lparr>tag_tree_mtx := x3\<rparr>) t a = held_by s t a"
  "held_by (s\<lparr>self := x6\<rparr>) t a = held_by s t a" "held_by (s\<lparr>events := es\<rparr>) t a = held_by s t a" "held_by (s\<lparr>tag_tree_inited := x2\<rparr>) t a = held_by s t a"
  by (simp_all add: held_by_def)

lemma thread_ok_other [simp]:
  "thread_ok E (s\<lparr>tree_size := x1\<rparr>) t q = thread_ok E s t q" "thread_ok E (s\<lparr>tag_tree_mtx := x3\<rparr>) t q = thread_ok E s t q"
  "thread_ok E (s\<lparr>self := x6\<rparr>) t q = thread_ok E s t q" "thread_ok E (s\<lparr>events := es\<rparr>) t q = thread_ok E s t q"
  by (cases q; simp)+

lemma world_other [simp]:
  "world new T0 p (s\<lparr>tree_size := x1\<rparr>) = world new T0 p s" "world new T0 p (s\<lparr>tag_tree_mtx := x3\<rparr>) = world new T0 p s"
  "world new T0 p (s\<lparr>self := x6\<rparr>) = world new T0 p s" "world new T0 p (s\<lparr>events := es\<rparr>) = world new T0 p s"
  by (simp_all add: world_def)

text \<open>A step that leaves the nodes alone.\<close>

lemma world_still:
  assumes w: "world new T0 p s" and d: "dying q = dying (p t)" and ok: "thread_ok (doomed p) s t q"
  shows "world new T0 (p(t := q)) s"
proof -
  show ?thesis using w ok dying_same [of q p t, OF d] unfolding world_def doomed_same [of q p t, OF d] by (simp add: fun_upd_apply)
qed

text \<open>A step that changes the mutex, the callback or the bytes of one node, in the tree or not.\<close>

lemma store_touch:
  assumes st: "store_but E s T" and n: "tags_heap s a = Some n" "a \<noteq> NULL" and d: "length d = length (data n)"
  shows "\<exists>T'. store_but E (s\<lparr>tags_heap := (tags_heap s)(a \<mapsto> n\<lparr>mtx := m, cb := c, data := d\<rparr>)\<rparr>) T' \<and> tags_of new T T'"
proof (cases "a \<in> E")
  case True
  from store_upd_extra [OF st True n(2), of "\<lambda>_. n\<lparr>mtx := m, cb := c, data := d\<rparr>"] show ?thesis using tags_of_refl by blast
next
  case False
  obtain as where as: "in_tree s as" "dom (tags_heap s) = E \<union> set as"
    "\<forall>a \<in> set as. \<exists>t. T (id_of s a) = Some t \<and> node_is (types s) (the (tags_heap s a)) t \<and> 1 \<le> id_of s a"
    using st by (auto simp: store_but_def)
  have "a \<in> set as" using as(2) n(1) False by blast
  then obtain t where t: "T (id_of s a) = Some t" using as(3) by blast
  have a: "points s a (id_of s a)" using n by (simp add: points_def id_of_def)
  have td: "t_data t = data n" using as(3) \<open>a \<in> set as\<close> t n(1) by (auto simp: node_is_def)
  have "store_but E (s\<lparr>tags_heap := (tags_heap s)(a \<mapsto> n\<lparr>mtx := m, cb := c, data := d\<rparr>)\<rparr>)
      (T(id_of s a \<mapsto> t\<lparr>t_mtx := m, t_cb := c, t_data := d\<rparr>))"
    using store_upd [OF st t a False, of "\<lambda>n. n\<lparr>mtx := m, cb := c, data := d\<rparr>" "t\<lparr>t_mtx := m, t_cb := c, t_data := d\<rparr>"] n(1) td d
    by (auto simp: node_is_def sized_def)
  moreover have "tags_of new T (T(id_of s a \<mapsto> t\<lparr>t_mtx := m, t_cb := c, t_data := d\<rparr>))" using t td d by (auto simp: tags_of_def same_tag_def)
  ultimately show ?thesis by blast
qed

lemma world_touch:
  assumes w: "world new T0 p s" and n: "tags_heap s a = Some n" "a \<noteq> NULL"
    and m: "mtx n = None \<or> mtx n = Some t \<or> m = mtx n" and len: "length d = length (data n)" and d: "dying q = dying (p t)"
    and s': "s' = s\<lparr>tags_heap := (tags_heap s)(a \<mapsto> n\<lparr>mtx := m, cb := c, data := d\<rparr>)\<rparr>"
    and ok: "thread_ok (doomed p) s' t q"
  shows "world new T0 (p(t := q)) s'"
proof -
  obtain T where T: "store_but (doomed p) s T" "tags_of new T0 T" using w by (auto simp: world_def)
  obtain T' where T': "store_but (doomed p) s' T'" "tags_of new T T'" using store_touch [OF T(1) n len] s' by blast
  have others: "thread_ok (doomed p) s' t' (p t')" if "t' \<noteq> t" for t'
  proof (rule thread_ok_mono)
    show "thread_ok (doomed p) s t' (p t')" using w by (simp add: world_def)
    show "points s b i \<Longrightarrow> points s' b i" for b i using n(1) by (auto simp: s' points_def)
    show "held_by s t' b \<Longrightarrow> held_by s' t' b" for b using n(1) m that by (auto simp: s' held_by_def)
  qed
  note dying_same [of q p t, OF d]
  moreover have "\<forall>b \<in> doomed p. b \<noteq> NULL \<and> (\<exists>n u. tags_heap s' b = Some n \<and> node_is (types s') n u)"
  proof
    fix b assume b: "b \<in> doomed p"
    then obtain k u where k: "b \<noteq> NULL" "tags_heap s b = Some k" "node_is (types s) k u" using w unfolding world_def by blast
    show "b \<noteq> NULL \<and> (\<exists>n u. tags_heap s' b = Some n \<and> node_is (types s') n u)"
      using k n(1) node_is_touch [OF k(3), of d, where x = m and c = c] len by (cases "b = a") (auto simp: s')
  qed
  moreover have "\<forall>t'. thread_ok (doomed p) s' t' ((p(t := q)) t')" using ok others by simp
  ultimately show ?thesis using w T'(1) tags_of_trans [OF T(2) T'(2)]
    unfolding world_def doomed_same [of q p t, OF d] by (simp add: del: fun_upd_apply) blast
qed

text \<open>A step that takes a node out of the tree, and one that frees it.\<close>

lemma held_by_relinked:
  assumes "relinked s s'" and "held_by s t a"
  shows "held_by s' t a"
proof -
  obtain n where n: "tags_heap s a = Some n" "mtx n = Some t" "a \<noteq> NULL" using assms(2) by (auto simp: held_by_def)
  obtain n' where n': "tags_heap s' a = Some n'" "rb_entry.more n' = rb_entry.more n"
    using relinked_node(1) [OF assms(1) n(1)] by blast
  then show ?thesis using n more_eqD(4) [OF n'(2)] by (simp add: held_by_def)
qed

lemma world_unlink:
  assumes w: "world new T0 p s" and t: "p t = Taken a" and alone: "\<And>t'. t' \<noteq> t \<Longrightarrow> \<not> writing (p t') \<and> \<not> reading (p t')"
  shows "\<exists>s'. tag_tree_unlink a s = Inr s' \<and> relinked s s' \<and> world new T0 (p(t := Unlinked a)) s'"
proof -
  let ?E = "doomed p" and ?p = "p(t := Unlinked a)"
  obtain T where T: "store_but ?E s T" "tags_of new T0 T" using w by (auto simp: world_def)
  have ok: "thread_ok ?E s t' (p t')" for t' using w by (simp add: world_def)
  from ok [of t] have a: "held_by s t a" "a \<notin> ?E" using t by simp_all
  obtain as where as: "dom (tags_heap s) = ?E \<union> set as"
    "\<forall>a \<in> set as. \<exists>t. T (id_of s a) = Some t \<and> node_is (types s) (the (tags_heap s a)) t \<and> 1 \<le> id_of s a"
    using T(1) by (auto simp: store_but_def)
  have "a \<in> set as" using as(1) a by (auto simp: held_by_def)
  then obtain u where u: "T (id_of s a) = Some u" using as(2) by blast
  have "points s a (id_of s a)" using a(1) by (auto simp: points_def held_by_def id_of_def)
  from store_unlink [OF T(1) u this a(2)] obtain s' n where s': "tag_tree_unlink a s = Inr s'" "relinked s s'"
    "store_but (insert a ?E) s' (T(id_of s a := None))" "tags_heap s' a = Some n" "node_is (types s) n u" by blast
  have E: "doomed ?p = insert a ?E" by (rule doomed_add) (simp_all add: t)
  have others: "thread_ok (insert a ?E) s' t' (p t')" if "t' \<noteq> t" for t'
    using ok [of t'] alone [OF that] held_by_relinked [OF s'(2)] by (cases "p t'") auto
  have "thread_ok (insert a ?E) s' t' (?p t')" for t'
    using others held_by_relinked [OF s'(2) a(1)] by simp
  moreover have types: "types s' = types s" using relinked_other [OF s'(2)] by simp
  moreover have "\<exists>n u. tags_heap s' b = Some n \<and> node_is (types s) n u" if "b \<in> insert a ?E" for b
  proof (cases "b = a")
    case True
    then show ?thesis using s'(4,5) by blast
  next
    case False
    then have "b \<in> ?E" using that by simp
    then obtain k x where k: "tags_heap s b = Some k" "node_is (types s) k x" using w unfolding world_def by blast
    obtain k' where k': "tags_heap s' b = Some k'" "rb_entry.more k' = rb_entry.more k"
      using relinked_node(1) [OF s'(2) k(1)] by blast
    have "node_is (types s) k' x" using node_is_more [OF k(2) k'(2) [symmetric]] .
    then show ?thesis using k'(1) by blast
  qed
  moreover have "b \<noteq> NULL" if "b \<in> insert a ?E" for b using that w a(1) by (auto simp: world_def held_by_def)
  moreover have "t1 = t2" if "dying (?p t1) = Some b" "dying (?p t2) = Some b" for t1 t2 b
    using that w a(2) by (auto simp: world_def doomed_def split: if_splits)
  moreover have "tags_of new T0 (T(id_of s a := None))" using T(2) by (auto simp: tags_of_def same_tag_def)
  ultimately have "world new T0 ?p s'" using s'(3) unfolding world_def E by (auto simp del: fun_upd_apply)
  then show ?thesis using s'(1,2) by blast
qed

lemma world_free:
  assumes w: "world new T0 p s" and t: "p t = Owned a"
  shows "\<exists>s' n x. get_node s a = Inr n \<and> name n = CStr x \<and> mtx n = Some t \<and> free_node a s = Inr s' \<and> world new T0 (p(t := Done r)) s'
    \<and> s' = s\<lparr>tags_heap := tags_heap s'\<rparr>"
proof -
  let ?E = "doomed p" and ?p = "p(t := Done r)"
  obtain T where T: "store_but ?E s T" "tags_of new T0 T" using w by (auto simp: world_def)
  have ok: "thread_ok ?E s t' (p t')" for t' using w by (simp add: world_def)
  have "dying (p t) = Some a" using t by simp
  then have aE: "a \<in> ?E" unfolding doomed_def by blast
  then obtain n x where n: "tags_heap s a = Some n" "name n = CStr x" "a \<noteq> NULL" using w by (force simp: world_def node_is_def)
  have mine: "mtx n = Some t" using ok [of t] t n by (auto simp: held_by_def)
  have only: "dying (p t') = Some a \<longleftrightarrow> t' = t" for t' using w t unfolding world_def by (metis dying.simps(4))
  have E: "doomed ?p = ?E - {a}"
  proof (intro set_eqI iffI)
    fix b assume "b \<in> doomed ?p"
    then obtain t' where "dying (p t') = Some b" "t' \<noteq> t" by (auto simp: doomed_def split: if_splits)
    then show "b \<in> ?E - {a}" using only by (auto simp: doomed_def)
  next
    fix b assume "b \<in> ?E - {a}"
    then obtain t' where "dying (p t') = Some b" "b \<noteq> a" by (auto simp: doomed_def)
    then show "b \<in> doomed ?p" using t by (auto simp: doomed_def intro!: exI [of _ t'])
  qed
  define s' where "s' = s\<lparr>tags_heap := (tags_heap s)(a := None)\<rparr>"
  have "insert a (?E - {a}) = ?E" using aE by blast
  then have f: "free_node a s = Inr s'" "store_but (?E - {a}) s' T"
    using store_free [of a "?E - {a}" s T] T(1) n(3) by (simp_all add: s'_def)
  have others: "thread_ok (?E - {a}) s' t' (p t')" if "t' \<noteq> t" for t'
  proof -
    have "thread_ok ?E s' t' (p t')"
      by (rule thread_ok_mono [OF ok]) (use aE n mine that in \<open>auto simp: s'_def points_def held_by_def\<close>)
    then show ?thesis by (cases "p t'") auto
  qed
  have "t1 = t2" if "dying (?p t1) = Some b" "dying (?p t2) = Some b" for t1 t2 b
    using that w by (auto simp: world_def split: if_splits)
  moreover have "b \<noteq> NULL \<and> (\<exists>n u. tags_heap s' b = Some n \<and> node_is (types s') n u)" if "b \<in> ?E - {a}" for b
    using that w by (auto simp: world_def s'_def)
  moreover have "thread_ok (?E - {a}) s' t' (?p t')" for t' using others by simp
  ultimately have "world new T0 ?p s'" using f(2) T(2) unfolding world_def E by (auto simp del: fun_upd_apply)
  then show ?thesis using n f(1) mine by (auto simp: get_node_def s'_def)
qed

text \<open>A step that makes a node, with the lock of the tree taken for writing.\<close>

lemma held_by_kept: "kept E s s' \<Longrightarrow> held_by s t a \<Longrightarrow> held_by s' t a"
  unfolding kept_def held_by_def by (metis more_eqD(4) option.simps(3))

lemma world_kept:
  assumes w: "world new T0 p s" and alone: "\<And>t'. t' \<noteq> t \<Longrightarrow> \<not> writing (p t') \<and> \<not> reading (p t')"
    and k: "kept (doomed p) s s'" and m: "objs (types s) \<subseteq>\<^sub>m objs (types s')" "stack (types s') = stack (types s)"
    and T: "store_but (doomed p) s' T" "tags_of new T0 T" and d: "dying q = dying (p t)"
    and ok: "thread_ok (doomed p) s' t q"
  shows "world new T0 (p(t := q)) s'"
proof -
  have others: "thread_ok (doomed p) s' t' (p t')" if "t' \<noteq> t" for t'
  proof -
    have "thread_ok (doomed p) s t' (p t')" using w by (simp add: world_def)
    then show ?thesis using alone [OF that] held_by_kept [OF k] by (cases "p t'") auto
  qed
  have "\<exists>n u. tags_heap s' b = Some n \<and> node_is (types s') n u" if "b \<in> doomed p" for b
  proof -
    obtain n u where n: "tags_heap s b = Some n" "node_is (types s) n u" using w \<open>b \<in> doomed p\<close> unfolding world_def by blast
    then obtain n' where "tags_heap s' b = Some n'" "rb_entry.more n' = rb_entry.more n"
      using k \<open>b \<in> doomed p\<close> unfolding kept_def by blast
    then show ?thesis using node_is_more [OF node_is_mono [OF n(2) m], of n'] by auto
  qed
  moreover have "\<forall>t'. thread_ok (doomed p) s' t' ((p(t := q)) t')" using ok others by simp
  moreover note dying_same [of q p t, OF d]
  ultimately show ?thesis using w T unfolding world_def doomed_same [of q p t, OF d] by (simp add: del: fun_upd_apply) blast
qed

text \<open>The size of the metatag is below the text in memory.\<close>

lemma names_in_memory:
  assumes "store_but E s T" and "finite (dom (tags_heap s))"
  shows "names_total T \<le> text_size s"
proof -
  obtain as where as: "in_tree s as" "dom (tags_heap s) = E \<union> set as"
    "\<forall>a \<in> set as. \<exists>t. T (id_of s a) = Some t \<and> node_is (types s) (the (tags_heap s a)) t \<and> 1 \<le> id_of s a"
    "dom T = id_of s ` set as" using assms(1) by (auto simp: store_but_def)
  let ?f = "\<lambda>a. case name (the (tags_heap s a)) of CStr x \<Rightarrow> sizeof_metatag + length x | _ \<Rightarrow> 0"
  have "names_total T = (\<Sum>i \<in> dom T. sizeof_metatag + length (t_name (the (T i))))"
    using store_finite [OF assms(1)] by (simp add: names_total_def sum_list_distinct_conv_sum_set)
  also have "\<dots> = (\<Sum>a \<in> set as. sizeof_metatag + length (t_name (the (T (id_of s a)))))"
    unfolding as(4) using in_tree_inj [OF as(1)] by (subst sum.reindex) (auto simp: inj_on_def)
  also have "\<dots> = (\<Sum>a \<in> set as. ?f a)"
    using as(3) by (intro sum.cong refl) (force simp: node_is_def)
  also have "\<dots> \<le> text_size s" unfolding text_size_def using assms(2) as(2) by (intro sum_mono2) auto
  finally show ?thesis .
qed

section \<open>The invariant\<close>

text \<open>Before the initialisation no thread is past the point where it would do it.\<close>

fun early :: "pc \<Rightarrow> bool" where
  "early (Done r) = True"
| "early (Begun c) = True"
| "early (Checking c) = True"
| "early (Unready c) = True"
| "early (Initing c) = True"
| "early _ = False"

definition threads_ok :: "bool \<Rightarrow> store \<Rightarrow> (nat \<Rightarrow> pc) \<Rightarrow> lib \<Rightarrow> bool" where
  "threads_ok new T0 p s \<longleftrightarrow> lock_agrees p (tag_tree_mtx s) \<and>
     (if tag_tree_inited s then world new T0 p s
      else (\<forall>t. early (p t)) \<and> store_is s Map.empty \<and> T0 = default_store \<and> alloc_ready 30 s)"

text \<open>
  What can go wrong: a node that is gone, a mutex given back by a thread that has not got it, an access of the thread that holds
  the mutex to memory outside of the buffer of its tag, and a new tag when the identifiers have run out.
\<close>

fun locks :: "call \<Rightarrow> bool" where
  "locks (Hold i) = True"
| "locks (Release i) = True"
| "locks (Work i m w) = True"
| "locks _ = False"

definition goes_wrong :: "pc \<Rightarrow> nat \<Rightarrow> lib \<Rightarrow> ub \<Rightarrow> bool" where
  "goes_wrong q t s e \<longleftrightarrow> (\<exists>c a. q = Has c a \<and> locks c \<and>
     (case tags_heap s a of
        None \<Rightarrow> e = BadPointer
      | Some n \<Rightarrow> e = BadUnlock \<and> (\<exists>i. c = Release i) \<and> mtx n \<noteq> Some t))
   \<or> (\<exists>a w. q = Inside a w \<and> held_by s t a \<and> e = OutOfBounds)
   \<or> (\<exists>x. q = Making x \<and> x \<noteq> ''@tags'' \<and> e = SignedOverflow)"

lemma threads_ok_lock:
  assumes ok: "threads_ok new T0 p s" and s': "s' = s\<lparr>self := me, tag_tree_mtx := tag_tree_mtx s'\<rparr>"
    and l: "lock_agrees (p(t := q)) (tag_tree_mtx s')" and d: "dying q = dying (p t)"
    and q: "tag_tree_inited s \<Longrightarrow> thread_ok (doomed p) s t q" "\<not> tag_tree_inited s \<Longrightarrow> early q"
  shows "threads_ok new T0 (p(t := q)) s'"
proof -
  have i: "tag_tree_inited s' = tag_tree_inited s" by (subst s') simp
  have w: "world new T0 p' s' = world new T0 p' s" for p' by (subst s') simp
  have e: "store_is s' T = store_is s T" "alloc_ready k s' = alloc_ready k s" for T k
    by (subst s', simp add: alloc_ready_def)+
  show ?thesis
  proof (cases "tag_tree_inited s")
    case True
    then have "world new T0 p s" using ok by (simp add: threads_ok_def)
    from world_still [OF this d q(1)] True show ?thesis using l i w by (simp add: threads_ok_def)
  next
    case False
    then show ?thesis using ok l i e q(2) by (auto simp: threads_ok_def)
  qed
qed

lemma threads_ok_touch:
  assumes ok: "threads_ok new T0 p s" and init: "tag_tree_inited s" and n: "tags_heap s a = Some n" "a \<noteq> NULL"
    and m: "mtx n = None \<or> mtx n = Some t \<or> m = mtx n" and len: "length d = length (data n)" and d: "dying q = dying (p t)"
    and l: "reading q = reading (p t)" "writing q = writing (p t)"
    and s': "s' = s\<lparr>self := me, tags_heap := (tags_heap s)(a \<mapsto> n\<lparr>mtx := m, cb := c, data := d\<rparr>)\<rparr>"
    and q: "thread_ok (doomed p) s' t q"
  shows "threads_ok new T0 (p(t := q)) s'"
proof -
  have "world new T0 p (s\<lparr>self := me\<rparr>)" using ok init by (simp add: threads_ok_def)
  from world_touch [where n = n and c = c, OF this _ n(2) m len d _ q] n s' have "world new T0 (p(t := q)) s'" by simp
  moreover have "lock_agrees (p(t := q)) (tag_tree_mtx s')" using lock_same [of q p t] l ok s' by (simp add: threads_ok_def)
  ultimately show ?thesis using init s' by (simp add: threads_ok_def)
qed

lemma mutex_taken:
  assumes "tags_heap s a = Some n" and "a \<noteq> NULL"
  shows "MTX_LOCK a (s\<lparr>self := t\<rparr>) = (if mtx n = None
      then Inr (s\<lparr>self := t, tags_heap := (tags_heap s)(a \<mapsto> n\<lparr>mtx := Some t, cb := cb n, data := data n\<rparr>)\<rparr>) else Inl Blocked)"
    and "MTX_UNLOCK a (s\<lparr>self := t\<rparr>) = (if mtx n = Some t
      then Inr (s\<lparr>self := t, tags_heap := (tags_heap s)(a \<mapsto> n\<lparr>mtx := None, cb := cb n, data := data n\<rparr>)\<rparr>) else Inl (Undef BadUnlock))"
  using assms by (simp_all add: MTX_LOCK_def MTX_UNLOCK_def get_node_def upd_node_def)

lemma mutex_gone:
  "tags_heap s a = None \<Longrightarrow> a \<noteq> NULL \<Longrightarrow> MTX_LOCK a s = Inl (Undef BadPointer)"
  "tags_heap s a = None \<Longrightarrow> a \<noteq> NULL \<Longrightarrow> MTX_UNLOCK a s = Inl (Undef BadPointer)"
  by (simp_all add: MTX_LOCK_def MTX_UNLOCK_def get_node_def deref_def)

lemma init_once:
  assumes ok: "threads_ok new T0 p s" and t: "p t = Initing c" and fresh: "\<not> tag_tree_inited s"
  shows "\<exists>s'. define_tags tags_inc (s\<lparr>self := t, tag_tree_inited := True\<rparr>) = Inr s' \<and> threads_ok new T0 (p(t := Inited c)) s'"
proof -
  let ?p = "p(t := Inited c)"
  define s1 where "s1 = s\<lparr>self := t, tag_tree_inited := True\<rparr>"
  have e: "\<forall>t. early (p t)" "T0 = default_store" using ok fresh by (simp_all add: threads_ok_def)
  have "store_is s1 Map.empty" "alloc_ready (3 * length tags_inc) s1"
    using ok fresh by (simp_all add: threads_ok_def s1_def alloc_ready_def tags_inc_def)
  then obtain s2 where s2: "define_tags tags_inc s1 = Inr s2" "store_is s2 default_store" "env s1 s2"
    using define_tags_spec [of s1 Map.empty 2 tags_inc] by (auto simp: fresh_id_def tags_inc_def default_store_def)
  have "early q \<Longrightarrow> dying q = None \<and> thread_ok E s2 t' q" for q E t' by (cases q) auto
  then have d: "dying (?p t') = None" "thread_ok E s2 t' (?p t')" for t' E using e(1) by auto
  then have "doomed ?p = {}" by (auto simp: doomed_def simp del: fun_upd_apply)
  then have "world new T0 ?p s2" unfolding world_def using s2(2) e(2) d tags_of_refl by (auto simp del: fun_upd_apply)
  moreover have "lock_agrees ?p (tag_tree_mtx s)" using lock_same [of "Inited c" p t] t ok by (simp add: threads_ok_def)
  ultimately have "threads_ok new T0 ?p s2" using s2(3) by (simp add: threads_ok_def env_def s1_def)
  then show ?thesis using s2(1) by (auto simp: s1_def)
qed

lemma find_ok:
  assumes ok: "threads_ok new T0 p s" and init: "tag_tree_inited s" and t: "p t = Searching c"
  shows "\<exists>a. tag_tree_find (call_id c) (s\<lparr>self := t\<rparr>) = Inr a
    \<and> threads_ok new T0 (p(t := if a = NULL \<and> creates c then Building c else Found c a)) (s\<lparr>self := t\<rparr>)"
proof -
  have w: "world new T0 p (s\<lparr>self := t\<rparr>)" using ok init by (simp add: threads_ok_def)
  then obtain T where "store_but (doomed p) (s\<lparr>self := t\<rparr>) T" by (auto simp: world_def)
  from store_find [OF this, of "call_id c"] obtain a where a: "tag_tree_find (call_id c) (s\<lparr>self := t\<rparr>) = Inr a"
    "a = NULL \<or> points s a (sint (call_id c)) \<and> a \<notin> doomed p" by (cases "T (sint (call_id c))") auto
  let ?q = "if a = NULL \<and> creates c then Building c else Found c a"
  have "world new T0 (p(t := ?q)) (s\<lparr>self := t\<rparr>)" by (rule world_still [OF w]) (use t a(2) in simp_all)
  moreover have "lock_agrees (p(t := ?q)) (tag_tree_mtx s)" using lock_same [of ?q p t] t ok
    by (simp add: threads_ok_def exclusive_def)
  ultimately show ?thesis using init a(1) by (auto simp: threads_ok_def)
qed

text \<open>The invariant holds after every step, and a thread that cannot make one waits or goes wrong in one of the two ways.\<close>

lemma advance_early:
  assumes ok: "threads_ok new T0 p s" and e: "early (p t)"
  shows "case advance (p t) (s\<lparr>self := t\<rparr>) of
     Inr (q, s') \<Rightarrow> threads_ok new T0 (p(t := q)) s'
   | Inl e \<Rightarrow> e = Blocked"
proof -
  have l: "lock_agrees p (tag_tree_mtx (s\<lparr>self := t\<rparr>))" using ok by (simp add: threads_ok_def)
  show ?thesis
  proof (cases "p t")
    case (Begun c)
    have none: "threads_ok new T0 (p(t := Done (uint PLCTAG_STATUS_OK))) (s\<lparr>self := t\<rparr>)"
      by (rule threads_ok_lock [OF ok, of _ t]) (use Begun l lock_same [of "Done (uint PLCTAG_STATUS_OK)" p t] in auto)
    show ?thesis
    proof (cases "RW_RDLOCK (s\<lparr>self := t\<rparr>)")
      case (Inl x)
      then show ?thesis using Begun none by (auto simp: RW_RDLOCK_def split: rwlock.splits)
    next
      case (Inr s')
      note r = lock_read [OF Inr l, of t "Checking c"]
      have "threads_ok new T0 (p(t := Checking c)) s'"
        by (rule threads_ok_lock [OF ok, of _ t]) (use r Begun in auto)
      then show ?thesis using Begun Inr none by simp
    qed
  next
    case (Checking c)
    obtain s' where s': "RW_UNLOCK (s\<lparr>self := t\<rparr>) = Inr s'" using lock_held [OF l, of t] Checking by auto
    let ?q = "if tag_tree_inited s then Ready c else Unready c"
    note r = lock_back [OF s' l, of t ?q]
    have "threads_ok new T0 (p(t := ?q)) s'"
      by (rule threads_ok_lock [OF ok, of _ t]) (use r Checking in auto)
    then show ?thesis using Checking s' by (simp add: Let_def)
  next
    case (Unready c)
    show ?thesis
    proof (cases "RW_WRLOCK (s\<lparr>self := t\<rparr>)")
      case (Inl x)
      then show ?thesis using Unready by (auto simp: RW_WRLOCK_def split: rwlock.splits)
    next
      case (Inr s')
      note r = lock_write [OF Inr l, of "Initing c" t]
      have "threads_ok new T0 (p(t := Initing c)) s'"
        by (rule threads_ok_lock [OF ok, of _ t]) (use r Unready in auto)
      then show ?thesis using Unready Inr by simp
    qed
  next
    case (Initing c)
    show ?thesis
    proof (cases "tag_tree_inited s")
      case True
      have "lock_agrees (p(t := Inited c)) (tag_tree_mtx s)" using lock_same [of "Inited c" p t] Initing l by simp
      then have "threads_ok new T0 (p(t := Inited c)) (s\<lparr>self := t\<rparr>)"
        using True Initing by (intro threads_ok_lock [OF ok, of _ t]) simp_all
      then show ?thesis using True Initing by simp
    next
      case False
      then show ?thesis using init_once [OF ok Initing] Initing by auto
    qed
  qed (use e in simp_all)
qed

lemma advance_lookup:
  assumes ok: "threads_ok new T0 p s" and init: "tag_tree_inited s"
    and q: "p t = Inited c \<or> p t = Ready c \<or> p t = Searching c \<or> (\<exists>a. p t = Found c a)"
  shows "case advance (p t) (s\<lparr>self := t\<rparr>) of
     Inr (q, s') \<Rightarrow> threads_ok new T0 (p(t := q)) s'
   | Inl e \<Rightarrow> e = Blocked"
proof -
  have l: "lock_agrees p (tag_tree_mtx (s\<lparr>self := t\<rparr>))" using ok by (simp add: threads_ok_def)
  have w: "thread_ok (doomed p) s t (p t)" using ok init by (simp add: threads_ok_def world_def)
  consider "p t = Inited c" | "p t = Ready c" | "p t = Searching c" | a where "p t = Found c a" using q by blast
  then show ?thesis
  proof cases
    case 1
    obtain s' where s': "RW_UNLOCK (s\<lparr>self := t\<rparr>) = Inr s'" using lock_held [OF l, of t] 1 by auto
    note r = lock_back [OF s' l, of t "Ready c"]
    have "threads_ok new T0 (p(t := Ready c)) s'" by (rule threads_ok_lock [OF ok, of _ t]) (use r 1 init in auto)
    then show ?thesis using 1 s' by simp
  next
    case 2
    show ?thesis
    proof (cases "(if exclusive c then RW_WRLOCK (s\<lparr>self := t\<rparr>) else RW_RDLOCK (s\<lparr>self := t\<rparr>))")
      case (Inl x)
      then show ?thesis using 2 by (auto simp: RW_WRLOCK_def RW_RDLOCK_def split: rwlock.splits if_splits)
    next
      case (Inr s')
      let ?q = "case c of Make x \<Rightarrow> Making x | _ \<Rightarrow> Searching c"
      have q: "writing ?q = exclusive c" "reading ?q = (\<not> exclusive c)" "dying ?q = None" "thread_ok E s t ?q" for E
        by (simp_all add: exclusive_def creates_def split: call.split)
      have "s' = s\<lparr>self := t, tag_tree_mtx := tag_tree_mtx s'\<rparr> \<and> lock_agrees (p(t := ?q)) (tag_tree_mtx s')"
        using Inr lock_write [OF _ l, of s' ?q t] lock_read [OF _ l, of s' t ?q] 2 q by (auto split: if_splits)
      then have "threads_ok new T0 (p(t := ?q)) s'" by (intro threads_ok_lock [OF ok, of _ t]) (use 2 init q in auto)
      then show ?thesis using 2 Inr by simp
    qed
  next
    case 3
    then show ?thesis using find_ok [OF ok init 3] by auto
  next
    case (4 a)
    show ?thesis
    proof (cases "drops c \<and> a \<noteq> NULL")
      case True
      then obtain n where n: "tags_heap s a = Some n" "a \<noteq> NULL" "a \<notin> doomed p" using w 4 by (auto simp: points_def)
      have "threads_ok new T0 (p(t := Taken a)) (s\<lparr>self := t, tags_heap := (tags_heap s)(a \<mapsto> n\<lparr>mtx := Some t, cb := cb n, data := data n\<rparr>)\<rparr>)"
        if "mtx n = None"
        by (rule threads_ok_touch [OF ok init n(1,2), where t = t and m = "Some t" and c = "cb n" and d = "data n" and me = t])
          (use 4 True that n in \<open>auto simp: held_by_def exclusive_def\<close>)
      then show ?thesis using 4 True mutex_taken(1) [OF n(1,2), of t] by simp
    next
      case False
      obtain s' where s': "RW_UNLOCK (s\<lparr>self := t\<rparr>) = Inr s'" using lock_held [OF l, of t] 4 by auto
      let ?q = "if a = NULL then Done (missing_result c) else Has c a"
      note r = lock_back [OF s' l, of t ?q]
      have "threads_ok new T0 (p(t := ?q)) s'" by (rule threads_ok_lock [OF ok, of _ t]) (use r 4 False init in auto)
      then show ?thesis using 4 False s' by (cases "a = NULL") auto
    qed
  qed
qed

text \<open>Creating a node.\<close>

lemma memory_metatag:
  assumes "memory_left s" and "store_but E s T"
  shows "names_total T < 2 ^ 64" and "alloc_ready 4 s" and "alloc_ready 3 s"
  using assms names_in_memory [OF assms(2)] alloc_ready_le [of 4 s 3] by (auto simp: memory_left_def)

lemma alloc_ready_self [simp]: "alloc_ready n (s\<lparr>self := t\<rparr>) = alloc_ready n s"
  by (simp add: alloc_ready_def)

lemma threads_ok_kept:
  assumes ok: "threads_ok new T0 p s" and init: "tag_tree_inited s" and t: "writing (p t)" "writing q" "dying q = dying (p t)"
    and k: "kept (doomed p) s s'" "env (s\<lparr>self := t\<rparr>) s'"
    and T: "store_but (doomed p) s' T" "tags_of new T0 T" and q: "thread_ok (doomed p) s' t q"
  shows "threads_ok new T0 (p(t := q)) s'"
proof -
  have l: "lock_agrees p (tag_tree_mtx s)" and w: "world new T0 p s" using ok init by (simp_all add: threads_ok_def)
  have "\<not> writing (p t') \<and> \<not> reading (p t')" if "t' \<noteq> t" for t'
    using lock_alone(2,3) [OF l t(1)] that by blast
  moreover have "objs (types s) \<subseteq>\<^sub>m objs (types s')" "stack (types s') = stack (types s)" using k(2) by (simp_all add: env_def)
  ultimately have "world new T0 (p(t := q)) s'" by (intro world_kept [OF w _ k(1) _ _ T t(3) q])
  moreover have "\<not> reading q" "\<not> reading (p t)" using not_both [of q] not_both [of "p t"] t by simp_all
  then have "lock_agrees (p(t := q)) (tag_tree_mtx s)" using lock_same [of q p t, OF _ _ l] t by simp
  ultimately show ?thesis using init k(2) by (simp add: threads_ok_def env_def)
qed

lemma build_ok:
  assumes ok: "threads_ok True T0 p s" and init: "tag_tree_inited s" and t: "writing (p t)" "dying (p t) = None" and mem: "memory_left s"
    and q: "\<And>a. writing (q a) \<and> dying (q a) = None" "\<And>a s'. points s' a 1 \<Longrightarrow> a \<notin> doomed p \<Longrightarrow> thread_ok (doomed p) s' t (q a)"
  shows "case tag_tree_metanode_create (s\<lparr>self := t\<rparr>) of
     Inr (a, s') \<Rightarrow> threads_ok True T0 (p(t := q a)) s' \<and> kept (doomed p) s s'
   | Inl e \<Rightarrow> e = Blocked"
proof -
  let ?s = "s\<lparr>self := t\<rparr>"
  obtain T where T: "store_but (doomed p) s T" "tags_of True T0 T" using ok init by (auto simp: threads_ok_def world_def)
  have st: "store_but (doomed p) ?s T" using T(1) by simp
  note mem = memory_metatag [OF mem T(1)]
  have "alloc_ready 4 ?s" using mem(2) by simp
  note c = metanode_create_spec [OF st mem(1) this]
  show ?thesis
  proof (cases "locked T 1")
    case True
    then show ?thesis using c by simp
  next
    case False
    then obtain a s' where a: "tag_tree_metanode_create ?s = Inr (a, s')" "store_but (doomed p) s' (T(1 \<mapsto> metatag T (dirt ?s)))"
      "points s' a 1" "env ?s s'" "kept (doomed p) ?s s'" "a \<notin> doomed p" using c by auto
    have k: "kept (doomed p) s s'" using a(5) by (simp add: kept_def)
    have "tags_of True T0 (T(1 \<mapsto> metatag T (dirt ?s)))" using T(2) by (auto simp: tags_of_def)
    from threads_ok_kept [OF ok init t(1) _ _ k a(4,2) this, of "q a"] q(1) [of a] q(2) [OF a(3,6)] t(2) a(1) k
    show ?thesis by simp
  qed
qed

lemma advance_build:
  assumes ok: "threads_ok True T0 p s" and init: "tag_tree_inited s" and t: "p t = Building c" and mem: "memory_left s"
  shows "case advance (p t) (s\<lparr>self := t\<rparr>) of
     Inr (q, s') \<Rightarrow> threads_ok True T0 (p(t := q)) s' \<and> kept (doomed p) s s'
   | Inl e \<Rightarrow> e = Blocked"
proof -
  have "thread_ok (doomed p) s t (p t)" using ok init by (simp add: threads_ok_def world_def)
  then have c: "creates c" using t by simp
  have "case tag_tree_metanode_create (s\<lparr>self := t\<rparr>) of
     Inr (a, s') \<Rightarrow> threads_ok True T0 (p(t := Found c a)) s' \<and> kept (doomed p) s s' | Inl e \<Rightarrow> e = Blocked"
    by (rule build_ok [OF ok init]) (use t c mem in \<open>auto simp: exclusive_def creates_def\<close>)
  then show ?thesis using t by (cases "tag_tree_metanode_create (s\<lparr>self := t\<rparr>)") auto
qed

lemma advance_make:
  assumes ok: "threads_ok True T0 p s" and init: "tag_tree_inited s" and t: "p t = Making x" and mem: "memory_left s"
  shows "case advance (p t) (s\<lparr>self := t\<rparr>) of
     Inr (q, s') \<Rightarrow> threads_ok True T0 (p(t := q)) s' \<and> kept (doomed p) s s'
   | Inl e \<Rightarrow> e = Blocked \<or> (\<exists>u. e = Undef u \<and> goes_wrong (p t) t s u)"
proof (cases "x = ''@tags''")
  case True
  have "case tag_tree_metanode_create (s\<lparr>self := t\<rparr>) of
     Inr (a, s') \<Rightarrow> threads_ok True T0 (p(t := Numbered a)) s' \<and> kept (doomed p) s s' | Inl e \<Rightarrow> e = Blocked"
    by (rule build_ok [OF ok init]) (use t mem in auto)
  then show ?thesis using t True by (cases "tag_tree_metanode_create (s\<lparr>self := t\<rparr>)") auto
next
  case False
  let ?s = "s\<lparr>self := t\<rparr>" and ?new = "new_tag x (Simple TAG_LINT) (Some t)"
  obtain T where T: "store_but (doomed p) s T" "tags_of True T0 T" using ok init by (auto simp: threads_ok_def world_def)
  then have st: "store_but (doomed p) ?s T" "2 \<le> stack (types s)" by (simp_all add: store_but_def)
  note mem = memory_metatag [OF mem T(1)]
  have c: "case tag_tree_node_create (CStr x) (SIMPLE_TYPE TAG_LINT) ?s of
     Inl e \<Rightarrow> create_stops e ?s T (Simple TAG_LINT)
   | Inr (a, s') \<Rightarrow> fresh_id T < 2 ^ 31 \<and> \<not> locked T 1 \<and> env ?s s'
       \<and> store_but (doomed p) s' (T(1 := None, fresh_id T \<mapsto> new_tag x (Simple TAG_LINT) (Some (self ?s)))) \<and> points s' a (fresh_id T)
       \<and> tree_size s' = tree_size ?s + 1 - (if T 1 = None then 0 else 1) \<and> consumes (3 + blocks (Simple TAG_LINT)) ?s s'
       \<and> kept (doomed p) ?s s' \<and> a \<notin> doomed p"
    by (rule node_create_spec [OF st(1)]) (use st(2) in simp_all)
  have lint: "type_new_simple TAG_LINT = SIMPLE_TYPE TAG_LINT" by (simp add: type_new_simple_def)
  show ?thesis
  proof (cases "tag_tree_node_create (CStr x) (SIMPLE_TYPE TAG_LINT) ?s")
    case (Inl e)
    then have "create_stops e ?s T (Simple TAG_LINT)" using c by simp
    then have "e = Blocked \<or> e = Undef SignedOverflow" using mem(3) by (auto simp: create_stops_def)
    then show ?thesis using t False Inl lint by (auto simp: goes_wrong_def)
  next
    case (Inr y)
    then obtain a s' where a: "tag_tree_node_create (CStr x) (SIMPLE_TYPE TAG_LINT) ?s = Inr (a, s')" "env ?s s'"
      "store_but (doomed p) s' (T(1 := None, fresh_id T \<mapsto> ?new))" "points s' a (fresh_id T)" "kept (doomed p) ?s s'" "a \<notin> doomed p"
      using c by (cases y) auto
    have k: "kept (doomed p) s s'" using a(5) by (simp add: kept_def)
    have tags: "tags_of True T0 (T(1 := None, fresh_id T \<mapsto> ?new))"
      using T(2) by (auto simp: tags_of_def new_tag_def split: if_splits)
    have "held_by s' t a"
    proof -
      obtain b n where b: "points s' b (fresh_id T)" "tags_heap s' b = Some n" "node_is (types s') n ?new" "b \<notin> doomed p"
        using store_tag [OF a(3), of "fresh_id T" ?new] by auto
      have "b = a" using points_unique [OF a(3) b(1) a(4) b(4) a(6)] .
      then show ?thesis using b by (auto simp: held_by_def points_def node_is_def new_tag_def)
    qed
    then have "threads_ok True T0 (p(t := Made a)) s'"
      using threads_ok_kept [OF ok init _ _ _ k a(2,3) tags, of "Made a"] t a(6) by simp
    then show ?thesis using t False lint a(1) k by simp
  qed
qed

lemma advance_made:
  assumes ok: "threads_ok new T0 p s" and init: "tag_tree_inited s" and t: "p t = Made a \<or> p t = Numbered a"
  shows "\<exists>q s'. advance (p t) (s\<lparr>self := t\<rparr>) = Inr (q, s') \<and> threads_ok new T0 (p(t := q)) s'"
proof -
  have l: "lock_agrees p (tag_tree_mtx (s\<lparr>self := t\<rparr>))" using ok by (simp add: threads_ok_def)
  have w: "thread_ok (doomed p) s t (p t)" using ok init by (simp add: threads_ok_def world_def)
  from t show ?thesis
  proof
    assume t: "p t = Made a"
    then obtain n where n: "tags_heap s a = Some n" "a \<noteq> NULL" "mtx n = Some t" "a \<notin> doomed p" using w by (auto simp: held_by_def)
    let ?s = "s\<lparr>self := t, tags_heap := (tags_heap s)(a \<mapsto> n\<lparr>mtx := None, cb := cb n, data := data n\<rparr>)\<rparr>"
    have "threads_ok new T0 (p(t := Numbered a)) ?s"
      by (rule threads_ok_touch [OF ok init n(1,2), where t = t and m = None and c = "cb n" and d = "data n" and me = t])
        (use t n in \<open>auto simp: points_def\<close>)
    then show ?thesis using t n mutex_taken(2) [OF n(1,2), of t] by simp
  next
    assume t: "p t = Numbered a"
    then obtain n where n: "tags_heap s a = Some n" "a \<noteq> NULL" using w by (auto simp: points_def)
    obtain s' where s': "RW_UNLOCK (s\<lparr>self := t\<rparr>) = Inr s'" using lock_held [OF l, of t] t by auto
    note r = lock_back [OF s' l, of t "Done (uint (tag_id n))"]
    have "threads_ok new T0 (p(t := Done (uint (tag_id n)))) s'"
      by (rule threads_ok_lock [OF ok, of _ t]) (use r t init in auto)
    then show ?thesis using t n s' by (simp add: get_node_def)
  qed
qed

lemma threads_ok_events: "threads_ok new T0 p (s\<lparr>events := es\<rparr>) = threads_ok new T0 p s"
  by (simp add: threads_ok_def alloc_ready_def)

lemma advance_inside:
  assumes ok: "threads_ok new T0 p s" and init: "tag_tree_inited s" and q: "p t = Inside a w" "good_work w"
  shows "case advance (p t) (s\<lparr>self := t\<rparr>) of
     Inr (q, s') \<Rightarrow> threads_ok new T0 (p(t := q)) s'
   | Inl e \<Rightarrow> \<exists>u. e = Undef u \<and> goes_wrong (p t) t s u"
proof -
  have h: "held_by s t a" using ok init q(1) by (auto simp: threads_ok_def world_def dest!: spec [of _ t])
  then obtain n where n: "tags_heap s a = Some n" "a \<noteq> NULL" "mtx n = Some t" by (auto simp: held_by_def)
  obtain u where "node_is (types (s\<lparr>self := t\<rparr>)) n u" using world_node [of new T0 p s a n] ok init n(1) by (auto simp: threads_ok_def)
  note work = good_workD [OF q(2) n(2) _ this]
  show ?thesis
  proof (cases "w a (s\<lparr>self := t\<rparr>)")
    case (Inl e)
    then show ?thesis using work(1) n(1) q(1) h by (auto simp: goes_wrong_def)
  next
    case (Inr x)
    then obtain c d es where x: "length d = length (data n)"
      "snd x = s\<lparr>self := t, tags_heap := (tags_heap s)(a \<mapsto> n\<lparr>cb := c, data := d\<rparr>), events := es\<rparr>"
      using work(2) [of "fst x" "snd x"] n(1) by (auto simp: node_only_def)
    have same: "n\<lparr>mtx := mtx n, cb := c, data := d\<rparr> = n\<lparr>cb := c, data := d\<rparr>" by (cases n) simp
    have "threads_ok new T0 (p(t := Leaving a (fst x)))
        (s\<lparr>self := t, tags_heap := (tags_heap s)(a \<mapsto> n\<lparr>mtx := mtx n, cb := c, data := d\<rparr>)\<rparr>)"
      by (rule threads_ok_touch [OF ok init n(1,2), where t = t and me = t]) (use q(1) n x(1) in \<open>auto simp: held_by_def\<close>)
    then have "threads_ok new T0 (p(t := Leaving a (fst x))) (snd x)" unfolding same x(2) by (simp add: threads_ok_events)
    then show ?thesis using q(1) Inr by (cases x) simp
  qed
qed

lemma advance_locked:
  assumes ok: "threads_ok new T0 p s" and init: "tag_tree_inited s"
    and q: "(\<exists>r. p t = Leaving a r) \<or> p t = Released a \<or> p t = Doomed a"
  shows "case advance (p t) (s\<lparr>self := t\<rparr>) of
     Inr (q, s') \<Rightarrow> threads_ok new T0 (p(t := q)) s'
   | Inl e \<Rightarrow> e = Blocked"
proof -
  have w: "thread_ok (doomed p) s t (p t)" using ok init by (simp add: threads_ok_def world_def)
  note touch = threads_ok_touch [OF ok init, where t = t and me = t]
  consider r where "p t = Leaving a r" | "p t = Released a" | "p t = Doomed a" using q by blast
  then show ?thesis
  proof cases
    case (1 r)
    then obtain n where n: "tags_heap s a = Some n" "a \<noteq> NULL" "mtx n = Some t" using w by (auto simp: held_by_def)
    have "threads_ok new T0 (p(t := Done r))
        (s\<lparr>self := t, tags_heap := (tags_heap s)(a \<mapsto> n\<lparr>mtx := None, cb := cb n, data := data n\<rparr>)\<rparr>)"
      by (rule touch [OF n(1,2), where m = None and c = "cb n" and d = "data n"]) (use 1 n in auto)
    then show ?thesis using 1 n mutex_taken(2) [OF n(1,2), of t] by simp
  next
    case 2
    then obtain n where n: "tags_heap s a = Some n" "a \<noteq> NULL" "mtx n = Some t" using w by (auto simp: held_by_def)
    have "threads_ok new T0 (p(t := Doomed a)) (s\<lparr>self := t, tags_heap := (tags_heap s)(a \<mapsto> n\<lparr>mtx := None, cb := cb n, data := data n\<rparr>)\<rparr>)"
      by (rule touch [OF n(1,2), where m = None and c = "cb n" and d = "data n"]) (use 2 n in auto)
    then show ?thesis using 2 n mutex_taken(2) [OF n(1,2), of t] by simp
  next
    case 3
    then have "dying (p t) = Some a" by simp
    then have "a \<in> doomed p" unfolding doomed_def by blast
    then obtain n where n: "tags_heap s a = Some n" "a \<noteq> NULL" using ok init by (auto simp: threads_ok_def world_def)
    have "threads_ok new T0 (p(t := Owned a)) (s\<lparr>self := t, tags_heap := (tags_heap s)(a \<mapsto> n\<lparr>mtx := Some t, cb := cb n, data := data n\<rparr>)\<rparr>)"
      if "mtx n = None" by (rule touch [OF n(1,2), where m = "Some t" and c = "cb n" and d = "data n"]) (use 3 n that in \<open>auto simp: held_by_def\<close>)
    then show ?thesis using 3 n mutex_taken(1) [OF n(1,2), of t] by simp
  qed
qed

lemma advance_remove:
  assumes ok: "threads_ok new T0 p s" and init: "tag_tree_inited s"
    and q: "p t = Taken a \<or> p t = Unlinked a \<or> p t = Owned a"
  shows "\<exists>q s'. advance (p t) (s\<lparr>self := t\<rparr>) = Inr (q, s') \<and> threads_ok new T0 (p(t := q)) s'"
proof -
  have l: "lock_agrees p (tag_tree_mtx (s\<lparr>self := t\<rparr>))" using ok by (simp add: threads_ok_def)
  have w: "world new T0 p (s\<lparr>self := t\<rparr>)" using ok init by (simp add: threads_ok_def)
  consider "p t = Taken a" | "p t = Unlinked a" | "p t = Owned a" using q by blast
  then show ?thesis
  proof cases
    case 1
    then have "writing (p t)" by simp
    note alone = lock_alone [OF l this]
    then obtain s' where s': "tag_tree_unlink a (s\<lparr>self := t\<rparr>) = Inr s'" "relinked (s\<lparr>self := t\<rparr>) s'"
      "world new T0 (p(t := Unlinked a)) s'" using world_unlink [OF w 1] by blast
    moreover have "lock_agrees (p(t := Unlinked a)) (tag_tree_mtx s)" using lock_same [of "Unlinked a" p t] 1 l by simp
    ultimately have "threads_ok new T0 (p(t := Unlinked a)) (s'\<lparr>tree_size := tree_size s' - 1\<rparr>)"
      using relinked_other [OF s'(2)] init by (simp add: threads_ok_def)
    then show ?thesis using 1 s'(1) by simp
  next
    case 2
    obtain s' where s': "RW_UNLOCK (s\<lparr>self := t\<rparr>) = Inr s'" using lock_held [OF l, of t] 2 by auto
    note r = lock_back [OF s' l, of t "Released a"]
    have "thread_ok (doomed p) s t (p t)" using ok init by (simp add: threads_ok_def world_def)
    then have "threads_ok new T0 (p(t := Released a)) s'" by (intro threads_ok_lock [OF ok, of _ t]) (use r 2 init in auto)
    then show ?thesis using 2 s' by simp
  next
    case 3
    then obtain s' n x where s': "get_node (s\<lparr>self := t\<rparr>) a = Inr n" "name n = CStr x" "free_node a (s\<lparr>self := t\<rparr>) = Inr s'"
      "world new T0 (p(t := Done (uint PLCTAG_STATUS_OK))) s'" "s' = s\<lparr>self := t, tags_heap := tags_heap s'\<rparr>"
      and m: "mtx n = Some t"
      using world_free [OF w 3, of "uint PLCTAG_STATUS_OK"] by auto
    have "self s' = t" by (subst s'(5)) simp
    note copy = MTX_UNLOCK_copy_def mutex_destroy_copy_def m this
    have "lock_agrees (p(t := Done (uint PLCTAG_STATUS_OK))) (tag_tree_mtx s)"
      using lock_same [of "Done (uint PLCTAG_STATUS_OK)" p t] 3 l by simp
    moreover have "tag_tree_mtx s' = tag_tree_mtx s" "tag_tree_inited s'" using init by (subst s'(5), simp)+
    ultimately have "threads_ok new T0 (p(t := Done (uint PLCTAG_STATUS_OK))) s'" using s'(4) by (simp add: threads_ok_def)
    then show ?thesis using 3 s'(1-3) by (simp add: free_string_def copy)
  qed
qed

lemma advance_pointer:
  assumes ok: "threads_ok new T0 p s" and init: "tag_tree_inited s" and t: "p t = Has c a"
  shows "case advance (p t) (s\<lparr>self := t\<rparr>) of
     Inr (q, s') \<Rightarrow> threads_ok new T0 (p(t := q)) s'
   | Inl e \<Rightarrow> e = Blocked \<or> (\<exists>u. e = Undef u \<and> goes_wrong (p t) t s u)"
proof -
  have a: "a \<noteq> NULL" "\<not> drops c" using ok init t by (auto simp: threads_ok_def world_def dest!: spec [of _ t])
  note touch = threads_ok_touch [OF ok init _ a(1), where t = t and me = t]
  show ?thesis
  proof (cases "tags_heap s a")
    case None
    have idle: "threads_ok new T0 (p(t := Done (uint PLCTAG_STATUS_OK))) (s\<lparr>self := t\<rparr>)"
    proof (rule threads_ok_lock [OF ok, of _ t])
      show "lock_agrees (p(t := Done (uint PLCTAG_STATUS_OK))) (tag_tree_mtx (s\<lparr>self := t\<rparr>))"
        using lock_same [of "Done (uint PLCTAG_STATUS_OK)" p t] t ok by (simp add: threads_ok_def)
    qed (use t init in simp_all)
    then show ?thesis using t a None mutex_gone [of "s\<lparr>self := t\<rparr>" a] by (cases c) (simp_all add: goes_wrong_def)
  next
    case (Some n)
    have idle: "threads_ok new T0 (p(t := Done (uint PLCTAG_STATUS_OK))) (s\<lparr>self := t\<rparr>)"
    proof (rule threads_ok_lock [OF ok, of _ t])
      show "lock_agrees (p(t := Done (uint PLCTAG_STATUS_OK))) (tag_tree_mtx (s\<lparr>self := t\<rparr>))"
        using lock_same [of "Done (uint PLCTAG_STATUS_OK)" p t] t ok by (simp add: threads_ok_def)
    qed (use t init in simp_all)
    have take: "threads_ok new T0 (p(t := q)) (s\<lparr>self := t, tags_heap := (tags_heap s)(a \<mapsto> n\<lparr>mtx := Some t, cb := cb n, data := data n\<rparr>)\<rparr>)"
      if "mtx n = None" "q = Done (uint PLCTAG_STATUS_OK) \<or> (\<exists>f. q = Inside a f)" for q
      by (rule touch [OF Some, where m = "Some t" and c = "cb n" and d = "data n"]) (use t that a in \<open>auto simp: held_by_def\<close>)
    have give: "threads_ok new T0 (p(t := Done (uint PLCTAG_STATUS_OK)))
        (s\<lparr>self := t, tags_heap := (tags_heap s)(a \<mapsto> n\<lparr>mtx := None, cb := cb n, data := data n\<rparr>)\<rparr>)" if "mtx n = Some t"
      by (rule touch [OF Some, where m = None and c = "cb n" and d = "data n"]) (use t that in auto)
    show ?thesis using idle take give t a Some mutex_taken [OF Some a(1), of t]
      by (cases c) (simp_all add: goes_wrong_def)
  qed
qed

theorem threads_ok_advance:
  assumes ok: "threads_ok new T0 p s" and good: "pc_good (p t)" and make: "new \<or> \<not> pc_creates (p t)"
    and mem: "allocates (p t) \<longrightarrow> memory_left s"
  shows "case advance (p t) (s\<lparr>self := t\<rparr>) of
     Inr (q, s') \<Rightarrow> threads_ok new T0 (p(t := q)) s'
   | Inl e \<Rightarrow> e = Blocked \<or> (\<exists>u. e = Undef u \<and> goes_wrong (p t) t s u)"
proof (cases "tag_tree_inited s")
  case False
  then have "early (p t)" using ok by (simp add: threads_ok_def)
  from advance_early [OF ok this] show ?thesis by (auto split: sum.splits)
next
  case True
  have create: ?thesis if "allocates (p t)"
  proof -
    have new: new using make that by (cases "p t") auto
    then have "threads_ok True T0 p s" using ok by simp
    note steps = advance_build [OF this True _ mem [rule_format, OF that]] advance_make [OF this True _ mem [rule_format, OF that]]
    from that consider c where "p t = Building c" | x where "p t = Making x" by (cases "p t") auto
    then show ?thesis
      by cases (use steps [of t] new in \<open>auto split: sum.splits simp del: advance.simps\<close>)
  qed
  note found = advance_lookup [OF ok True, of t] advance_locked [OF ok True, of t] advance_remove [OF ok True, of t]
    advance_pointer [OF ok True, of t] advance_early [OF ok, of t] advance_inside [OF ok True, of t] advance_made [OF ok True, of t]
  show ?thesis
    by (cases "allocates (p t)", rule create, assumption, cases "p t")
      (use found good in \<open>force split: sum.splits simp del: advance.simps\<close>)+
qed

end
