(* ===== verification/Thread_Props.thy ===== *)
theory Thread_Props
  imports Threads Lock_Props
begin

text \<open>
  What holds of every interleaving of calls, and what can go wrong in one: the properties of \<open>Threads\<close>.
\<close>

section \<open>The steps are the functions\<close>

text \<open>What follows the initialisation in each function.\<close>

definition give_number :: "addr \<Rightarrow> lib \<Rightarrow> stop + int \<times> lib" where
  "give_number a s = bindE (get_node s a) (\<lambda>n. bindE (RW_UNLOCK s) (\<lambda>s. Inr (uint (tag_id n), s)))"

definition on_node :: "call \<Rightarrow> addr \<Rightarrow> lib \<Rightarrow> stop + int \<times> lib" where
  "on_node c a s =
     (if a = NULL then bindE (RW_UNLOCK s) (\<lambda>s. Inr (missing_result c, s))
     else case c of
       Drop i \<Rightarrow> bindE (MTX_LOCK a s) (\<lambda>s. bindE (tag_tree_unlink a s) (\<lambda>s.
         bindE (RW_UNLOCK (s\<lparr>tree_size := tree_size s - 1\<rparr>)) (\<lambda>s. bindE (MTX_UNLOCK a s) (\<lambda>s.
         bindE (tag_tree_node_destroy a s) (\<lambda>s. Inr (uint PLCTAG_STATUS_OK, s))))))
     | Hold i \<Rightarrow> bindE (RW_UNLOCK s) (\<lambda>s. bindE (MTX_LOCK a s) (\<lambda>s. Inr (uint PLCTAG_STATUS_OK, s)))
     | Release i \<Rightarrow> bindE (RW_UNLOCK s) (\<lambda>s. bindE (MTX_UNLOCK a s) (\<lambda>s. Inr (uint PLCTAG_STATUS_OK, s)))
     | Probe i \<Rightarrow> bindE (RW_UNLOCK s) (\<lambda>s. Inr (uint PLCTAG_STATUS_OK, s))
     | Work i m w \<Rightarrow> bindE (RW_UNLOCK s) (\<lambda>s. bindE (MTX_LOCK a s) (\<lambda>s. bindE (w a s) (\<lambda>(r, s).
         bindE (MTX_UNLOCK a s) (\<lambda>s. Inr (r, s)))))
     | Make x \<Rightarrow> bindE (RW_UNLOCK s) (\<lambda>s. Inl Blocked))"

definition on_tree :: "call \<Rightarrow> lib \<Rightarrow> stop + int \<times> lib" where
  "on_tree c s = bindE (tag_tree_find (call_id c) s) (\<lambda>a.
     bindE (if a = NULL \<and> creates c then tag_tree_metanode_create s else Inr (a, s)) (\<lambda>(a, s). on_node c a s))"

definition after_init :: "call \<Rightarrow> lib \<Rightarrow> stop + int \<times> lib" where
  "after_init c s =
     bindE (if exclusive c then RW_WRLOCK s else RW_RDLOCK s) (\<lambda>s.
     case c of
       Make x \<Rightarrow> if x = ''@tags'' then bindE (tag_tree_metanode_create s) (\<lambda>(a, s). give_number a s)
         else bindE (tag_tree_node_create (CStr x) (type_new_simple TAG_LINT) s) (\<lambda>(a, s).
           bindE (MTX_UNLOCK a s) (give_number a))
     | _ \<Rightarrow> on_tree c s)"

lemma bindE_eqI: "(\<And>x. m = Inr x \<Longrightarrow> f x = g x) \<Longrightarrow> bindE m f = bindE m g"
  by (cases m) auto

lemma finish_found: "finish (6 + k) (Found c a) s = on_node c a s"
  by (cases c) (auto simp: on_node_def eval_nat_numeral bindE_assoc tag_tree_node_destroy_def intro!: bindE_eqI)

lemma finish_Suc: "\<nexists>r. q = Done r \<Longrightarrow> finish (Suc k) q s = bindE (advance q s) (\<lambda>(q, s). finish k q s)"
  by (cases q) auto

lemma finish_searching: "finish (8 + k) (Searching c) s = on_tree c s"
proof -
  have "finish (Suc (6 + Suc k)) (Searching c) s = on_tree c s"
  proof (subst finish_Suc, simp, unfold advance.simps on_tree_def bindE_assoc, rule bindE_eqI)
    fix a
    have "finish (6 + Suc k) (Building c) s = bindE (tag_tree_metanode_create s) (\<lambda>(a, s). on_node c a s)"
      using finish_found [of k c] finish_Suc [of "Building c" "6 + k" s] by (simp add: bindE_assoc split_def)
    then show "bindE (Inr (if a = NULL \<and> creates c then Building c else Found c a, s)) (\<lambda>(q, s). finish (6 + Suc k) q s)
        = bindE (if a = NULL \<and> creates c then tag_tree_metanode_create s else Inr (a, s)) (\<lambda>(a, s). on_node c a s)"
      using finish_found [of "Suc k" c a s] by simp
  qed
  then show ?thesis by simp
qed

lemma finish_ready: "finish (9 + k) (Ready c) s = after_init c s"
proof (cases "\<exists>x. c = Make x")
  case True
  then show ?thesis
    by (auto simp: after_init_def give_number_def eval_nat_numeral bindE_assoc intro!: bindE_eqI)
next
  case False
  have "finish (Suc (8 + k)) (Ready c) s = after_init c s"
    unfolding after_init_def using False
    by (subst finish_Suc, simp, cases c) (auto simp: finish_searching bindE_assoc intro!: bindE_eqI)
  then show ?thesis by simp
qed

lemma finish_init:
  assumes "\<not> no_op c" and "\<And>s. finish m (Ready c) s = g s" and "\<And>s. finish (Suc (Suc (Suc m))) (Ready c) s = g s"
  shows "finish (Suc (Suc (Suc (Suc (Suc m))))) (Begun c) s = bindE (tag_tree_init s) g"
  using assms by (auto simp: tag_tree_init_def bindE_assoc Let_def simp del: finish.simps(3) intro!: bindE_eqI)

lemma finish_begun: "\<not> no_op c \<Longrightarrow> finish 14 (Begun c) s = bindE (tag_tree_init s) (after_init c)"
  using finish_init [of c 9 "after_init c" s] finish_ready [of 0 c] finish_ready [of 3 c] by simp

lemma fun_after_init: "\<not> no_op c \<Longrightarrow> call_fun c s = bindE (tag_tree_init s) (after_init c)"
  by (cases c)
    (auto simp: after_init_def on_tree_def on_node_def bindE_assoc bits_bindE plc_tag_lock_def plc_tag_unlock_def plc_tag_status_def plc_tag_destroy_def
      locked_call_def tag_tree_lookup_def tag_tree_remove_def tag_tree_insert_def is_metatag_name_def strlen_def give_number_def
      exclusive_def creates_def intro!: bindE_eqI)

lemma finish_call: "finish 14 (Begun c) s = call_fun c s"
proof (cases "no_op c")
  case True
  then have "c = Drop METATAG_ID" by (cases c) simp_all
  moreover have "finish 14 (Begun (Drop METATAG_ID)) s = Inr (uint PLCTAG_STATUS_OK, s)" by (simp add: eval_nat_numeral)
  ultimately show ?thesis by (simp add: plc_tag_destroy_def tag_tree_remove_def bits_def)
next
  case False
  then show ?thesis by (simp add: finish_begun fun_after_init)
qed

text \<open>The calls of the functions that work under the mutex of the tag.\<close>

definition get_call :: "(c_int \<Rightarrow> 'a::len word) \<Rightarrow> client \<Rightarrow> c_int \<Rightarrow> c_int \<Rightarrow> call" where
  "get_call conv cl i offset = Work i (uint (conv PLCTAG_ERR_NOT_FOUND)) (get_work conv cl i offset)"

definition set_call :: "client \<Rightarrow> c_int \<Rightarrow> c_int \<Rightarrow> 'a::len word \<Rightarrow> call" where
  "set_call cl i offset val = Work i (uint PLCTAG_ERR_NOT_FOUND) (set_work cl i offset val)"

definition read_call :: "client \<Rightarrow> c_int \<Rightarrow> call" where
  "read_call cl i = Work i (uint PLCTAG_ERR_NOT_FOUND) (event_work cl i PLCTAG_EVENT_READ_STARTED PLCTAG_EVENT_READ_COMPLETED)"

definition write_call :: "client \<Rightarrow> c_int \<Rightarrow> call" where
  "write_call cl i = Work i (uint PLCTAG_ERR_NOT_FOUND) (event_work cl i PLCTAG_EVENT_WRITE_STARTED PLCTAG_EVENT_WRITE_COMPLETED)"

definition hook_call :: "c_int \<Rightarrow> addr \<Rightarrow> call" where
  "hook_call i f = Work i (uint PLCTAG_ERR_NOT_FOUND) (register_work f)"

definition get_size_call :: "c_int \<Rightarrow> call" where
  "get_size_call i = Work i (uint PLCTAG_ERR_NOT_FOUND) size_work"

lemmas call_defs = get_call_def set_call_def read_call_def write_call_def hook_call_def get_size_call_def


text \<open>C15: alone, a thread's steps are its call: from any state of the library they give the same result, bit by bit, the same
  state and the same waiting, end of the process and undefined behaviour as the function, within fourteen of them. Creating a tag
  is the copying and parsing of the attributes, and then the steps of the insertion.\<close>

theorem steps_are_calls:
  shows "finish 14 (Begun (Hold i)) s = bits (plc_tag_lock i s)
    \<and> finish 14 (Begun (Release i)) s = bits (plc_tag_unlock i s)
    \<and> finish 14 (Begun (Probe i)) s = bits (plc_tag_status i s)
    \<and> finish 14 (Begun (Drop i)) s = bits (plc_tag_destroy i s)
    \<and> finish 14 (Begun (get_size_call i)) s = bits (plc_tag_get_size i s)
    \<and> finish 14 (Begun (hook_call i f)) s = bits (plc_tag_register_callback i f s)
    \<and> (0 \<le>s timeout \<longrightarrow> finish 14 (Begun (read_call cl i)) s = bits (plc_tag_read cl i timeout s)
        \<and> finish 14 (Begun (write_call cl i)) s = bits (plc_tag_write cl i timeout s))
    \<and> finish 14 (Begun (get_call conv cl i offset)) s = bits (GETTER conv cl i offset s)
    \<and> finish 14 (Begun (set_call cl i offset val)) s = bits (SETTER cl i offset val s)
    \<and> (strdup (CStr attrib) (types s) = Inr (CStr attrib, m) \<longrightarrow> create_loop attrib None = Inr (Inr (Some x)) \<longrightarrow>
        finish 14 (Begun (Make x)) (s\<lparr>types := m\<rparr>) = bits (plc_tag_create (CStr attrib) timeout s))"
proof -
  have "bits (plc_tag_create (CStr attrib) timeout s) = finish 14 (Begun (Make x)) (s\<lparr>types := m\<rparr>)"
    if "strdup (CStr attrib) (types s) = Inr (CStr attrib, m)" "create_loop attrib None = Inr (Inr (Some x))"
  proof -
    have "bindE c Inr = c" for c :: "stop + c_int \<times> lib" by (cases c) auto
    then show ?thesis using that by (simp add: plc_tag_create_def finish_call free_string_def)
  qed
  then show ?thesis
    by (simp add: finish_call call_defs size_locked register_locked read_locked write_locked getter_locked setter_locked)
qed

theorem steps_are_calls_witness:
  "finish 14 (Begun (Drop 5)) (demo_lib 60) = bits (plc_tag_destroy 5 (demo_lib 60))
   \<and> finish 14 (Begun (set_call silent 5 0 (7 :: 16 word))) (demo_lib 60) = bits (plc_tag_set_int16 silent 5 0 7 (demo_lib 60))
   \<and> (\<exists>m. finish 14 (Begun (Make ''x'')) (demo_lib 60\<lparr>types := m\<rparr>) = bits (plc_tag_create (CStr ''name=x'') 0 (demo_lib 60)))"
proof -
  have "create_loop ''name=x'' None = Inr (Inr (Some ''x''))" unfolding create_loop_attributes by code_simp
  moreover have "alloc_ready (Suc 0) (demo_lib 60)" by (rule demo_lib_ready) simp_all
  then have "\<exists>m. strdup (CStr ''name=x'') (types (demo_lib 60)) = Inr (CStr ''name=x'', m)"
    using alloc_ready_Suc [of 0 "demo_lib 60"] by (auto simp: strdup_def malloc_value_cases)
  ultimately show ?thesis
    using steps_are_calls [of 5 "demo_lib 60" 0 0 silent int_to_int 0 "7 :: 16 word" "''name=x''" _ "''x''"]
    unfolding plc_tag_set_int16_def by blast
qed

section \<open>Every interleaving\<close>

abbreviation idle :: "nat \<Rightarrow> pc" where
  "idle \<equiv> \<lambda>_. Done (uint PLCTAG_STATUS_OK)"

lemma threads_ok_start:
  assumes st: "api_store s T" and ready: "alloc_ready (init_cost s) s"
  shows "threads_ok new T idle s"
proof -
  have "lock_agrees idle (tag_tree_mtx s)" using st by (simp add: lock_agrees_def api_store_def)
  moreover have "doomed idle = {}" by (simp add: doomed_def)
  ultimately show ?thesis using st ready tags_of_refl
    by (auto simp: threads_ok_def world_def api_store_def init_cost_def)
qed

lemma threads_ok_begin:
  assumes "threads_ok new T p s" and "p t = Done r"
  shows "threads_ok new T (p(t := Begun c)) s"
  by (rule threads_ok_lock [OF assms(1), where me = "self s"])
    (use assms lock_same [of "Begun c" p t] in \<open>simp_all add: threads_ok_def\<close>)

lemma threads_ok_reaches:
  assumes "reaches (p0, s0) (p, s)" and "threads_ok True T p0 s0" and "\<forall>t. pc_good (p0 t)"
  shows "threads_ok True T p s \<and> (\<forall>t. pc_good (p t))"
  using assms(1)
proof (induction rule: reaches_induct)
  case refl
  show ?case using assms(2,3) by simp
next
  case (call p s t r c)
  then have "threads_ok True T (p(t := Begun c)) s" using threads_ok_begin by blast
  moreover have "\<forall>t'. pc_good ((p(t := Begun c)) t')" using call by simp
  ultimately show ?case by blast
next
  case (move p s t q s')
  then have "threads_ok True T p s" "pc_good (p t)" by simp_all
  from threads_ok_advance [OF this _ move(3)] advance_good [OF move(2) this(2)] have "threads_ok True T (p(t := q)) s'" "pc_good q"
    using move(2) by (simp_all del: fun_upd_apply)
  moreover have "\<forall>t'. pc_good ((p(t := q)) t')" using \<open>pc_good q\<close> move by simp
  ultimately show ?case by blast
qed


section \<open>Lookup and removal at the same time\<close>

lemma same_self: "self s = t \<Longrightarrow> s\<lparr>self := t\<rparr> = s" for s :: lib
  by (cases s) simp

lemma reaches_upd:
  "advance q (s\<lparr>self := t\<rparr>) = Inr (q', s') \<Longrightarrow> reaches (p(t := q'), s') y \<Longrightarrow> \<not> allocates q \<Longrightarrow> reaches (p(t := q), s) y"
  using reaches_move [of "p(t := q)" t s q' s' y] by simp

text \<open>A thread that starts while no lock of the tree is taken.\<close>

lemma not_made: "\<not> creates c \<Longrightarrow> (case c of Make x \<Rightarrow> Making x | _ \<Rightarrow> Searching c) = Searching c" "\<not> creates c \<Longrightarrow> exclusive c = drops c"
  by (auto simp: creates_def exclusive_def split: call.split)

lemma run_to_search:
  assumes free: "tag_tree_mtx s = RW_free" and init: "tag_tree_inited s" and t: "p t = Done r"
    and c: "good_call c" "\<not> creates c" "\<not> no_op c"
    and y: "reaches (p(t := Searching c), s\<lparr>self := t, tag_tree_mtx := (if drops c then RW_write else RW_read 1)\<rparr>) y"
  shows "reaches (p, s) y"
proof -
  have same: "s\<lparr>self := t, tag_tree_mtx := RW_free\<rparr> = s\<lparr>self := t\<rparr>" using free by (cases s) simp
  have 1: "advance (Begun c) (s\<lparr>self := t\<rparr>) = Inr (Checking c, s\<lparr>self := t, tag_tree_mtx := RW_read 1\<rparr>)"
    using free c(3) by (simp add: RW_RDLOCK_def)
  have 2: "advance (Checking c) (s\<lparr>self := t, tag_tree_mtx := RW_read 1, self := t\<rparr>) = Inr (Ready c, s\<lparr>self := t\<rparr>)"
    using init same by (simp add: RW_UNLOCK_def)
  have 3: "advance (Ready c) (s\<lparr>self := t, self := t\<rparr>)
      = Inr (Searching c, s\<lparr>self := t, tag_tree_mtx := (if drops c then RW_write else RW_read 1)\<rparr>)"
    using free c(2) by (simp add: RW_WRLOCK_def RW_RDLOCK_def not_made)
  show ?thesis
    by (rule reaches_begin [of p t r, OF t c(1)], rule reaches_upd, rule 1, rule reaches_upd, rule 2, rule reaches_upd, rule 3, rule y, simp_all)
qed

text \<open>A lookup that nobody disturbs ends with a pointer to the node, and no lock.\<close>

lemma run_to_pointer:
  assumes free: "tag_tree_mtx s = RW_free" and init: "tag_tree_inited s" and t: "p t = Done r"
    and c: "good_call c" "\<not> drops c" "\<not> creates c" and a: "tag_tree_find (call_id c) s = Inr a" "a \<noteq> NULL"
    and y: "reaches (p(t := Has c a), s\<lparr>self := t\<rparr>) y"
  shows "reaches (p, s) y"
proof -
  let ?s = "s\<lparr>self := t, tag_tree_mtx := RW_read 1\<rparr>"
  have same: "s\<lparr>self := t, tag_tree_mtx := RW_free\<rparr> = s\<lparr>self := t\<rparr>" using free by (cases s) simp
  have 1: "advance (Searching c) (?s\<lparr>self := t\<rparr>) = Inr (Found c a, ?s)"
    using a(1) c(3) by (simp add: tag_tree_find_def tree_def)
  have 2: "advance (Found c a) (?s\<lparr>self := t\<rparr>) = Inr (Has c a, s\<lparr>self := t\<rparr>)"
    using c(2) a(2) same by (simp add: RW_UNLOCK_def)
  have "reaches (p(t := Searching c), ?s) y" by (rule reaches_upd, rule 1, rule reaches_upd, rule 2, rule y, simp_all)
  moreover have "\<not> no_op c" using c(2) by (cases c) simp_all
  ultimately show ?thesis using run_to_search [of s p t r, OF free init t c(1,3)] c(2) by simp
qed

lemma demo_running: "\<exists>s. tag_tree_init (demo_lib 60) = Inr s \<and> tag_tree_inited s \<and> api_store s default_store"
  using init_spec [OF demo_lib_store [of 60], of 0] demo_lib_ready [of 60 30] by (auto simp: api_store_def)


text \<open>The first thread locks a tag, undisturbed.\<close>

lemma run_to_held:
  assumes st: "api_store s T" and init: "tag_tree_inited s" and i: "i \<noteq> METATAG_ID"
    and t: "T (sint i) = Some u" "t_mtx u = None"
  obtains a s1 where "reaches (idle, s) (idle, s1)" "tag_tree_mtx s1 = RW_free" "tag_tree_inited s1" "held_by s1 1 a"
    "tag_tree_find i s1 = Inr a"
proof -
  have s: "store_is s T" "tag_tree_mtx s = RW_free" using st init by (simp_all add: api_store_def)
  obtain a n where a: "tag_tree_find i s = Inr a" "points s a (sint i)" "tags_heap s a = Some n" "mtx n = None"
    using store_find [OF s(1), of i] t by (auto simp: node_is_def)
  then have nn: "a \<noteq> NULL" by (simp add: points_def)
  let ?s = "s\<lparr>self := 1\<rparr>"
  obtain s1 where s1: "MTX_LOCK a ?s = Inr s1" "store_is s1 (T(sint i \<mapsto> u\<lparr>t_mtx := Some 1\<rparr>))" "points s1 a (sint i)"
    "tag_tree_mtx s1 = RW_free" "tag_tree_inited s1" "held_by s1 1 a"
    using mtx_lock_spec [of "{}" ?s T "sint i" u a] s a init t nn by (auto simp: Let_def held_by_def)
  have f1: "tag_tree_find i s1 = Inr a"
  proof -
    obtain b where b: "tag_tree_find i s1 = Inr b" "points s1 b (sint i)" using store_find [OF s1(2), of i] by auto
    obtain as where as: "in_tree s1 as" "dom (tags_heap s1) = set as" using s1(2) by (auto simp: store_but_def)
    have "a \<in> set as" "b \<in> set as" "id_of s1 a = id_of s1 b" using as(2) s1(3) b(2) by (auto simp: points_def id_of_def)
    then show ?thesis using in_tree_inj [OF as(1)] b(1) by blast
  qed
  have "advance (Has (Hold i) a) (?s\<lparr>self := 1\<rparr>) = Inr (Done (uint PLCTAG_STATUS_OK), s1)" using s1(1) by simp
  then have "reaches (idle(1 := Has (Hold i) a), ?s) (idle(1 := Done (uint PLCTAG_STATUS_OK)), s1)"
    by (rule reaches_upd) simp_all
  then have "reaches (idle, s) (idle, s1)"
    using run_to_pointer [of s idle 1 "uint PLCTAG_STATUS_OK" "Hold i" a, OF s(2) init] i a(1) nn by (simp add: fun_upd_idem)
  then show thesis using that s1(4-6) f1 by blast
qed

section \<open>What a mutex protects\<close>

lemma locks_of_tree:
  "RW_RDLOCK s = Inr s' \<Longrightarrow> tags_heap s' = tags_heap s" "RW_WRLOCK s = Inr s' \<Longrightarrow> tags_heap s' = tags_heap s"
  "RW_UNLOCK s = Inr s' \<Longrightarrow> tags_heap s' = tags_heap s"
  by (auto simp: RW_RDLOCK_def RW_WRLOCK_def RW_UNLOCK_def split: rwlock.splits if_splits)

lemma mutex_of_another:
  assumes "held_by s t a"
  shows "MTX_LOCK b s = Inr s' \<Longrightarrow> tags_heap s' a = tags_heap s a" "MTX_UNLOCK b s = Inr s' \<Longrightarrow> self s \<noteq> t \<Longrightarrow> tags_heap s' a = tags_heap s a"
  using assms by (auto simp: held_by_def MTX_LOCK_def MTX_UNLOCK_def get_node_def upd_node_def bindE_Inr_iff split: if_splits)

lemma step_of_another:
  assumes ok: "threads_ok True T0 p s" and good: "pc_good (p t')" and a: "held_by s t a" and t: "t' \<noteq> t"
    and mem: "allocates (p t') \<longrightarrow> memory_left s"
    and step: "advance (p t') (s\<lparr>self := t'\<rparr>) = Inr (q, s')"
  shows "\<exists>n n'. tags_heap s a = Some n \<and> tags_heap s' a = Some n' \<and> rb_entry.more n' = rb_entry.more n"
proof -
  obtain n where n: "tags_heap s a = Some n" using a by (auto simp: held_by_def)
  have init: "tag_tree_inited s"
    using ok n by (auto simp: threads_ok_def store_but_def split: if_splits)
  then have w: "thread_ok (doomed p) s t' (p t')" using ok by (simp add: threads_ok_def world_def)
  have a': "held_by (s\<lparr>self := t'\<rparr>) t a" using a by simp
  note frame = locks_of_tree mutex_of_another(1) [OF a'] mutex_of_another(2) [OF a' _ , simplified, OF _ t]
  have other: "b \<noteq> a" if "held_by s t' b" for b using that a t by (auto simp: held_by_def)
  have "tags_heap s' a = tags_heap s a" if "\<nexists>b. p t' = Taken b" "\<not> allocates (p t')"
  proof (cases "p t'")
    case (Inside b f)
    have b: "held_by s t' b" "good_work f" using w good Inside by simp_all
    obtain k where k: "b \<noteq> NULL" "tags_heap (s\<lparr>self := t'\<rparr>) b = Some k" using b(1) by (auto simp: held_by_def)
    have "world True T0 p s" using ok init by (simp add: threads_ok_def)
    then obtain u where "node_is (types (s\<lparr>self := t'\<rparr>)) k u" using world_node [of True T0 p s b k] k(2) by auto
    from good_workD(2) [OF b(2) k this] show ?thesis using step Inside other [OF b(1)] by (auto simp: bindE_Inr_iff node_only_def)
  next
    case (Owned b)
    then have "b \<noteq> a" using w other by simp
    then show ?thesis using step Owned by (auto simp: bindE_Inr_iff free_node_def split: if_splits)
  qed (use step that init in \<open>auto simp: bindE_Inr_iff Let_def dest!: frame split: if_splits call.splits\<close>)
  moreover have "\<exists>n'. tags_heap s' a = Some n' \<and> rb_entry.more n' = rb_entry.more n" if taken: "p t' = Taken b" for b
  proof -
    have world: "world True T0 p (s\<lparr>self := t'\<rparr>)" using ok init by (simp add: threads_ok_def)
    have "writing (p t')" using taken by simp
    note alone = lock_alone [of p "tag_tree_mtx s" t', OF _ this]
    obtain s1 where s1: "tag_tree_unlink b (s\<lparr>self := t'\<rparr>) = Inr s1" "relinked (s\<lparr>self := t'\<rparr>) s1"
      using world_unlink [OF world taken] alone ok by (auto simp: threads_ok_def)
    then show ?thesis using step taken relinked_node(1) [OF s1(2), of a n] n by auto
  qed
  moreover have "\<exists>n'. tags_heap s' a = Some n' \<and> rb_entry.more n' = rb_entry.more n" if "allocates (p t')"
  proof -
    from that consider c where "p t' = Building c" | x where "p t' = Making x" by (cases "p t'") auto
    then have "kept (doomed p) s s'"
      using advance_build [OF ok init _ mem [rule_format, OF that]] advance_make [OF ok init _ mem [rule_format, OF that]] step
      by cases fastforce+
    then show ?thesis using n a by (auto simp: kept_def held_by_def)
  qed
  ultimately show ?thesis using n by metis
qed

definition others :: "nat \<Rightarrow> threads \<Rightarrow> threads \<Rightarrow> bool" where
  "others t = (\<lambda>x y. \<exists>t'. t' \<noteq> t \<and> thread_step t' x y)\<^sup>*\<^sup>*"

lemma others_reaches: "others t x y \<Longrightarrow> reaches x y"
  unfolding others_def reaches_def run_step_def by (erule rtranclp_mono [THEN predicate2D, rotated]) blast

text \<open>C9: while a thread holds the mutex of a tag, by \<open>plc_tag_lock\<close> or inside a call, no sequence of steps of the
  other threads frees its node or changes its name, type, value, callback or mutex, not even one that destroys other tags and
  moves the node in the tree.\<close>

theorem mutex_protects:
  assumes "api_store s T" and "alloc_ready (init_cost s) s" and "reaches (idle, s) (p, s1)" and "held_by s1 t a"
    and "others t (p, s1) (p', s2)"
  shows "\<exists>n n'. tags_heap s1 a = Some n \<and> tags_heap s2 a = Some n' \<and> rb_entry.more n' = rb_entry.more n \<and> p' t = p t"
  using assms(5) unfolding others_def
proof (induction "(p', s2)" arbitrary: p' s2 rule: rtranclp_induct)
  case base
  then show ?case using assms(4) by (auto simp: held_by_def)
next
  case (step y)
  obtain q s' where y: "y = (q, s')" by (cases y)
  from step.hyps(3) [OF y] obtain n n' where n: "tags_heap s1 a = Some n" "tags_heap s' a = Some n'"
    "rb_entry.more n' = rb_entry.more n" "q t = p t" by blast
  then have h: "held_by s' t a" using assms(4) more_eqD(4) [OF n(3)] by (auto simp: held_by_def)
  have "reaches (p, s1) (q, s')" using step.hyps(1) y others_reaches [of t "(p, s1)" y] by (simp add: others_def)
  from threads_ok_reaches [OF reaches_trans [OF assms(3) this] threads_ok_start [OF assms(1,2)]]
  have ok: "threads_ok True T q s'" "\<And>t. pc_good (q t)" by simp_all
  obtain t' where t': "t' \<noteq> t" "thread_step t' (q, s') (p', s2)" using step.hyps(2) y by blast
  from t'(2) consider c where "p' = q(t' := Begun c)" "s2 = s'"
    | r where "advance (q t') (s'\<lparr>self := t'\<rparr>) = Inr (r, s2)" "p' = q(t' := r)" "allocates (q t') \<longrightarrow> memory_left s'"
    by (auto elim!: thread_stepE)
  then show ?case
  proof cases
    case 1
    then show ?thesis using n t'(1) by auto
  next
    case 2
    from step_of_another [OF ok h t'(1) 2(3,1)] show ?thesis using n t'(1) 2(2) by auto
  qed
qed

theorem mutex_protects_witness:
  "\<exists>s s1 a n. tag_tree_init (demo_lib 60) = Inr s \<and> reaches (idle, s) (idle, s1) \<and> held_by s1 1 a \<and> tags_heap s1 a = Some n
     \<and> (\<forall>p' s2. others 1 (idle, s1) (p', s2) \<longrightarrow> (\<exists>n'. tags_heap s2 a = Some n' \<and> rb_entry.more n' = rb_entry.more n))"
proof -
  obtain s where s: "tag_tree_init (demo_lib 60) = Inr s" "tag_tree_inited s" "api_store s default_store"
    using demo_running by blast
  have "(5 :: c_int) \<noteq> METATAG_ID" by (simp add: METATAG_ID_def)
  then obtain a s1 where r: "reaches (idle, s) (idle, s1)" "held_by s1 1 a" by (rule run_to_held [OF s(3,2) _ demo_tag(1,2)])
  moreover obtain n where "tags_heap s1 a = Some n" using r(2) by (auto simp: held_by_def)
  moreover have "alloc_ready (init_cost s) s" using s(2) by (simp add: init_cost_def alloc_ready_def malloc_ready_def)
  note mutex_protects [OF s(3) this r]
  ultimately show ?thesis using s(1) by fastforce
qed


text \<open>A removal that nobody disturbs frees the node.\<close>

lemma run_to_taken:
  assumes free: "tag_tree_mtx s = RW_free" and init: "tag_tree_inited s" and t: "p t = Done r"
    and c: "i \<noteq> METATAG_ID" and a: "tag_tree_find i s = Inr a"
    and y: "reaches (p(t := Found (Drop i) a), s\<lparr>self := t, tag_tree_mtx := RW_write\<rparr>) y"
  shows "reaches (p, s) y"
proof -
  let ?s = "s\<lparr>self := t, tag_tree_mtx := RW_write\<rparr>"
  have 1: "advance (Searching (Drop i)) (?s\<lparr>self := t\<rparr>) = Inr (Found (Drop i) a, ?s)"
    using a by (simp add: tag_tree_find_def tree_def)
  have "reaches (p(t := Searching (Drop i)), ?s) y" by (rule reaches_upd, rule 1, rule y, simp)
  then show ?thesis using run_to_search [of s p t r "Drop i", OF free init t] c by simp
qed

lemma run_to_freed:
  assumes st: "store_is s T" and free: "tag_tree_mtx s = RW_free" and init: "tag_tree_inited s" and t: "p t = Done r"
    and i: "i \<noteq> METATAG_ID" and tg: "T (sint i) = Some u" "t_mtx u = None"
    and a: "tag_tree_find i s = Inr a" "points s a (sint i)"
  shows "\<exists>s'. reaches (p, s) (p(t := Done (uint PLCTAG_STATUS_OK)), s') \<and> tags_heap s' a = None"
proof -
  let ?s = "s\<lparr>self := t, tag_tree_mtx := RW_write\<rparr>"
  have nn: "a \<noteq> NULL" using a(2) by (simp add: points_def)
  have st1: "store_is ?s T" "points ?s a (sint i)" using st a(2) by simp_all
  obtain s1 where s1: "MTX_LOCK a ?s = Inr s1" "store_is s1 (T(sint i \<mapsto> u\<lparr>t_mtx := Some t\<rparr>))" "points s1 a (sint i)"
    "self s1 = t" "tag_tree_mtx s1 = RW_write"
    using mtx_lock_spec [OF st1(1) tg(1) st1(2)] tg(2) by (auto simp: Let_def)
  obtain s2 n where s2: "tag_tree_unlink a s1 = Inr s2" "relinked s1 s2" "tags_heap s2 a = Some n"
    "node_is (types s1) n (u\<lparr>t_mtx := Some t\<rparr>)" using store_unlink [OF s1(2) _ s1(3)] by fastforce
  note o = relinked_other [OF s2(2)]
  have m: "mtx n = Some t" "name n = CStr (t_name u)" using s2(4) by (simp_all add: node_is_def)
  define s3 where "s3 = s2\<lparr>tree_size := tree_size s2 - 1, tag_tree_mtx := RW_free\<rparr>"
  have s3: "tags_heap s3 a = Some n" "self s3 = t" using s2(3) o s1 by (simp_all add: s3_def)
  define s4 where "s4 = s3\<lparr>tags_heap := (tags_heap s3)(a \<mapsto> n\<lparr>mtx := None\<rparr>)\<rparr>"
  define s5 where "s5 = s4\<lparr>tags_heap := (tags_heap s4)(a \<mapsto> n\<lparr>mtx := Some t\<rparr>)\<rparr>"
  define s6 where "s6 = s5\<lparr>tags_heap := (tags_heap s5)(a := None)\<rparr>"
  have h4: "tags_heap s4 a = Some (n\<lparr>mtx := None\<rparr>)" by (simp add: s4_def)
  have self: "self s4 = t" "self s5 = t" "self s2 = t" using s3(2) o s1(4) by (simp_all add: s4_def s5_def)
  have same: "?s\<lparr>self := t\<rparr> = ?s" by simp
  have 1: "advance (Found (Drop i) a) (?s\<lparr>self := t\<rparr>) = Inr (Taken a, s1)"
    using s1(1) nn unfolding same by simp
  have 2: "advance (Taken a) (s1\<lparr>self := t\<rparr>) = Inr (Unlinked a, s2\<lparr>tree_size := tree_size s2 - 1\<rparr>)"
    using s2(1) same_self [OF s1(4)] by simp
  have 3: "advance (Unlinked a) (s2\<lparr>tree_size := tree_size s2 - 1, self := t\<rparr>) = Inr (Released a, s3)"
    using same_self [of "s2\<lparr>tree_size := tree_size s2 - 1\<rparr>" t] self(3) o s1(5) by (simp add: RW_UNLOCK_def s3_def)
  have 4: "advance (Released a) (s3\<lparr>self := t\<rparr>) = Inr (Doomed a, s4)"
    using same_self [OF s3(2)] s3 m nn by (simp add: MTX_UNLOCK_def get_node_def upd_node_def s4_def)
  have 5: "advance (Doomed a) (s4\<lparr>self := t\<rparr>) = Inr (Owned a, s5)"
    using same_self [OF self(1)] self(1) nn h4 by (simp add: MTX_LOCK_def get_node_def upd_node_def s5_def)
  have 6: "advance (Owned a) (s5\<lparr>self := t\<rparr>) = Inr (Done (uint PLCTAG_STATUS_OK), s6)"
    using same_self [OF self(2)] nn m(2) self(2)
    by (simp add: get_node_def free_string_def free_node_def s6_def MTX_UNLOCK_copy_def mutex_destroy_copy_def) (simp add: s5_def)
  have "reaches (p(t := Found (Drop i) a), ?s) (p(t := Done (uint PLCTAG_STATUS_OK)), s6)"
    by (rule reaches_upd, rule 1, rule reaches_upd, rule 2, rule reaches_upd, rule 3, rule reaches_upd, rule 4,
        rule reaches_upd, rule 5, rule reaches_upd, rule 6, rule reaches_refl, simp_all)
  from run_to_taken [of s p t r, OF free init t i a(1) this] have "reaches (p, s) (p(t := Done (uint PLCTAG_STATUS_OK)), s6)" .
  then show ?thesis by (auto simp: s6_def)
qed

text \<open>C13: a lookup gives the lock of the tree back before its caller takes the mutex of the node. So when a thread looks a
  tag up, to lock it or to set its callback, and another one destroys the tag before the first goes on, the next step of
  the first locks a mutex in memory that has been freed.\<close>

theorem use_after_free:
  assumes st: "api_store s T" and init: "tag_tree_inited s" and i: "i \<noteq> METATAG_ID"
    and t: "T (sint i) = Some u" "t_mtx u = None" and c: "c = Hold i \<or> c = Work i m w \<and> good_work w"
  shows "\<exists>p s' a. reaches (idle, s) (p, s') \<and> p 1 = Has c a \<and> p 2 = Done (uint PLCTAG_STATUS_OK)
    \<and> advance (p 1) (s'\<lparr>self := 1\<rparr>) = Inl (Undef BadPointer)"
proof -
  let ?s = "s\<lparr>self := 1\<rparr>"
  have s: "store_is s T" "tag_tree_mtx s = RW_free" using st init by (simp_all add: api_store_def)
  obtain a where a: "tag_tree_find i s = Inr a" "points s a (sint i)" using store_find [OF s(1), of i] t(1) by auto
  then have nn: "a \<noteq> NULL" by (simp add: points_def)
  have ci: "call_id c = i" "\<not> drops c" "good_call c" "\<not> creates c" using c i by auto
  let ?p = "idle(1 := Has c a)"
  have "tag_tree_find i ?s = Inr a" "points ?s a (sint i)" using a by (simp_all add: tag_tree_find_def tree_def)
  then obtain s' where s': "reaches (?p, ?s) (?p(2 := Done (uint PLCTAG_STATUS_OK)), s')" "tags_heap s' a = None"
    using run_to_freed [of ?s T ?p 2 "uint PLCTAG_STATUS_OK" i u a] s init i t by auto
  have "reaches (idle, s) (?p(2 := Done (uint PLCTAG_STATUS_OK)), s')"
    by (rule run_to_pointer [of s idle 1 "uint PLCTAG_STATUS_OK" c a, OF s(2) init _ _ _ _ _ nn s'(1)]) (use ci i a in simp_all)
  moreover have "advance (Has c a) (s'\<lparr>self := 1\<rparr>) = Inl (Undef BadPointer)"
    using mutex_gone(1) [of "s'\<lparr>self := 1\<rparr>" a] s'(2) nn c by auto
  ultimately show ?thesis by (intro exI [of _ "?p(2 := Done (uint PLCTAG_STATUS_OK))"] exI [of _ s'] exI [of _ a]) simp
qed

theorem use_after_free_witness:
  "\<exists>s p s' a. tag_tree_init (demo_lib 60) = Inr s \<and> reaches (idle, s) (p, s') \<and> p 1 = Has (Hold 5) a
     \<and> advance (p 1) (s'\<lparr>self := 1\<rparr>) = Inl (Undef BadPointer)"
proof -
  obtain s where s: "tag_tree_init (demo_lib 60) = Inr s" "tag_tree_inited s" "api_store s default_store"
    using demo_running by blast
  from use_after_free [OF s(3,2) _ demo_tag(1,2), of "Hold 5"] s(1) show ?thesis by (auto simp: METATAG_ID_def)
qed

text \<open>C14: \<open>plc_tag_destroy\<close> waits for the mutex of the tag with the write lock of the tree taken, and \<open>plc_tag_unlock\<close>
  needs the tree to find the tag. So when a thread has locked a tag and another one destroys it, no thread can ever
  finish a call again: not the one that waits, not the holder, whose unlocking waits for the tree, nor any other, but for
  the destruction of the metatag, which does nothing.\<close>

theorem destroy_deadlock:
  assumes st: "api_store s T" and init: "tag_tree_inited s" and i: "i \<noteq> METATAG_ID"
    and t: "T (sint i) = Some u" "t_mtx u = None"
  shows "\<exists>p s' a. reaches (idle, s) (p, s') \<and> p 1 = Done (uint PLCTAG_STATUS_OK) \<and> p 2 = Found (Drop i) a \<and> held_by s' 1 a
    \<and> (\<forall>q s''. reaches (p, s') (q, s'') \<longrightarrow>
         (\<forall>t. advance (q t) (s''\<lparr>self := t\<rparr>) = Inl Blocked \<or> (\<exists>c. q t = Begun c \<and> no_op c)))"
proof -
  obtain a s1 where r1: "reaches (idle, s) (idle, s1)" and s1: "tag_tree_mtx s1 = RW_free" "tag_tree_inited s1" "held_by s1 1 a"
    and f1: "tag_tree_find i s1 = Inr a" by (rule run_to_held [OF st init i t])
  then have nn: "a \<noteq> NULL" by (simp add: held_by_def)
  let ?p = "idle(2 := Found (Drop i) a)" and ?s1 = "s1\<lparr>self := 2, tag_tree_mtx := RW_write\<rparr>"
  have "reaches (idle, s1) (?p, ?s1)"
    by (rule run_to_taken [of s1 idle 2 "uint PLCTAG_STATUS_OK" i a, OF s1(1,2) _ i f1]) simp_all
  with r1 have r2: "reaches (idle, s) (?p, ?s1)" by (rule reaches_trans)
  define stuck where "stuck q s \<longleftrightarrow> q 2 = Found (Drop i) a \<and> (\<forall>t. t \<noteq> 2 \<longrightarrow> (\<exists>r. q t = Done r) \<or> (\<exists>c. q t = Begun c))
    \<and> tag_tree_mtx s = RW_write \<and> held_by s 1 a" for q :: "nat \<Rightarrow> pc" and s
  have blocked: "advance (q t) (s\<lparr>self := t\<rparr>) = Inl Blocked \<or> (\<exists>c. q t = Begun c \<and> no_op c)" if "stuck q s" for q t s
  proof (cases "t = 2")
    case True
    then show ?thesis using that nn by (auto simp: stuck_def held_by_def MTX_LOCK_def get_node_def)
  next
    case False
    then show ?thesis using that by (auto simp: stuck_def RW_RDLOCK_def)
  qed
  have stays: "stuck q s''" if "reaches (?p, ?s1) (q, s'')" for q s''
    using that
  proof (induction rule: reaches_induct)
    case refl
    show ?case using s1(3) by (simp add: stuck_def)
  next
    case (call p s t r c)
    then show ?case by (auto simp: stuck_def)
  next
    case (move p s t q s')
    from blocked [OF move.IH, of t] move.hyps(2) obtain c where "p t = Begun c" "no_op c" by auto
    then show ?case using move by (auto simp: stuck_def)
  qed
  have "\<forall>q s''. reaches (?p, ?s1) (q, s'') \<longrightarrow>
      (\<forall>t. advance (q t) (s''\<lparr>self := t\<rparr>) = Inl Blocked \<or> (\<exists>c. q t = Begun c \<and> no_op c))"
    using stays blocked by metis
  then show ?thesis using r2 s1(3) by (intro exI [of _ ?p] exI [of _ ?s1] exI [of _ a]) simp
qed

theorem destroy_deadlock_witness:
  "\<exists>s p s' a. tag_tree_init (demo_lib 60) = Inr s \<and> reaches (idle, s) (p, s') \<and> p 2 = Found (Drop 5) a \<and> held_by s' 1 a
     \<and> advance (p 1) (s'\<lparr>self := 1\<rparr>) = Inl Blocked \<and> advance (p 2) (s'\<lparr>self := 2\<rparr>) = Inl Blocked"
proof -
  obtain s where s: "tag_tree_init (demo_lib 60) = Inr s" "tag_tree_inited s" "api_store s default_store"
    using demo_running by blast
  have "(5 :: c_int) \<noteq> METATAG_ID" by (simp add: METATAG_ID_def)
  from destroy_deadlock [OF s(3,2) this demo_tag(1,2)]
  obtain p s' a where p: "reaches (idle, s) (p, s')" "p 1 = Done (uint PLCTAG_STATUS_OK)" "p 2 = Found (Drop 5) a" "held_by s' 1 a"
    and stuck: "\<And>t. advance (p t) (s'\<lparr>self := t\<rparr>) = Inl Blocked \<or> (\<exists>c. p t = Begun c \<and> no_op c)"
    using reaches_refl by metis
  have "advance (p 1) (s'\<lparr>self := 1\<rparr>) = Inl Blocked" "advance (p 2) (s'\<lparr>self := 2\<rparr>) = Inl Blocked"
    using stuck [of 1] stuck [of 2] p(2,3) by simp_all
  then show ?thesis using s(1) p by blast
qed

end
