(* ===== verification/Clients.thy ===== *)
theory Clients
  imports Thread_Props
begin

text \<open>
  Threads with programs: what each thread calls, in which order, and what it does with the results; and a discipline for them.
  A disciplined program names only tags that are there, and never the metatag; it creates and destroys none; after it has
  locked a tag it gives it back before it locks another, makes a call that works under a mutex, or ends; and what it
  does under a mutex is defined on the tag, so that every access lies inside of the buffer. Threads with such programs never meet undefined behaviour
  and never wait for each other for ever, however they interleave; \<open>test/05-tag-locking.c\<close> is a program of this kind.
\<close>

section \<open>Programs\<close>

text \<open>The calls a thread makes and the results with which it goes on; with another it exits, as with \<open>errx\<close>.\<close>

type_synonym script = "(call \<times> (int \<Rightarrow> bool)) list"

type_synonym clients = "(nat \<Rightarrow> script) \<times> (nat \<Rightarrow> int \<Rightarrow> bool) \<times> (nat \<Rightarrow> pc) \<times> lib"

text \<open>What is left to call, the result the thread wants of its last call, and where it is.\<close>

inductive client_step :: "clients \<Rightarrow> clients \<Rightarrow> bool" where
  begin_next: "p t = Done r \<Longrightarrow> want t r \<Longrightarrow> todo t = (c, ok) # cs \<Longrightarrow>
     client_step (todo, want, p, s) (todo(t := cs), want(t := ok), p(t := Begun c), s)"
| go_on: "advance (p t) (s\<lparr>self := t\<rparr>) = Inr (q, s') \<Longrightarrow> allocates (p t) \<longrightarrow> memory_left s \<Longrightarrow>
     client_step (todo, want, p, s) (todo, want, p(t := q), s')"

inductive_cases client_stepE: "client_step (todo, want, p, s) y"

definition start :: "(nat \<Rightarrow> script) \<Rightarrow> lib \<Rightarrow> clients" where
  "start scripts s = (scripts, \<lambda>_ _. True, idle, s)"

fun finished :: "clients \<Rightarrow> bool" where
  "finished (todo, want, p, s) \<longleftrightarrow> (\<forall>t. todo t = [] \<and> (\<exists>r. p t = Done r \<and> want t r))"

section \<open>Discipline\<close>

text \<open>A call and the tag it works on: the work has to be defined on every value of the tag, with a result the thread wants.\<close>

definition fits :: "tag \<Rightarrow> work \<Rightarrow> (int \<Rightarrow> bool) \<Rightarrow> bool" where
  "fits u w ok \<longleftrightarrow> good_work w \<and> (\<forall>a s n u'. a \<noteq> NULL \<longrightarrow> tags_heap s a = Some n \<longrightarrow> node_is (types s) n u' \<longrightarrow> same_tag u u'
     \<longrightarrow> (\<exists>r s'. w a s = Inr (r, s') \<and> ok r))"

text \<open>\<open>h\<close>: the tag the thread has locked, if any.\<close>

fun call_ok :: "tag \<Rightarrow> c_int option \<Rightarrow> call \<Rightarrow> (int \<Rightarrow> bool) \<Rightarrow> bool" where
  "call_ok u h (Hold i) ok \<longleftrightarrow> h = None \<and> ok (uint PLCTAG_STATUS_OK)"
| "call_ok u h (Release i) ok \<longleftrightarrow> h = Some i \<and> ok (uint PLCTAG_STATUS_OK)"
| "call_ok u h (Probe i) ok \<longleftrightarrow> ok (uint PLCTAG_STATUS_OK)"
| "call_ok u h (Work i m w) ok \<longleftrightarrow> h = None \<and> fits u w ok"
| "call_ok u h (Drop i) ok \<longleftrightarrow> False"
| "call_ok u h (Make x) ok \<longleftrightarrow> False"

fun locked_after :: "c_int option \<Rightarrow> call \<Rightarrow> c_int option" where
  "locked_after h (Hold i) = Some i"
| "locked_after h (Release i) = None"
| "locked_after h _ = h"

fun polite :: "store \<Rightarrow> c_int option \<Rightarrow> script \<Rightarrow> bool" where
  "polite T h [] \<longleftrightarrow> h = None"
| "polite T h ((c, ok) # cs) \<longleftrightarrow> call_id c \<noteq> METATAG_ID
     \<and> (case T (sint (call_id c)) of None \<Rightarrow> False | Some u \<Rightarrow> call_ok u h c ok) \<and> polite T (locked_after h c) cs"

lemma polite_call:
  assumes "polite T h ((c, ok) # cs)"
  shows "good_call c" and "\<not> drops c" and "\<not> creates c" and "T (sint (call_id c)) \<noteq> None" and "\<not> no_op c"
  using assms by (cases c; auto simp: fits_def split: option.splits)+

section \<open>The invariant\<close>

text \<open>What a thread has still to do, at each place; and the mutexes it holds there.\<close>

fun place_ok :: "store \<Rightarrow> lib \<Rightarrow> c_int option \<Rightarrow> script \<Rightarrow> (int \<Rightarrow> bool) \<Rightarrow> pc \<Rightarrow> bool" where
  "place_ok T s h todo ok (Done r) = (ok r \<and> polite T h todo)"
| "place_ok T s h todo ok (Begun c) = polite T h ((c, ok) # todo)"
| "place_ok T s h todo ok (Checking c) = polite T h ((c, ok) # todo)"
| "place_ok T s h todo ok (Unready c) = polite T h ((c, ok) # todo)"
| "place_ok T s h todo ok (Initing c) = polite T h ((c, ok) # todo)"
| "place_ok T s h todo ok (Inited c) = polite T h ((c, ok) # todo)"
| "place_ok T s h todo ok (Ready c) = polite T h ((c, ok) # todo)"
| "place_ok T s h todo ok (Searching c) = polite T h ((c, ok) # todo)"
| "place_ok T s h todo ok (Found c a) = (polite T h ((c, ok) # todo) \<and> points s a (sint (call_id c)))"
| "place_ok T s h todo ok (Has c a) = (polite T h ((c, ok) # todo) \<and> points s a (sint (call_id c)))"
| "place_ok T s h todo ok (Inside a w) =
     (h = None \<and> polite T None todo \<and> (\<exists>i u. points s a i \<and> T i = Some u \<and> fits u w ok))"
| "place_ok T s h todo ok (Leaving a r) = (h = None \<and> polite T None todo \<and> ok r)"
| "place_ok T s h todo ok _ = False"

fun owns :: "lib \<Rightarrow> c_int option \<Rightarrow> pc \<Rightarrow> addr \<Rightarrow> bool" where
  "owns s h (Inside b w) a = (a = b)"
| "owns s h (Leaving b r) a = (a = b)"
| "owns s h q a = (\<exists>i. h = Some i \<and> points s a (sint i))"

definition orderly :: "store \<Rightarrow> (nat \<Rightarrow> c_int option) \<Rightarrow> clients \<Rightarrow> bool" where
  "orderly T h = (\<lambda>(todo, want, p, s). threads_ok False T p s
     \<and> (\<forall>t. place_ok T s (h t) (todo t) (want t) (p t))
     \<and> (\<forall>t a. held_by s t a = owns s (h t) (p t) a)
     \<and> (if tag_tree_inited s then \<forall>i. T i \<noteq> None \<longrightarrow> (\<exists>a. points s a i) else \<forall>t. h t = None))"

text \<open>The steps a thread has still to make, at most, in the call it is in; a call of its program takes 12.\<close>

fun steps_left :: "pc \<Rightarrow> nat" where
  "steps_left (Begun c) = 11"
| "steps_left (Checking c) = 10"
| "steps_left (Unready c) = 9"
| "steps_left (Initing c) = 8"
| "steps_left (Inited c) = 7"
| "steps_left (Ready c) = 6"
| "steps_left (Searching c) = 5"
| "steps_left (Found c a) = 4"
| "steps_left (Has c a) = 3"
| "steps_left (Inside a w) = 2"
| "steps_left (Leaving a r) = 1"
| "steps_left _ = 0"

definition work_left :: "nat set \<Rightarrow> clients \<Rightarrow> nat" where
  "work_left A = (\<lambda>(todo, want, p, s). \<Sum>t \<in> A. 12 * length (todo t) + steps_left (p t))"

definition within :: "nat set \<Rightarrow> clients \<Rightarrow> bool" where
  "within A = (\<lambda>(todo, want, p, s). \<forall>t. t \<notin> A \<longrightarrow> todo t = [] \<and> (\<exists>r. p t = Done r))"

section \<open>Steps keep the invariant\<close>

lemma points_cong:
  assumes "points s' = points s"
  shows "place_ok T s' h todo ok q = place_ok T s h todo ok q" and "owns s' h q a = owns s h q a"
  using assms by (cases q; simp)+

lemma place_good: "place_ok T s h todo ok q \<Longrightarrow> pc_good q \<and> dying q = None \<and> \<not> pc_creates q \<and> \<not> allocates q"
  by (cases q) (auto dest: polite_call simp: fits_def simp del: polite.simps)

lemma orderly_store:
  assumes "orderly T h (todo, want, p, s)" and "tag_tree_inited s"
  obtains T' where "store_is s T'" and "tags_of False T T'" and "dom T' = dom T"
proof -
  have p: "dying (p t) = None" for t using assms(1) place_good [of T s "h t" "todo t" "want t" "p t"] by (simp add: orderly_def)
  then have "doomed p = {}" by (simp add: doomed_def)
  then obtain T' where T': "store_is s T'" "tags_of False T T'"
    using assms by (auto simp: orderly_def threads_ok_def world_def)
  have "T' i \<noteq> None" if "T i \<noteq> None" for i
  proof -
    have "\<exists>a. points s a i" using assms that by (simp add: orderly_def)
    then obtain a n where "tags_heap s a = Some n" "sint (tag_id n) = i" by (auto simp: points_def)
    with store_node [OF T'(1)] show ?thesis by blast
  qed
  then have "dom T' = dom T" using T'(2) by (force simp: tags_of_def)
  then show thesis using that T' by blast
qed

lemma orderly_frame:
  assumes ok: "orderly T h (todo, want, p, s)" and ok': "threads_ok False T (p(t := q)) s'"
    and same: "points s' = points s" "tag_tree_inited s' = tag_tree_inited s"
    and q: "place_ok T s k (todo t) (want t) q"
    and held: "\<And>t' a. t' \<noteq> t \<Longrightarrow> held_by s' t' a = held_by s t' a" "\<And>a. held_by s' t a = owns s k q a"
    and k: "\<not> tag_tree_inited s \<Longrightarrow> k = None"
  shows "orderly T (h(t := k)) (todo, want, p(t := q), s')"
  using assms by (auto simp: orderly_def points_cong [OF same(1)] split: if_splits)

text \<open>Steps that change no node.\<close>

lemma orderly_still:
  assumes ok: "orderly T h (todo, want, p, s)" and ok': "threads_ok False T (p(t := q)) s'"
    and same: "tags_heap s' = tags_heap s" "tag_tree_inited s' = tag_tree_inited s"
    and q: "place_ok T s (h t) (todo t) (want t) q" "owns s (h t) q = owns s (h t) (p t)"
  shows "\<exists>k. orderly T (h(t := k)) (todo, want, p(t := q), s')"
proof -
  have pts: "points s' = points s" using same(1) by (simp add: points_def fun_eq_iff)
  have held: "held_by s' t' a = held_by s t' a" for t' a using same(1) by (simp add: held_by_def)
  have "held_by s t a = owns s (h t) q a" for a using ok q(2) by (simp add: orderly_def)
  moreover have "\<not> tag_tree_inited s \<Longrightarrow> h t = None" using ok by (simp add: orderly_def)
  ultimately have "orderly T (h(t := h t)) (todo, want, p(t := q), s')"
    using ok ok' pts same(2) q(1) held by (intro orderly_frame [where s = s and p = p]) simp_all
  then show ?thesis by blast
qed

text \<open>Steps that change one node, which keeps its identifier and whose mutex the thread takes, gives back or has.\<close>

lemma orderly_touch:
  assumes ok: "orderly T h (todo, want, p, s)" and ok': "threads_ok False T (p(t := q)) s'" and init: "tag_tree_inited s"
    and n: "tags_heap s a = Some n" "a \<noteq> NULL" "tags_heap s' = (tags_heap s)(a \<mapsto> n')" "tag_id n' = tag_id n"
    and mine: "mtx n = None \<or> mtx n = Some t" "mtx n' = None \<or> mtx n' = Some t"
    and init': "tag_tree_inited s' = tag_tree_inited s"
    and q: "place_ok T s k (todo t) (want t) q"
      "\<And>b. owns s k q b = (if b = a then mtx n' = Some t else owns s (h t) (p t) b)"
  shows "\<exists>k. orderly T (h(t := k)) (todo, want, p(t := q), s')"
proof -
  have pts: "points s' = points s" using n by (auto simp: points_def fun_eq_iff)
  have held: "held_by s' t' b = (if b = a then mtx n' = Some t' else held_by s t' b)" for t' b
    using n by (auto simp: held_by_def)
  have "held_by s' t' b = held_by s t' b" if "t' \<noteq> t" for t' b using held mine n(1,2) that by (auto simp: held_by_def)
  moreover have "held_by s' t b = owns s k q b" for b using held q(2) ok by (simp add: orderly_def)
  ultimately have "orderly T (h(t := k)) (todo, want, p(t := q), s')"
    using ok ok' pts init init' q(1) by (intro orderly_frame [where s = s and p = p]) simp_all
  then show ?thesis by blast
qed

lemma default_unlocked: "default_store i = Some u \<Longrightarrow> t_mtx u = None"
  by (auto simp: default_store_def tags_inc_def defined_tag_def new_tag_def split: if_splits)

lemma unlocked_held:
  assumes "store_is s T" and "\<And>i u. T i = Some u \<Longrightarrow> t_mtx u = None"
  shows "\<not> held_by s t a"
proof
  assume h: "held_by s t a"
  obtain n where n: "tags_heap s a = Some n" "mtx n = Some t" using h by (auto simp: held_by_def)
  then show False using store_node [OF assms(1) n(1)] assms(2) by (force simp: node_is_def)
qed

lemma store_points: "store_is s T \<Longrightarrow> T i \<noteq> None \<Longrightarrow> \<exists>a. points s a i"
  using store_tag [of "{}" s T i] by auto

text \<open>The initialisation.\<close>

lemma orderly_init:
  assumes ok: "orderly T h (todo, want, p, s)" and t: "p t = Initing c" and fresh: "\<not> tag_tree_inited s"
    and step: "define_tags tags_inc (s\<lparr>self := t, tag_tree_inited := True\<rparr>) = Inr s'"
  shows "orderly T h (todo, want, p(t := Inited c), s')"
proof -
  let ?p = "p(t := Inited c)" and ?s = "s\<lparr>self := t, tag_tree_inited := True\<rparr>"
  have tok: "threads_ok False T p s" and none: "\<And>t. h t = None" and place: "\<And>t. place_ok T s None (todo t) (want t) (p t)"
    using ok fresh by (auto simp: orderly_def split: if_splits)
  from init_once [OF tok t fresh] step have new: "threads_ok False T ?p s'" by auto
  have e: "T = default_store" "\<And>t. early (p t)" "store_is s Map.empty" "alloc_ready 30 s"
    using tok fresh by (simp_all add: threads_ok_def)
  then have "store_is ?s Map.empty" "alloc_ready (3 * length tags_inc) ?s" by (simp_all add: alloc_ready_def tags_inc_def)
  then have s': "store_is s' default_store" "tag_tree_inited s'"
    using define_tags_spec [of ?s Map.empty 2 tags_inc] step by (auto simp: fresh_id_def tags_inc_def default_store_def env_def)
  have early: "place_ok T s' None (todo u) (want u) (p u) \<and> \<not> owns s' None (p u) a" for u a
    using place [of u] e(2) [of u] by (cases "p u") auto
  then have "place_ok T s' None (todo u) (want u) (?p u)" "\<not> owns s' None (?p u) a" for u a
    using early [of t] t early by (simp_all add: fun_upd_apply)
  then show ?thesis using new none s' store_points [OF s'(1)] unlocked_held [OF s'(1) default_unlocked] e(1)
    by (auto simp: orderly_def simp del: fun_upd_apply)
qed

text \<open>Every step.\<close>

lemma lock_frame:
  "RW_RDLOCK s = Inr s' \<Longrightarrow> tags_heap s' = tags_heap s \<and> tag_tree_inited s' = tag_tree_inited s"
  "RW_WRLOCK s = Inr s' \<Longrightarrow> tags_heap s' = tags_heap s \<and> tag_tree_inited s' = tag_tree_inited s"
  "RW_UNLOCK s = Inr s' \<Longrightarrow> tags_heap s' = tags_heap s \<and> tag_tree_inited s' = tag_tree_inited s"
  by (auto simp: RW_RDLOCK_def RW_WRLOCK_def RW_UNLOCK_def split: rwlock.splits if_splits)

lemma orderly_early:
  assumes ok: "orderly T h (todo, want, p, s)" and step: "advance (p t) (s\<lparr>self := t\<rparr>) = Inr (q, s')" and e: "early (p t)"
  shows "\<exists>k. orderly T (h(t := k)) (todo, want, p(t := q), s')"
proof -
  have tok: "threads_ok False T p s" and here: "place_ok T s (h t) (todo t) (want t) (p t)" using ok by (simp_all add: orderly_def)
  have new: "threads_ok False T (p(t := q)) s'" using advance_early [OF tok e] step by simp
  note still = orderly_still [OF ok new]
  show ?thesis
  proof (cases "\<exists>c. p t = Initing c \<and> \<not> tag_tree_inited s")
    case True
    then obtain c where c: "p t = Initing c" "\<not> tag_tree_inited s" by blast
    then have q: "q = Inited c" "define_tags tags_inc (s\<lparr>self := t, tag_tree_inited := True\<rparr>) = Inr s'"
      using step by (auto simp: bindE_Inr_iff)
    have "h(t := h t) = h" by simp
    then show ?thesis using orderly_init [OF ok c q(2)] q(1) by metis
  next
    case False
    have "p t = Begun c \<Longrightarrow> \<not> no_op c" for c using here polite_call(5) [of T "h t" c] by auto
    then show ?thesis
      by (intro still; use step here e False in \<open>cases "p t"; auto simp: fun_eq_iff bindE_Inr_iff Let_def
        dest!: lock_frame simp del: polite.simps\<close>)
  qed
qed

lemma orderly_lookup:
  assumes ok: "orderly T h (todo, want, p, s)" and step: "advance (p t) (s\<lparr>self := t\<rparr>) = Inr (q, s')" and init: "tag_tree_inited s"
    and c: "p t = Inited c \<or> p t = Ready c \<or> p t = Searching c \<or> (\<exists>a. p t = Found c a)"
  shows "\<exists>k. orderly T (h(t := k)) (todo, want, p(t := q), s')"
proof -
  have tok: "threads_ok False T p s" and here: "place_ok T s (h t) (todo t) (want t) (p t)" using ok by (simp_all add: orderly_def)
  have new: "threads_ok False T (p(t := q)) s'" using advance_lookup [OF tok init c] step by simp
  note still = orderly_still [OF ok new]
  have pol: "polite T (h t) ((c, want t) # todo t)" using here c by (auto simp del: polite.simps)
  note call = polite_call [OF pol]
  show ?thesis
  proof (cases "p t = Searching c")
    case True
    obtain T' where T': "store_is s T'" "dom T' = dom T" using orderly_store [OF ok init] .
    have "T' (sint (call_id c)) \<noteq> None" using call(4) T'(2) by blast
    then obtain a where a: "tag_tree_find (call_id c) s = Inr a" "points s a (sint (call_id c))"
      using store_find [OF T'(1), of "call_id c"] by auto
    have "tag_tree_find (call_id c) (s\<lparr>self := t\<rparr>) = Inr a" using a(1) by (simp add: tag_tree_find_def tree_def)
    then have "q = Found c a" "s' = s\<lparr>self := t\<rparr>" using True step call(3) by simp_all
    then show ?thesis using a(2) pol True by (intro still) (simp_all add: fun_eq_iff del: polite.simps)
  next
    case False
    show ?thesis
      by (rule still; use step here c False call(2) not_made [OF call(3)] in \<open>auto simp: fun_eq_iff bindE_Inr_iff points_def
        dest!: lock_frame simp del: polite.simps split: if_splits\<close>)
  qed
qed

lemma fits_works: "fits u w ok \<Longrightarrow> a \<noteq> NULL \<Longrightarrow> tags_heap s a = Some n \<Longrightarrow> node_is (types s) n u' \<Longrightarrow> same_tag u u' \<Longrightarrow>
    \<exists>r s'. w a s = Inr (r, s') \<and> ok r"
  by (simp add: fits_def)

lemma orderly_work:
  assumes ok: "orderly T h (todo, want, p, s)" and init: "tag_tree_inited s" and q: "p t = Inside a w"
  shows "\<exists>r s'. w a (s\<lparr>self := t\<rparr>) = Inr (r, s') \<and> want t r"
proof -
  have "place_ok T s (h t) (todo t) (want t) (p t)" using ok by (simp add: orderly_def)
  then obtain i u where u: "points s a i" "T i = Some u" "fits u w (want t)" using q by auto
  then obtain n where n: "a \<noteq> NULL" "tags_heap s a = Some n" "i = sint (tag_id n)" by (auto simp: points_def)
  obtain T' where T': "store_is s T'" "tags_of False T T'" using orderly_store [OF ok init] .
  obtain u' where u': "T' i = Some u'" "node_is (types s) n u'" using store_node [OF T'(1) n(2)] n(3) by auto
  have "same_tag u u'" using T'(2) u'(1) u(2) by (force simp: tags_of_def same_tag_def)
  then show ?thesis using fits_works [OF u(3) n(1), of "s\<lparr>self := t\<rparr>" n u'] n(2) u'(2) by simp
qed

lemma orderly_under_mutex:
  assumes ok: "orderly T h (todo, want, p, s)" and step: "advance (p t) (s\<lparr>self := t\<rparr>) = Inr (q, s')" and init: "tag_tree_inited s"
    and q: "(\<exists>w. p t = Inside a w) \<or> (\<exists>r. p t = Leaving a r)"
  shows "\<exists>k. orderly T (h(t := k)) (todo, want, p(t := q), s')"
proof -
  have tok: "threads_ok False T p s" and here: "place_ok T s (h t) (todo t) (want t) (p t)" using ok by (simp_all add: orderly_def)
  have new: "threads_ok False T (p(t := q)) s'"
    using threads_ok_advance [OF tok, of t] place_good [OF here] step by simp
  have "held_by s t a" using ok q by (auto simp: orderly_def)
  then obtain n where n: "tags_heap s a = Some n" "a \<noteq> NULL" "mtx n = Some t" by (auto simp: held_by_def)
  note touch = orderly_touch [OF ok new init n(1,2)]
  show ?thesis
  proof (cases "p t")
    case (Inside b w)
    then have b: "b = a" using q by auto
    obtain i u where f: "h t = None" "polite T None (todo t)" "fits u w (want t)" "points s a i" "T i = Some u"
      using here Inside b by auto
    obtain r where r: "w a (s\<lparr>self := t\<rparr>) = Inr (r, s')" "q = Leaving a r" using step Inside b by (auto simp: bindE_Inr_iff)
    obtain v where "node_is (types (s\<lparr>self := t\<rparr>)) n v" using world_node [of False T p s a n] tok init n(1) by (auto simp: threads_ok_def)
    moreover have "good_work w" using f(3) by (simp add: fits_def)
    ultimately have "node_only a (s\<lparr>self := t\<rparr>) s'" using good_workD(2) [of w a "s\<lparr>self := t\<rparr>" n v] n r(1) by simp
    then obtain c d es where s': "s' = s\<lparr>self := t, tags_heap := (tags_heap s)(a \<mapsto> n\<lparr>cb := c, data := d\<rparr>), events := es\<rparr>"
      using n(1) by (auto simp: node_only_def)
    have "want t r" using orderly_work [OF ok init, of t a w] Inside b r(1) by auto
    then show ?thesis
      by (intro touch [of "n\<lparr>cb := c, data := d\<rparr>" None]) (use Inside b f n r(2) s' in auto)
  next
    case (Leaving b r)
    then have b: "b = a" using q by auto
    have "q = Done r" "s' = s\<lparr>self := t, tags_heap := (tags_heap s)(a \<mapsto> n\<lparr>mtx := None, cb := cb n, data := data n\<rparr>)\<rparr>"
      using step Leaving b mutex_taken(2) [OF n(1,2), of t] n(3) by auto
    then show ?thesis
      by (intro touch [of "n\<lparr>mtx := None, cb := cb n, data := data n\<rparr>" None]) (use Leaving b n here in auto)
  qed (use q in auto)
qed

lemma orderly_pointer:
  assumes ok: "orderly T h (todo, want, p, s)" and step: "advance (p t) (s\<lparr>self := t\<rparr>) = Inr (q, s')" and init: "tag_tree_inited s"
    and t: "p t = Has c a"
  shows "\<exists>k. orderly T (h(t := k)) (todo, want, p(t := q), s')"
proof -
  have tok: "threads_ok False T p s" and here: "place_ok T s (h t) (todo t) (want t) (p t)" using ok by (simp_all add: orderly_def)
  have new: "threads_ok False T (p(t := q)) s'" using advance_pointer [OF tok init t] step by simp
  have pol: "polite T (h t) ((c, want t) # todo t)" and pt: "points s a (sint (call_id c))" using here t by simp_all
  obtain n where n: "tags_heap s a = Some n" "a \<noteq> NULL" using pt by (auto simp: points_def)
  note touch = orderly_touch [OF ok new init n] and mutex = mutex_taken [OF n, of t]
  obtain T' where "store_is s T'" using orderly_store [OF ok init] .
  note unique = points_unique [OF this _ pt]
  have other: "b = a \<or> \<not> points s b (sint (call_id c))" for b using unique by blast
  show ?thesis
  proof (cases c)
    case (Hold i)
    have "mtx n = None" "q = Done (uint PLCTAG_STATUS_OK)"
      "s' = s\<lparr>self := t, tags_heap := (tags_heap s)(a \<mapsto> n\<lparr>mtx := Some t, cb := cb n, data := data n\<rparr>)\<rparr>"
      using step t Hold mutex by (auto split: if_splits)
    then show ?thesis using pol pt t Hold other
      by (intro touch [of "n\<lparr>mtx := Some t, cb := cb n, data := data n\<rparr>" "Some i"]) (auto split: option.splits)
  next
    case (Release i)
    have "mtx n = Some t" "q = Done (uint PLCTAG_STATUS_OK)"
      "s' = s\<lparr>self := t, tags_heap := (tags_heap s)(a \<mapsto> n\<lparr>mtx := None, cb := cb n, data := data n\<rparr>)\<rparr>"
      using step t Release mutex by (auto split: if_splits)
    then show ?thesis using pol t Release other
      by (intro touch [of "n\<lparr>mtx := None, cb := cb n, data := data n\<rparr>" None]) (auto split: option.splits)
  next
    case (Probe i)
    then have "q = Done (uint PLCTAG_STATUS_OK)" "s' = s\<lparr>self := t\<rparr>" using step t by simp_all
    then show ?thesis using pol t Probe by (intro orderly_still [OF ok new]) (auto simp: fun_eq_iff split: option.splits)
  next
    case (Work i m w)
    have "mtx n = None" "q = Inside a w"
      "s' = s\<lparr>self := t, tags_heap := (tags_heap s)(a \<mapsto> n\<lparr>mtx := Some t, cb := cb n, data := data n\<rparr>)\<rparr>"
      using step t Work mutex by (auto split: if_splits)
    then show ?thesis using pol pt t Work
      by (intro touch [of "n\<lparr>mtx := Some t, cb := cb n, data := data n\<rparr>" None]) (auto split: option.splits)
  next
    case (Drop i)
    then show ?thesis using pol by (simp split: option.splits)
  next
    case (Make x)
    then show ?thesis using pol by (simp split: option.splits)
  qed
qed

lemma orderly_move:
  assumes ok: "orderly T h (todo, want, p, s)" and step: "advance (p t) (s\<lparr>self := t\<rparr>) = Inr (q, s')"
  shows "\<exists>k. orderly T (h(t := k)) (todo, want, p(t := q), s')"
proof (cases "early (p t)")
  case True
  then show ?thesis by (rule orderly_early [OF ok step])
next
  case False
  then have "tag_tree_inited s" using ok by (auto simp: orderly_def threads_ok_def split: if_splits)
  note cases = orderly_lookup [OF ok step this] orderly_under_mutex [OF ok step this] orderly_pointer [OF ok step this]
  have "place_ok T s (h t) (todo t) (want t) (p t)" using ok by (simp add: orderly_def)
  then show ?thesis using cases False by (cases "p t") (simp_all del: polite.simps advance.simps)
qed

lemma orderly_begin:
  assumes ok: "orderly T h (todo, want, p, s)" and t: "p t = Done r" "todo t = (c, wanted) # cs"
  shows "orderly T h (todo(t := cs), want(t := wanted), p(t := Begun c), s)"
proof -
  have pol: "polite T (h t) ((c, wanted) # cs)" using ok t by (auto simp: orderly_def dest!: spec [of _ t] simp del: polite.simps)
  have "threads_ok False T (p(t := Begun c)) s" using threads_ok_begin [of False T p s t r c] ok t(1) by (simp add: orderly_def)
  then show ?thesis using ok pol t(1) by (auto simp: orderly_def simp del: polite.simps split: if_splits)
qed

section \<open>Nobody waits for ever\<close>

lemma orderly_waits:
  assumes ok: "orderly T h (todo, want, p, s)" and stuck: "advance (p t) (s\<lparr>self := t\<rparr>) = Inl e"
  shows "e = Blocked"
proof -
  have tok: "threads_ok False T p s" and here: "place_ok T s (h t) (todo t) (want t) (p t)" using ok by (simp_all add: orderly_def)
  show ?thesis
  proof (rule ccontr)
    assume "e \<noteq> Blocked"
    then obtain u where wrong: "goes_wrong (p t) t s u"
      using threads_ok_advance [OF tok, of t] place_good [OF here] stuck by auto
    then have init: "tag_tree_inited s" using tok by (auto simp: goes_wrong_def threads_ok_def split: if_splits dest!: spec [of _ t])
    have own: "held_by s t a = owns s (h t) (p t) a" for a using ok by (simp add: orderly_def)
    from wrong consider c a where "p t = Has c a" "locks c" | a w where "p t = Inside a w"
      using place_good [OF here] by (auto simp: goes_wrong_def)
    then show False
    proof cases
      case (1 c a)
      then have "polite T (h t) ((c, want t) # todo t)" "points s a (sint (call_id c))" using here by simp_all
      then show False using wrong own [of a] 1
        by (cases c) (auto simp: goes_wrong_def points_def held_by_def split: option.splits)
    next
      case (2 a w)
      with orderly_work [OF ok init 2] show False using stuck by auto
    qed
  qed
qed

text \<open>Who has the lock of the tree, or a mutex inside a call, can go on.\<close>

lemma orderly_holder:
  assumes ok: "orderly T h (todo, want, p, s)" and q: "reading (p t) \<or> writing (p t) \<or> (\<exists>a w. p t = Inside a w) \<or> (\<exists>a r. p t = Leaving a r)"
  shows "\<exists>x. advance (p t) (s\<lparr>self := t\<rparr>) = Inr x"
proof (cases "advance (p t) (s\<lparr>self := t\<rparr>)")
  case (Inl e)
  have tok: "threads_ok False T p s" and here: "place_ok T s (h t) (todo t) (want t) (p t)" using ok by (simp_all add: orderly_def)
  then have l: "lock_agrees p (tag_tree_mtx (s\<lparr>self := t\<rparr>))" by (simp add: threads_ok_def)
  have blocked: "advance (p t) (s\<lparr>self := t\<rparr>) = Inl Blocked" using orderly_waits [OF ok Inl] Inl by simp
  show ?thesis
  proof (cases "reading (p t) \<or> writing (p t)")
    case True
    from lock_held [OF l this] obtain s1 where s1: "RW_UNLOCK (s\<lparr>self := t\<rparr>) = Inr s1" by blast
    have init: "tag_tree_inited s" if "\<not> early (p t)" using tok that by (auto simp: threads_ok_def split: if_splits)
    show ?thesis
    proof (cases "p t")
      case (Initing c)
      then show ?thesis using init_once [OF tok Initing] by auto
    next
      case (Searching c)
      then show ?thesis using find_ok [OF tok init Searching] by auto
    next
      case (Found c a)
      have "\<not> drops c" using here Found polite_call(2) by (auto simp del: polite.simps)
      then show ?thesis using s1 Found by simp
    qed (use True s1 here in \<open>auto simp: Let_def\<close>)
  next
    case False
    then consider a w where "p t = Inside a w" | a r where "p t = Leaving a r" using q by blast
    then show ?thesis
    proof cases
      case (1 a w)
      then have init: "tag_tree_inited s" using tok by (auto simp: threads_ok_def split: if_splits dest!: spec [of _ t])
      from advance_inside [OF tok init 1] place_good [OF here] blocked 1 show ?thesis by simp
    next
      case (2 a r)
      have "held_by s t a" using ok 2 by (simp add: orderly_def)
      then obtain n where n: "tags_heap s a = Some n" "a \<noteq> NULL" "mtx n = Some t" by (auto simp: held_by_def)
      then show ?thesis using 2 mutex_taken(2) [OF n(1,2), of t] by simp
    qed
  qed
qed blast

text \<open>In a state in which no thread can make a step, every thread has ended its program.\<close>

lemma stuck_lock_free:
  assumes ok: "orderly T h (todo, want, p, s)" and stuck: "\<And>t. \<nexists>x. advance (p t) (s\<lparr>self := t\<rparr>) = Inr x"
  shows "tag_tree_mtx s = RW_free" and "(\<exists>r. p t = Done r) \<or> (\<exists>c a. p t = Has c a)"
proof -
  note none = orderly_holder [OF ok] stuck
  have "lock_agrees p (tag_tree_mtx s)" using ok by (simp add: orderly_def threads_ok_def)
  then show free: "tag_tree_mtx s = RW_free"
    using none by (cases "tag_tree_mtx s") (force simp: lock_agrees_def card_gt_0_iff)+
  have here: "place_ok T s (h t) (todo t) (want t) (p t)" using ok by (simp add: orderly_def)
  have calls: "p t \<noteq> Begun c" "p t \<noteq> Unready c" for c
    using stuck [of t] free by (auto simp: RW_RDLOCK_def RW_WRLOCK_def split: if_splits)
  have "p t \<noteq> Ready c" for c
    using stuck [of t] free by (cases "exclusive c") (auto simp: RW_RDLOCK_def RW_WRLOCK_def)
  then show "(\<exists>r. p t = Done r) \<or> (\<exists>c a. p t = Has c a)"
    using none(1) [of t] stuck [of t] here calls by (cases "p t") (auto simp del: advance.simps)
qed

lemma stuck_unlocked:
  assumes ok: "orderly T h (todo, want, p, s)" and stuck: "\<And>t. \<nexists>x. advance (p t) (s\<lparr>self := t\<rparr>) = Inr x"
    and over: "\<And>t r. p t = Done r \<Longrightarrow> todo t = []"
  shows "h t = None"
proof -
  have here: "place_ok T s (h t) (todo t) (want t) (p t)" and own: "held_by s t a = owns s (h t) (p t) a" for a
    using ok by (simp_all add: orderly_def)
  from stuck_lock_free(2) [OF ok stuck, of t] consider r where "p t = Done r" | c a where "p t = Has c a" by blast
  then show ?thesis
  proof cases
    case (1 r)
    then show ?thesis using here over [of t r] by simp
  next
    case (2 c a)
    then have pol: "polite T (h t) ((c, want t) # todo t)" "points s a (sint (call_id c))" using here by simp_all
    then obtain n where n: "tags_heap s a = Some n" "a \<noteq> NULL" by (auto simp: points_def)
    show ?thesis
    proof (cases c)
      case (Release i)
      then have "held_by s t a" using own [of a] pol 2 by (auto split: option.splits)
      then show ?thesis using stuck [of t] 2 Release mutex_taken(2) [OF n, of t] n(1) by (auto simp: held_by_def)
    qed (use pol stuck [of t] 2 in \<open>auto split: option.splits\<close>)
  qed
qed

lemma orderly_live:
  assumes ok: "orderly T h (todo, want, p, s)" and more: "\<not> finished (todo, want, p, s)"
  shows "\<exists>y. client_step (todo, want, p, s) y"
proof (rule ccontr)
  assume none: "\<nexists>y. client_step (todo, want, p, s) y"
  have here: "place_ok T s (h t) (todo t) (want t) (p t)" and own: "held_by s t a = owns s (h t) (p t) a" for t a
    using ok by (simp_all add: orderly_def)
  have stuck: "\<nexists>x. advance (p t) (s\<lparr>self := t\<rparr>) = Inr x" for t
    using none go_on [of p t s _ _ todo want] place_good [OF here [of t]] by fastforce
  have ended: "todo t = [] \<and> want t r" if "p t = Done r" for t r
    using here [of t] that none begin_next [of p t r want todo _ _ _ s] by (cases "todo t") (auto simp del: polite.simps(2))
  then obtain t where "\<nexists>r. p t = Done r" using more by auto
  then obtain c a where t: "p t = Has c a" using stuck_lock_free(2) [OF ok stuck, of t] by blast
  have pol: "polite T (h t) ((c, want t) # todo t)" "points s a (sint (call_id c))" using here [of t] t by simp_all
  then obtain n where n: "tags_heap s a = Some n" "a \<noteq> NULL" by (auto simp: points_def)
  have unlocked: "h t' = None" for t' using stuck_unlocked [OF ok stuck] ended by blast
  have "\<not> held_by s t' a" for t' using own [of t' a] unlocked [of t'] stuck_lock_free(2) [OF ok stuck, of t'] by auto
  then have free: "mtx n = None" using n by (cases "mtx n") (auto simp: held_by_def)
  have "MTX_LOCK a (s\<lparr>self := t\<rparr>) \<noteq> Inl Blocked" "\<exists>s'. MTX_LOCK a (s\<lparr>self := t\<rparr>) = Inr s'"
    using mutex_taken(1) [OF n, of t] free by simp_all
  then have "\<exists>x. advance (p t) (s\<lparr>self := t\<rparr>) = Inr x" using t pol(1) unlocked [of t] by (cases c) (auto split: option.splits)
  with stuck [of t] show False ..
qed

section \<open>The cost of a run\<close>

lemma steps_decrease:
  assumes "advance q s = Inr (q', s')" and "place_ok T s0 h todo ok q"
  shows "steps_left q' < steps_left q"
  using assms by (cases "(q, s)" rule: advance.cases)
    (auto simp: bindE_Inr_iff Let_def split: if_splits call.splits dest: polite_call simp del: polite.simps)

lemma work_upd:
  assumes "finite A" and "t \<in> A" and "12 * length cs + steps_left q < 12 * length (todo t) + steps_left (p t)"
  shows "work_left A (todo(t := cs), want', p(t := q), s') < work_left A (todo, want, p, s)"
  unfolding work_left_def prod.case
proof (rule sum_strict_mono_ex1)
  show "\<exists>u \<in> A. 12 * length ((todo(t := cs)) u) + steps_left ((p(t := q)) u) < 12 * length (todo u) + steps_left (p u)"
    using assms by (intro bexI [of _ t]) simp_all
qed (use assms in auto)

text \<open>The threads of \<open>A\<close> have programs, the others none.\<close>

definition client_inv :: "store \<Rightarrow> nat set \<Rightarrow> clients \<Rightarrow> bool" where
  "client_inv T A x \<longleftrightarrow> finite A \<and> within A x \<and> (\<exists>h. orderly T h x)"

lemma client_inv_step:
  assumes inv: "client_inv T A x" and step: "client_step x y"
  shows "client_inv T A y \<and> work_left A y < work_left A x"
proof -
  obtain todo want p s where x: "x = (todo, want, p, s)" by (cases x)
  obtain h where A: "finite A" "within A x" and ok: "orderly T h (todo, want, p, s)" using inv x by (auto simp: client_inv_def)
  from step [unfolded x] show ?thesis
  proof (cases rule: client_stepE [consumes 1, case_names begin_next go_on])
    case (begin_next t r c wanted cs)
    have "t \<in> A" using A(2) begin_next by (auto simp: within_def x)
    moreover have "within A y" using A(2) \<open>t \<in> A\<close> by (auto simp: within_def x begin_next(1))
    ultimately show ?thesis using orderly_begin [OF ok begin_next(2,4)] A(1) begin_next work_upd [OF A(1) \<open>t \<in> A\<close>, of cs "Begun c" todo p]
      by (auto simp: client_inv_def x simp del: fun_upd_apply)
  next
    case (go_on t q s')
    have "t \<in> A" using A(2) go_on by (auto simp: within_def x)
    moreover have "within A y" using A(2) \<open>t \<in> A\<close> by (auto simp: within_def x go_on(1))
    moreover have "place_ok T s (h t) (todo t) (want t) (p t)" using ok by (simp add: orderly_def)
    note place = this steps_decrease [OF go_on(2) this] place_good [OF this]
    have "work_left A (todo(t := todo t), want, p(t := q), s') < work_left A (todo, want, p, s)"
      by (rule work_upd [OF A(1) \<open>t \<in> A\<close>]) (use place in simp)
    ultimately show ?thesis using orderly_move [OF ok go_on(2)] A(1) by (auto simp: client_inv_def x go_on(1) simp del: fun_upd_apply)
  qed
qed

interpretation clients: winding_down client_step "client_inv T A" finished "work_left A"
  for T A
proof unfold_locales
  fix x assume "client_inv T A x" and "\<not> finished x"
  then obtain h where "orderly T h x" by (auto simp: client_inv_def)
  with orderly_live [of T h "fst x" "fst (snd x)" "fst (snd (snd x))" "snd (snd (snd x))"] \<open>\<not> finished x\<close>
  show "\<exists>y. client_step x y" by simp
qed (use client_inv_step in blast)+

end
