(* ===== verification/Client_Props.thy ===== *)
theory Client_Props
  imports Clients
begin

text \<open>
  What disciplined programs can rely on, the work that is defined on every value of a tag (an access inside of the buffer is), and the program
  of \<open>test/05-tag-locking.c\<close>.
\<close>

section \<open>Work that always succeeds\<close>

text \<open>Registering a callback, reading and writing the tag, and an access whose bytes lie in the buffer: the result is
  success, or for a getter the value.\<close>

lemma fits_size: "(\<And>r. ok r) \<Longrightarrow> fits u size_work ok"
  by (simp add: fits_def good_size size_work_def)

lemma fits_register: "ok (uint PLCTAG_STATUS_OK) \<Longrightarrow> fits u (register_work f) ok"
  by (auto simp: fits_def good_register register_work_def upd_node_def get_node_def)

lemma fits_event:
  assumes "quiet cl" and "ok (uint PLCTAG_STATUS_OK)"
  shows "fits u (event_work cl i st co) ok"
  using assms by (auto simp: fits_def good_event event_work_def call_cb_def get_node_def quiet_def)

lemma fits_set:
  fixes v :: "'a::len word"
  assumes q: "quiet cl" and el: "element_at (t_type u) off = Some p" and b: "in_buffer u p (LENGTH('a) div 8)"
    and ok: "ok (uint PLCTAG_STATUS_OK)"
  shows "fits u (set_work cl i off v) ok"
  unfolding fits_def
proof (intro conjI allI impI)
  fix a and s :: lib and n u'
  assume n: "a \<noteq> NULL" "tags_heap s a = Some n" "node_is (types s) n u'" and same: "same_tag u u'"
  have "data n = t_data u'" using n(3) by (simp add: node_is_def)
  then obtain buf where buf: "setter_cb (data n) p v = Inr buf"
    using setter_in_buffer [of u' p v] b same by (auto simp: in_buffer_def same_tag_def)
  show "\<exists>r s'. set_work cl i off v a s = Inr (r, s') \<and> ok r"
    by (rule set_work_result [OF q n, of i off v]) (use el same buf ok in \<open>simp add: same_tag_def\<close>)
qed (rule good_set [OF q])

lemma fits_get:
  fixes conv :: "c_int \<Rightarrow> 'a::len word"
  assumes q: "quiet cl" and el: "element_at (t_type u) off = Some p" and b: "in_buffer u p (LENGTH('a) div 8)"
    and ok: "\<And>v :: 'a word. ok (uint v)"
  shows "fits u (get_work conv cl i off) ok"
  unfolding fits_def
proof (intro conjI allI impI)
  fix a and s :: lib and n u'
  assume n: "a \<noteq> NULL" "tags_heap s a = Some n" "node_is (types s) n u'" and same: "same_tag u u'"
  have "data n = t_data u'" using n(3) by (simp add: node_is_def)
  then obtain v :: "'a word" where v: "getter_cb (data n) p = Inr v"
    using getter_in_buffer [of u' p, where ?'a = 'a] b same by (auto simp: in_buffer_def same_tag_def)
  show "\<exists>r s'. get_work conv cl i off a s = Inr (r, s') \<and> ok r"
    by (rule get_work_result [OF q n, of conv i off]) (use el same v ok in \<open>simp add: same_tag_def\<close>)
qed (rule good_get [OF q])

section \<open>Programs that end\<close>

text \<open>No tag is locked.\<close>

definition all_free :: "store \<Rightarrow> bool" where
  "all_free T \<longleftrightarrow> (\<forall>t \<in> ran T. t_mtx t = None)"

lemma start_inv:
  assumes st: "api_store s T" and ready: "alloc_ready (init_cost s) s" and free: "all_free T"
    and pol: "\<forall>t. polite T None (scripts t)" and fin: "finite {t. scripts t \<noteq> []}"
  shows "client_inv T {t. scripts t \<noteq> []} (start scripts s)"
proof -
  have store: "if tag_tree_inited s then store_is s T else store_is s Map.empty" using st by (auto simp: api_store_def)
  have free': "T i = Some u \<Longrightarrow> t_mtx u = None" for i u using free by (auto simp: all_free_def ran_def)
  have "\<not> held_by s t a" for t a using store
    using unlocked_held [of s T, OF _ free'] unlocked_held [of s Map.empty] by (cases "tag_tree_inited s") auto
  then have "orderly T (\<lambda>_. None) (start scripts s)"
    using threads_ok_start [OF st ready] pol store store_points [of s T] by (simp add: orderly_def start_def)
  then show ?thesis using fin by (auto simp: client_inv_def within_def start_def)
qed

text \<open>All the steps the programs may take together.\<close>

definition all_steps :: "(nat \<Rightarrow> script) \<Rightarrow> nat" where
  "all_steps scripts = 12 * (\<Sum>t | scripts t \<noteq> []. length (scripts t))"

lemma start_work: "work_left {t. scripts t \<noteq> []} (start scripts s) = all_steps scripts"
  by (simp add: work_left_def start_def all_steps_def sum_distrib_left)

text \<open>C10: threads whose programs are disciplined (\<open>polite\<close>): every call is \<open>plc_tag_lock\<close>, \<open>plc_tag_unlock\<close>, \<open>plc_tag_status\<close> or
  one that works under the mutex of the tag, on an identifier of the store that is not the metatag's, so that nothing is created or
  destroyed; a thread unlocks just the tag it has locked, and does so before it locks another, makes a call that works, or ends; what a call does under
  the mutex is defined on every value of its tag, which rules out accesses outside of the buffer; and the results the
  program goes on with are those of calls that succeed. Then from the first call on, with no tag locked at the start, after any number of steps in any order, no
  thread is about to do anything undefined, every call has returned
  what the program goes on with, and either all programs have ended or some thread can make a step; and
  twelve steps for each call are all that can be made, so that every run ends with all programs ended.\<close>

theorem clients_finish:
  assumes "api_store s T" and "alloc_ready (init_cost s) s" and "all_free T"
    and "\<forall>t. polite T None (scripts t)" and "finite {t. scripts t \<noteq> []}"
    and run: "(client_step ^^ n) (start scripts s) (todo, want, p, s')"
  shows "n \<le> all_steps scripts
    \<and> (\<forall>t e. advance (p t) (s'\<lparr>self := t\<rparr>) = Inl e \<longrightarrow> e = Blocked)
    \<and> (\<forall>t r. p t = Done r \<longrightarrow> want t r)
    \<and> (finished (todo, want, p, s') \<or> (\<exists>y. client_step (todo, want, p, s') y))"
proof -
  let ?A = "{t. scripts t \<noteq> []}"
  from clients.run_inv [OF run start_inv [OF assms(1-5)]]
  have inv: "client_inv T ?A (todo, want, p, s')" and n: "n \<le> all_steps scripts" by (simp_all add: start_work)
  then obtain h where ok: "orderly T h (todo, want, p, s')" by (auto simp: client_inv_def)
  have "want t r" if "p t = Done r" for t r
    using ok that by (auto simp: orderly_def dest!: spec [of _ t])
  then show ?thesis using n clients.live [OF inv] orderly_waits [OF ok] by blast
qed

text \<open>The sixteen threads of the test, each of which locks tag 4 and gives it back, and expects both calls to succeed.\<close>

definition locking_test :: "nat \<Rightarrow> script" where
  "locking_test t = (if t < 16 then
     [(Hold 4, \<lambda>ret. ret = uint PLCTAG_STATUS_OK), (Release 4, \<lambda>ret. ret = uint PLCTAG_STATUS_OK)] else [])"

lemma locking_test_polite: "\<forall>t. polite default_store None (locking_test t)" "finite {t. locking_test t \<noteq> []}"
  and locking_test_steps: "all_steps locking_test = 384"
proof -
  have a: "{t. locking_test t \<noteq> []} = {..<16}" by (auto simp: locking_test_def)
  show "\<forall>t. polite default_store None (locking_test t)"
    by (simp add: locking_test_def METATAG_ID_def default_store_def tags_inc_def)
  show "finite {t. locking_test t \<noteq> []}" unfolding a by simp
  show "all_steps locking_test = 384" unfolding all_steps_def a by (simp add: locking_test_def)
qed

theorem clients_finish_witness:
  "\<exists>n y. n \<le> 384 \<and> (client_step ^^ n) (start locking_test (demo_lib 60)) y \<and> finished y"
proof -
  have ready: "alloc_ready (init_cost (demo_lib 60)) (demo_lib 60)" using demo_lib_ready [of 60 30] by simp
  have "all_free default_store" using default_unlocked by (auto simp: all_free_def ran_def)
  note hyps = demo_lib_store [of 60] ready this locking_test_polite
  obtain n y where y: "(client_step ^^ n) (start locking_test (demo_lib 60)) y" "finished y"
    using clients.run_end [OF start_inv [OF hyps]] by blast
  moreover have "n \<le> 384" using clients_finish [OF hyps, of n "fst y" "fst (snd y)" "fst (snd (snd y))" "snd (snd (snd y))"] y(1)
    by (simp add: locking_test_steps)
  ultimately show ?thesis by blast
qed

end
