(* ===== verification/Test_Programs.thy ===== *)
theory Test_Programs
  imports Create_Props Debug
begin

text \<open>
  The programs of \<^verbatim>\<open>test/\<close> that use one thread: \<^verbatim>\<open>01-log_level.c\<close>, \<^verbatim>\<open>02-set_tag_cb.c\<close>, \<^verbatim>\<open>03-tag_create.c\<close>,
  \<^verbatim>\<open>04-metatag_lookup.c\<close> and \<^verbatim>\<open>06-types.c\<close> (for \<^verbatim>\<open>05-tag-locking.c\<close> see \<open>Client_Props\<close>), and that they pass: they return
  zero on every library that has not been called before and has memory enough. A process is the state of the library and that of
  the log; what \<open>printf\<close> writes to the standard output is left out.
\<close>

section \<open>Processes\<close>

type_synonym process = "lib \<times> debug_state"

text \<open>\<open>errx(1, ...)\<close> and a failed \<open>assert\<close> end the process.\<close>

definition expect :: "bool \<Rightarrow> 'a \<Rightarrow> stop + 'a" where
  "expect b x = (if b then Inr x else Inl Exit)"

lemma expect_simps [simp]: "expect True x = Inr x" "expect False x = Inl Exit"
  by (simp_all add: expect_def)

section \<open>The programs\<close>

subsection \<open>01-log\_level.c\<close>

text \<open>\<open>file\<close> is \<open>__FILE__\<close>.\<close>

definition log_level_main :: "string \<Rightarrow> debug_state \<Rightarrow> stop + c_int \<times> debug_state" where
  "log_level_main file d =
     bindE (plc_tag_set_debug_level PLCTAG_DEBUG_DETAIL d) (\<lambda>d.
     bindE (pdebug ''main'' file ''10'' PLCTAG_DEBUG_SPEW ''Testing spew level (should not appear)...'' d) (\<lambda>d.
     bindE (pdebug ''main'' file ''11'' PLCTAG_DEBUG_DETAIL ''Testing detail level (should appear)...'' d) (\<lambda>d.
     bindE (pdebug ''main'' file ''12'' PLCTAG_DEBUG_INFO ''Testing info level (should appear)...'' d) (\<lambda>d.
     Inr (0, d)))))"

subsection \<open>02-set\_tag\_cb.c\<close>

text \<open>\<open>callback\<close> is the address of the function, whose code, a log message, is that of the client \<open>cl\<close>.\<close>

definition TAGID :: c_int where
  "TAGID = 3"

definition set_tag_cb_main :: "client \<Rightarrow> addr \<Rightarrow> process \<Rightarrow> stop + c_int \<times> process" where
  "set_tag_cb_main cl callback = (\<lambda>(s, d).
     bindE (plc_tag_set_debug_level PLCTAG_DEBUG_DETAIL d) (\<lambda>d.
     bindE (plc_tag_register_callback TAGID callback s) (\<lambda>(_, s).
     bindE (plc_tag_set_int32 cl TAGID 0 0 s) (\<lambda>(_, s).
     bindE (plc_tag_set_int32 cl TAGID 0 1 s) (\<lambda>(_, s).
     bindE (plc_tag_set_int32 cl 42 0 1 s) (\<lambda>(_, s).
     Inr (0, s, d)))))))"

subsection \<open>03-tag\_create.c\<close>

text \<open>The directive \<open>%d\<close> for a number that is not negative, and the string \<open>snprintf\<close> makes, cut to the buffer.\<close>

function decimal :: "nat \<Rightarrow> string" where
  "decimal n = (if n < 10 then [char_of (48 + n)] else decimal (n div 10) @ [char_of (48 + n mod 10)])"
  by pat_completeness auto
termination by (relation "measure id") auto

declare decimal.simps [simp del]

definition create_buf :: "nat \<Rightarrow> nat \<Rightarrow> string" where
  "create_buf num_elems tid = take 1023
     (''protocol=ab_eip&gateway=10.206.1.40&path=1,4&cpu=lgx&elem_size=4&elem_count='' @ decimal num_elems
       @ ''&name=TestBigArray['' @ decimal ((tid - 1) * num_elems) @ '']&debug=4'')"

definition tag_create_main :: "process \<Rightarrow> stop + c_int \<times> process" where
  "tag_create_main = (\<lambda>(s, d).
     bindE (plc_tag_set_debug_level PLCTAG_DEBUG_DETAIL d) (\<lambda>d.
     bindE (plc_tag_create (CStr (create_buf 16 42)) 1000 s) (\<lambda>(ret, s).
     bindE (expect (\<not> ret <s 0) ()) (\<lambda>_.
     Inr (0, s, d)))))"

subsection \<open>04-metatag\_lookup.c\<close>

definition TAG_NAME_LENGTH :: "16 word" where
  "TAG_NAME_LENGTH = of_nat (length ''DUMMY_AQUA_DATA_0'')"

definition tag_str :: string where
  "tag_str = ''protocol=ab_eip&gateway=10.206.1.40&path=1,4&cpu=lgx&elem_size=4&elem_count=1&name=TestInsert&debug=4''"

definition metatag_lookup_main :: "client \<Rightarrow> process \<Rightarrow> stop + c_int \<times> process" where
  "metatag_lookup_main cl = (\<lambda>(s, d).
     bindE (plc_tag_set_debug_level PLCTAG_DEBUG_SPEW d) (\<lambda>d.
     bindE (plc_tag_read cl METATAG_ID 1000 s) (\<lambda>(ret, s).
     bindE (expect (ret = PLCTAG_STATUS_OK) 0) (\<lambda>offset.
     bindE (plc_tag_get_int32 cl METATAG_ID offset s) (\<lambda>(s4, s).
     bindE (expect (s4 = 2) (offset + 4 + 2)) (\<lambda>offset.
     bindE (plc_tag_get_int16 cl METATAG_ID offset s) (\<lambda>(s2, s).
     bindE (expect (sint s2 = 2) (offset + 2)) (\<lambda>offset.
     bindE (plc_tag_get_int32 cl METATAG_ID offset s) (\<lambda>(s4, s).
     bindE (expect (s4 = 0) (offset + 4 * 3)) (\<lambda>offset.
     bindE (plc_tag_get_int16 cl METATAG_ID offset s) (\<lambda>(s2, s).
     bindE (expect (sint s2 = uint TAG_NAME_LENGTH) 1000) (\<lambda>offset.
     bindE (plc_tag_get_int16 cl METATAG_ID offset s) (\<lambda>(s2, s).
     bindE (expect (sint s2 = sint PLCTAG_ERR_BAD_PARAM) ()) (\<lambda>_.
     bindE (plc_tag_create (CStr tag_str) 1000 s) (\<lambda>(ret, s).
     bindE (expect (\<not> ret <s 0) ()) (\<lambda>_.
     Inr (0, s, d)))))))))))))))))"

subsection \<open>06-types.c\<close>

text \<open>The calls of \<open>type_to_enum\<close> and \<open>type_size_bytes\<close> with what the program asserts of their results.\<close>

fun assert_enums :: "mem \<Rightarrow> (addr \<times> tag_type_e) list \<Rightarrow> stop + unit" where
  "assert_enums m [] = Inr ()"
| "assert_enums m ((t, e) # cs) = bindE (type_to_enum m t) (\<lambda>r. bindE (expect (r = e) ()) (\<lambda>_. assert_enums m cs))"

fun assert_sizes :: "mem \<Rightarrow> (addr \<times> size_t) list \<Rightarrow> stop + unit" where
  "assert_sizes m [] = Inr ()"
| "assert_sizes m ((t, sz) # cs) = bindE (type_size_bytes m t) (\<lambda>r. bindE (expect (r = sz) ()) (\<lambda>_. assert_sizes m cs))"

definition type_literals :: "(addr \<times> tag_type_e) list" where
  "type_literals = map (\<lambda>e. (SIMPLE_TYPE e, e)) [TAG_BOOL, TAG_SINT, TAG_INT, TAG_DINT, TAG_REAL, TAG_LINT]"

definition test_tag_type :: "addr \<Rightarrow> addr \<Rightarrow> addr \<Rightarrow> addr \<Rightarrow> mem \<Rightarrow> stop + unit" where
  "test_tag_type nonsense array_of_16_bools array_of_7_dints struct_of_three_ints m =
     assert_enums m ((NULL, TAG_ERROR) # (nonsense, TAG_ERROR) # type_literals
       @ [(array_of_16_bools, TAG_ARRAY), (array_of_7_dints, TAG_ARRAY), (struct_of_three_ints, TAG_STRUCT)])"

definition test_tag_size :: "addr \<Rightarrow> addr \<Rightarrow> addr \<Rightarrow> addr \<Rightarrow> mem \<Rightarrow> stop + unit" where
  "test_tag_size nonsense array_of_16_bools array_of_7_dints struct_of_three_ints m =
     assert_sizes m [(NULL, 0), (nonsense, 0), (SIMPLE_TYPE TAG_BOOL, 1), (SIMPLE_TYPE TAG_SINT, 1), (SIMPLE_TYPE TAG_INT, 2),
       (SIMPLE_TYPE TAG_DINT, 4), (SIMPLE_TYPE TAG_REAL, 4), (SIMPLE_TYPE TAG_LINT, 8),
       (array_of_16_bools, 16), (array_of_7_dints, 4 * 7), (struct_of_three_ints, 2 * 3)]"

text \<open>\<open>main\<close> never calls this one.\<close>

fun test_tag_dup :: "(addr \<times> tag_type_e) list \<Rightarrow> mem \<Rightarrow> stop + mem" where
  "test_tag_dup [] m = Inr m"
| "test_tag_dup ((t, e) # cs) m = bindE (type_dup t m) (\<lambda>(t', m).
     bindE (type_to_enum m t') (\<lambda>r. bindE (expect (r = e) ()) (\<lambda>_. test_tag_dup cs m)))"

definition types_init :: "mem \<Rightarrow> stop + (addr \<times> addr \<times> addr) \<times> mem" where
  "types_init m =
     bindE (type_new_array 16 (SIMPLE_TYPE TAG_BOOL) m) (\<lambda>(array_of_16_bools, m).
     bindE (type_new_array 7 (SIMPLE_TYPE TAG_DINT) m) (\<lambda>(array_of_7_dints, m).
     bindE (type_new_struct 3 [(CStr ''field_1'', SIMPLE_TYPE TAG_INT), (CStr ''field_2'', SIMPLE_TYPE TAG_INT),
         (CStr ''field_3'', SIMPLE_TYPE TAG_INT)] m) (\<lambda>(struct_of_three_ints, m).
     Inr ((array_of_16_bools, array_of_7_dints, struct_of_three_ints), m))))"

definition types_tidy :: "addr \<Rightarrow> addr \<Rightarrow> addr \<Rightarrow> mem \<Rightarrow> stop + mem" where
  "types_tidy array_of_16_bools array_of_7_dints struct_of_three_ints m =
     bindE (type_free array_of_16_bools m) (\<lambda>m.
     bindE (type_free array_of_7_dints m) (\<lambda>m.
     type_free struct_of_three_ints m))"

definition types_main :: "addr \<Rightarrow> mem \<Rightarrow> stop + c_int \<times> mem" where
  "types_main nonsense m =
     bindE (types_init m) (\<lambda>((array_of_16_bools, array_of_7_dints, struct_of_three_ints), m).
     bindE (test_tag_type nonsense array_of_16_bools array_of_7_dints struct_of_three_ints m) (\<lambda>_.
     bindE (test_tag_size nonsense array_of_16_bools array_of_7_dints struct_of_three_ints m) (\<lambda>_.
     bindE (types_tidy array_of_16_bools array_of_7_dints struct_of_three_ints m) (\<lambda>m.
     Inr (0, m)))))"

section \<open>The log\<close>

lemma log_level_passes:
  assumes "debug_ok d"
  shows "log_level_main file d = Inr (0, d\<lparr>debug_level := PLCTAG_DEBUG_DETAIL, stderr_text := stderr_text d
     @ ''plcstub [DETAIL]: '' @ file @ '':11 main: Testing detail level (should appear)...'' @ newline
     @ ''plcstub [INFO]: '' @ file @ '':12 main: Testing info level (should appear)...'' @ newline\<rparr>)"
  using assms unfolding log_level_main_def plc_tag_set_debug_level_def debug_set_level_iff
  by (simp add: pdebug_def pdebug_impl_def debug_get_level_def debug_level_str_def debug_ok_def level_defs word_sle_eq
      heading_def print_def debug_lock_def debug_unlock_def)

lemma level_set: "debug_ok d \<Longrightarrow> 0 \<le> sint l \<Longrightarrow> sint l \<le> 5 \<Longrightarrow> plc_tag_set_debug_level l d = Inr (d\<lparr>debug_level := l\<rparr>)"
  by (simp add: plc_tag_set_debug_level_def debug_set_level_iff)

section \<open>Calls one after the other\<close>

text \<open>The library between two calls: the tags, the allocations left, what new memory contains, the events so far.\<close>

definition rests :: "nat \<Rightarrow> lib \<Rightarrow> store \<Rightarrow> (nat \<Rightarrow> byte) \<Rightarrow> event list \<Rightarrow> bool" where
  "rests n s T junk es \<longleftrightarrow> api_store s T \<and> ready_for n s \<and> names_total T < 2 ^ 64 \<and> dirt s = junk \<and> events s = es"

lemma rests_lookup: "rests (4 + n) s T junk es \<Longrightarrow> lookup_ready n s T"
  unfolding rests_def by (blast intro: still_ready)

lemma rests_step:
  assumes "rests m s T junk es" and "refines n c s (Inr (r, T', es'))" and "names_total T' < 2 ^ 64"
  shows "\<exists>s'. c = Inr (r, s') \<and> rests n s' T' junk (es @ es')"
proof -
  obtain s' where "c = Inr (r, s')" "api_store s' T'" "events s' = events s @ es'" "keeps_rest s s'" "ready_for n s'"
    by (rule refinesE [OF assms(2)])
  then show ?thesis using assms(1,3) by (auto simp: rests_def keeps_rest_def)
qed

lemma told_none: "t_cb t = NULL \<Longrightarrow> told t i es = []"
  by (simp add: told_def)

lemma get_rests:
  fixes conv :: "c_int \<Rightarrow> 'a::len word"
  assumes s: "rests (4 + n) s T junk es" and q: "quiet cl" and t: "T (sint i) = Some t" "t_mtx t = None" "t_cb t = NULL"
    and p: "element_at (t_type t) off = Some p" "getter_cb (t_data t) p = Inr v"
  shows "\<exists>s'. GETTER conv cl i off s = Inr (v, s') \<and> rests n s' T junk es"
proof -
  have st: "api_store s T" "names_total T < 2 ^ 64" using s by (simp_all add: rests_def)
  have "refines n (GETTER conv cl i off s) s (Inr (v, T, []))"
    using get_found [OF st(1) rests_lookup [OF s] q t(1,2), of conv off] p by (simp add: told_none [OF t(3)])
  from rests_step [OF s this st(2)] show ?thesis by simp
qed

lemma get_rejected_rests:
  fixes conv :: "c_int \<Rightarrow> 'a::len word"
  assumes s: "rests (4 + n) s T junk es" and q: "quiet cl" and t: "T (sint i) = Some t" "t_mtx t = None" "t_cb t = NULL"
    and p: "element_at (t_type t) off = None"
  shows "\<exists>s'. GETTER conv cl i off s = Inr (conv PLCTAG_ERR_BAD_PARAM, s') \<and> rests n s' T junk es"
proof -
  have st: "api_store s T" "names_total T < 2 ^ 64" using s by (simp_all add: rests_def)
  have "refines n (GETTER conv cl i off s) s (Inr (conv PLCTAG_ERR_BAD_PARAM, T, []))"
    using get_found [OF st(1) rests_lookup [OF s] q t(1,2), of conv off] p by (simp add: told_none [OF t(3)])
  from rests_step [OF s this st(2)] show ?thesis by simp
qed

lemma set_rests:
  fixes v :: "'a::len word"
  assumes s: "rests (4 + n) s T junk es" and q: "quiet cl" and t: "T (sint i) = Some t" "t_mtx t = None"
    and p: "element_at (t_type t) off = Some p" "setter_cb (t_data t) p v = Inr buf"
  shows "\<exists>s'. SETTER cl i off v s = Inr (PLCTAG_STATUS_OK, s') \<and> rests n s' (T(sint i \<mapsto> t\<lparr>t_data := buf\<rparr>)) junk
    (es @ told t i [(PLCTAG_EVENT_WRITE_STARTED, PLCTAG_STATUS_OK), (PLCTAG_EVENT_WRITE_COMPLETED, PLCTAG_STATUS_OK)])"
proof -
  have st: "api_store s T" "names_total T < 2 ^ 64" using s by (simp_all add: rests_def)
  have n: "names_total (T(sint i \<mapsto> t\<lparr>t_data := buf\<rparr>)) < 2 ^ 64"
    using names_total_same [OF api_store_finite [OF st(1)] t(1), of "t\<lparr>t_data := buf\<rparr>"] st(2) by simp
  show ?thesis
    by (rule rests_step [OF s _ n]) (use set_found [OF st(1) rests_lookup [OF s] q t(1,2), of off v] p in simp)
qed

lemma create_rests:
  assumes s: "rests (5 + n) s T junk es" and kvs: "\<forall>kv \<in> set kvs. plain_pair kv" "last_name kvs = Some x" "x \<noteq> ''@tags''"
    and free: "\<not> locked T 1" and room: "fresh_id T < 2 ^ 31"
    and total: "names_total (T(1 := None, fresh_id T \<mapsto> new_tag x (Simple TAG_LINT) None)) < 2 ^ 64"
  shows "\<exists>s'. plc_tag_create (CStr (attrib_string kvs)) timeout s = Inr (word_of_int (fresh_id T), s')
    \<and> rests n s' (T(1 := None, fresh_id T \<mapsto> new_tag x (Simple TAG_LINT) None)) junk es"
proof -
  have st: "api_store s T" "ready_for (5 + n) s" "names_total T < 2 ^ 64" using s by (simp_all add: rests_def)
  have "attributes (tokens (attrib_string kvs)) None = Inr (Inr (last_name kvs))"
    using attributes_pairs [OF kvs(1)] by (simp add: tokens_attrib_string [OF kvs(1)] option.case_eq_if)
  from create_outcome [OF st this, of timeout] kvs(2,3) free room
  have "refines n (plc_tag_create (CStr (attrib_string kvs)) timeout s) s
      (Inr (word_of_int (fresh_id T), T(1 := None, fresh_id T \<mapsto> new_tag x (Simple TAG_LINT) None), []))"
    by (simp add: insert_spec_def)
  from rests_step [OF s this total] show ?thesis by simp
qed

section \<open>The programs pass\<close>

lemma default_names_add: "length x \<le> 100 \<Longrightarrow> names_total (default_store(i \<mapsto> new_tag x ty me)) < 2 ^ 64"
  using names_total_add [of default_store i "new_tag x ty me"] default_store_dom
  by (simp add: default_names sizeof_metatag_def new_tag_def)

lemma set_tag_cb_passes:
  assumes s: "rests 16 s default_store junk es" and q: "quiet cl" and d: "debug_ok d" and f: "callback \<noteq> NULL"
  shows "\<exists>s' d' t. set_tag_cb_main cl callback (s, d) = Inr (0, s', d') \<and> api_store s' (default_store(3 \<mapsto> t))
    \<and> t_cb t = callback \<and> getter_cb (t_data t) 0 = Inr (1 :: 32 word)
    \<and> events s' = es @ concat (replicate 2 [(callback, TAGID, PLCTAG_EVENT_WRITE_STARTED, PLCTAG_STATUS_OK),
        (callback, TAGID, PLCTAG_EVENT_WRITE_COMPLETED, PLCTAG_STATUS_OK)])"
proof -
  define t0 where "t0 = the (default_store 3)"
  have t0: "default_store 3 = Some t0" "t_mtx t0 = None" "element_at (t_type t0) 0 = Some 0"
    "setter_cb (t_data t0) 0 (0 :: 32 word) = Inr (le_bytes 4 (0 :: 32 word) @ drop 4 (t_data t0))" "length (t_data t0) = 8"
    by (simp_all add: t0_def default_store_def tags_inc_def defined_tag_def new_tag_def element_at_def setter_cb_def write_bytes_def)
  define t1 where "t1 = t0\<lparr>t_cb := callback\<rparr>"
  define t2 where "t2 = t1\<lparr>t_data := le_bytes 4 (0 :: 32 word) @ drop 4 (t_data t0)\<rparr>"
  define t3 where "t3 = t2\<lparr>t_data := le_bytes 4 (1 :: 32 word) @ drop 4 (t_data t0)\<rparr>"
  let ?T = "\<lambda>t. default_store(3 \<mapsto> t)"
  let ?es = "[(callback, TAGID, PLCTAG_EVENT_WRITE_STARTED, PLCTAG_STATUS_OK), (callback, TAGID, PLCTAG_EVENT_WRITE_COMPLETED, PLCTAG_STATUS_OK)]"
  have fin: "finite (dom default_store)" by (simp add: default_store_dom)
  have n: "names_total (?T t1) < 2 ^ 64" using names_total_same [OF fin t0(1), of t1] by (simp add: t1_def default_names)
  have l: "looked_up T j 3 = T" "looked_up T j 42 = T" for T j by (simp_all add: looked_up_def)
  have reg: "register_spec TAGID callback (looked_up default_store junk (sint TAGID)) = Inr (PLCTAG_STATUS_OK, ?T t1, [])"
    by (simp add: register_spec_def with_tag_def TAGID_def l t0 t1_def)
  have "api_store s default_store" "dirt s = junk" using s by (simp_all add: rests_def)
  from register_refines [OF this(1), of 12 TAGID callback] rests_lookup [of 12 s] s this(2) reg
  have "refines 12 (plc_tag_register_callback TAGID callback s) s (Inr (PLCTAG_STATUS_OK, ?T t1, []))" by simp
  from rests_step [OF s this n] obtain s1 where s1: "plc_tag_register_callback TAGID callback s = Inr (PLCTAG_STATUS_OK, s1)"
    "rests (4 + 8) s1 (?T t1) junk es" by auto
  have "set": "?T t1 (sint TAGID) = Some t1" "t_mtx t1 = None" "element_at (t_type t1) 0 = Some 0"
    "setter_cb (t_data t1) 0 (0 :: 32 word) = Inr (t_data t2)" "told t1 TAGID xs = map (\<lambda>(e, r). (callback, TAGID, e, r)) xs" for xs
    using t0 f by (simp_all add: t1_def t2_def TAGID_def told_def)
  have upd: "(?T t1)(sint TAGID \<mapsto> t1\<lparr>t_data := t_data t2\<rparr>) = ?T t2" "(?T t2)(sint TAGID \<mapsto> t2\<lparr>t_data := t_data t3\<rparr>) = ?T t3"
    by (simp_all add: TAGID_def t2_def t3_def)
  obtain s2 where s2: "plc_tag_set_int32 cl TAGID 0 0 s1 = Inr (PLCTAG_STATUS_OK, s2)"
    "rests (4 + 4) s2 (?T t2) junk (es @ ?es)"
    using set_rests [OF s1(2) q "set"(1-4), unfolded upd "set"(5)] by (auto simp: plc_tag_set_int32_def)
  have "setter_cb (t_data t2) 0 (1 :: 32 word) = Inr (t_data t3)" using t0(5) by (simp add: t2_def t3_def setter_cb_def write_bytes_def)
  moreover have "?T t2 (sint TAGID) = Some t2" "t_mtx t2 = None" "element_at (t_type t2) 0 = Some 0"
    "told t2 TAGID xs = map (\<lambda>(e, r). (callback, TAGID, e, r)) xs" for xs
    using "set" f by (simp_all add: t2_def told_def t1_def TAGID_def)
  note set2 = this calculation
  obtain s3 where s3: "plc_tag_set_int32 cl TAGID 0 1 s2 = Inr (PLCTAG_STATUS_OK, s3)"
    "rests (4 + 0) s3 (?T t3) junk (es @ ?es @ ?es)"
    using set_rests [OF s2(2) q set2(1-3,5), unfolded upd set2(4)] by (auto simp: plc_tag_set_int32_def)
  have st3: "api_store s3 (?T t3)" "names_total (?T t3) < 2 ^ 64" "dirt s3 = junk" using s3(2) by (simp_all add: rests_def)
  have "default_store 42 = None" by (simp add: default_store_def tags_inc_def)
  then have "set_spec 42 0 (1 :: 32 word) (looked_up (?T t3) junk (sint (42 :: c_int))) = Inr (PLCTAG_ERR_NOT_FOUND, ?T t3, [])"
    by (simp add: set_spec_def with_tag_def l)
  with set_impl_refines [OF st3(1) rests_lookup [OF s3(2)] q, of 42 0 "1 :: 32 word"] st3(3)
  have "refines 0 (SETTER cl 42 0 (1 :: 32 word) s3) s3 (Inr (PLCTAG_ERR_NOT_FOUND, ?T t3, []))" by simp
  from rests_step [OF s3(2) this st3(2)] obtain s4 where s4: "plc_tag_set_int32 cl 42 0 1 s3 = Inr (PLCTAG_ERR_NOT_FOUND, s4)"
    "rests 0 s4 (?T t3) junk (es @ ?es @ ?es)" by (auto simp: plc_tag_set_int32_def)
  have "set_tag_cb_main cl callback (s, d) = Inr (0, s4, d\<lparr>debug_level := PLCTAG_DEBUG_DETAIL\<rparr>)"
    using s1(1) s2(1) s3(1) s4(1) level_set [OF d, of PLCTAG_DEBUG_DETAIL] by (simp add: set_tag_cb_main_def PLCTAG_DEBUG_DETAIL_def)
  moreover have "getter_cb (t_data t3) 0 = Inr (1 :: 32 word)"
    using t0(5) of_le_le_bytes [of 4 "1 :: 32 word"] by (simp add: t3_def getter_cb_def)
  moreover have "t_cb t3 = callback" by (simp add: t3_def t2_def t1_def)
  moreover have "api_store s4 (?T t3)" "events s4 = es @ concat (replicate 2 ?es)"
    using s4(2) by (simp_all add: rests_def numeral_2_eq_2)
  ultimately show ?thesis by blast
qed

lemma decimals: "decimal 16 = ''16''" "decimal 656 = ''656''"
  by code_simp+

definition create_pairs :: "(string \<times> string) list" where
  "create_pairs = [(''protocol'', ''ab_eip''), (''gateway'', ''10.206.1.40''), (''path'', ''1,4''),
    (''cpu'', ''lgx''), (''elem_size'', ''4''), (''elem_count'', ''16''), (''name'', ''TestBigArray[656]''), (''debug'', ''4'')]"

lemma create_pairs: "create_buf 16 42 = attrib_string create_pairs" "\<forall>kv \<in> set create_pairs. plain_pair kv"
  "last_name create_pairs = Some ''TestBigArray[656]''"
  by (simp_all add: create_buf_def decimals create_pairs_def plain_pair_def last_name_def)

lemma tag_create_passes:
  assumes s: "rests 5 s default_store junk es" and d: "debug_ok d"
  shows "\<exists>s' d'. tag_create_main (s, d) = Inr (0, s', d') \<and> events s' = es
    \<and> api_store s' (default_store(12 \<mapsto> new_tag ''TestBigArray[656]'' (Simple TAG_LINT) None))"
proof -
  let ?T = "default_store(12 \<mapsto> new_tag ''TestBigArray[656]'' (Simple TAG_LINT) None)"
  have n: "default_store(1 := None) = default_store" using default_none by auto
  have "\<exists>s'. plc_tag_create (CStr (create_buf 16 42)) 1000 s = Inr (12, s') \<and> rests 0 s' ?T junk es"
    using create_rests [of 0 s default_store junk es create_pairs "''TestBigArray[656]''" 1000] s default_names_add [of "''TestBigArray[656]''"]
    by (simp add: default_fresh n create_pairs locked_def default_none)
  then obtain s' where "plc_tag_create (CStr (create_buf 16 42)) 1000 s = Inr (12, s')" "rests 0 s' ?T junk es" by blast
  moreover have "\<not> (12 :: c_int) <s 0" by (simp add: word_sless_alt)
  ultimately show ?thesis
    using level_set [OF d, of PLCTAG_DEBUG_DETAIL] by (simp add: tag_create_main_def PLCTAG_DEBUG_DETAIL_def rests_def)
qed

text \<open>The first record of the metatag, as a client reads it.\<close>

lemma first_record:
  obtains rest where "t_data (metatag default_store junk) = tag_record 2 (the (default_store 2)) @ rest"
proof -
  have n: "default_store(1 := None) = default_store" using default_none by auto
  have "sorted_list_of_set (dom default_store) = [2, 3, 4, 5, 6, 7, 8, 9, 10, 11]" unfolding default_store_dom by simp
  then show thesis using that by (simp add: metatag_def n metatag_image_def)
qed

lemma getter_field:
  "p < 2 ^ 31 \<Longrightarrow> p + LENGTH('a::len) div 8 \<le> length buf \<Longrightarrow>
     (getter_cb buf (of_nat p) :: stop + 'a word) = Inr (field_at p (LENGTH('a) div 8) buf)"
proof -
  assume p: "p < 2 ^ 31" "p + LENGTH('a::len) div 8 \<le> length buf"
  then have "unat (of_nat p :: c_int) = p" by (simp add: unat_of_nat)
  moreover have "sint (word_of_int (int p) :: c_int) = int p"
    using p(1) signed_take_bit_int_eq_self [of 31 "int p"] by (simp only: sint_sbintrunc') simp
  then have "0 \<le>s (of_nat p :: c_int)" by (simp add: word_sle_eq)
  ultimately show ?thesis using p(2) by (simp add: getter_cb_def field_at_def)
qed

lemma metatag_fields:
  fixes junk
  defines "buf \<equiv> t_data (metatag default_store junk)"
  shows "getter_cb buf 0 = Inr (2 :: 32 word)" "getter_cb buf 6 = Inr (2 :: 16 word)" "getter_cb buf 8 = Inr (0 :: 32 word)"
    "getter_cb buf 20 = Inr (17 :: 16 word)"
proof -
  obtain rest where r: "buf = tag_record 2 (the (default_store 2)) @ rest" unfolding buf_def by (rule first_record)
  have t: "t_name (the (default_store 2)) = ''DUMMY_AQUA_DATA_0''" "t_type (the (default_store 2)) = Simple TAG_INT"
    by (simp_all add: default_store_def tags_inc_def defined_tag_def new_tag_def)
  have "length (t_name (the (default_store 2))) < 2 ^ 16" by (simp add: t)
  note f = record_fields [OF this, of 2 rest, folded r, unfolded t]
  have len: "length buf = 390" unfolding buf_def by (simp add: metatag_of_default(4))
  show "getter_cb buf 0 = Inr (2 :: 32 word)" "getter_cb buf 6 = Inr (2 :: 16 word)" "getter_cb buf 8 = Inr (0 :: 32 word)"
    "getter_cb buf 20 = Inr (17 :: 16 word)"
    using getter_field [of 0 buf, where ?'a = 32] getter_field [of 6 buf, where ?'a = 16] getter_field [of 8 buf, where ?'a = 32]
      getter_field [of 20 buf, where ?'a = 16] f by (simp_all add: len dim_of_def)
qed

definition insert_pairs :: "(string \<times> string) list" where
  "insert_pairs = [(''protocol'', ''ab_eip''), (''gateway'', ''10.206.1.40''), (''path'', ''1,4''),
    (''cpu'', ''lgx''), (''elem_size'', ''4''), (''elem_count'', ''1''), (''name'', ''TestInsert''), (''debug'', ''4'')]"

lemma insert_pairs: "tag_str = attrib_string insert_pairs" "\<forall>kv \<in> set insert_pairs. plain_pair kv"
  "last_name insert_pairs = Some ''TestInsert''"
  by (simp_all add: tag_str_def insert_pairs_def plain_pair_def last_name_def)

lemma metatag_lookup_passes:
  assumes s: "rests 29 s default_store junk es" and q: "quiet cl" and d: "debug_ok d"
  shows "\<exists>s' d'. metatag_lookup_main cl (s, d) = Inr (0, s', d') \<and> events s' = es
    \<and> api_store s' (default_store(12 \<mapsto> new_tag ''TestInsert'' (Simple TAG_LINT) None))"
proof -
  define mt where "mt = metatag default_store junk"
  define T where "T = default_store(1 \<mapsto> mt)"
  have st: "api_store s default_store" "dirt s = junk" using s by (simp_all add: rests_def)
  have n: "names_total T < 2 ^ 64" by (simp add: T_def mt_def refreshed_total)
  have one: "sint METATAG_ID = 1" by (simp add: METATAG_ID_def)
  have mt: "T (sint METATAG_ID) = Some mt" "t_mtx mt = None" "t_cb mt = NULL"
    unfolding one by (simp_all add: T_def mt_def metatag_of_default)
  have el: "element_at (t_type mt) p = (if 390 \<le> sint p then None else Some p)" for p
    by (simp add: mt_def metatag_of_default element_at_def)
  have l: "looked_up default_store junk (sint METATAG_ID) = T" by (simp add: T_def looked_up_def one default_none mt_def)
  have e: "event_spec PLCTAG_EVENT_READ_STARTED PLCTAG_EVENT_READ_COMPLETED METATAG_ID 1000 T = Inr (PLCTAG_STATUS_OK, T, [])"
    using mt by (simp add: event_spec_def with_tag_def told_none)
  have "lookup_ready 25 s default_store" using rests_lookup [of 25 s] s by simp
  from read_refines [OF st(1) this q, of METATAG_ID 1000] st(2) l e
  have "refines 25 (plc_tag_read cl METATAG_ID 1000 s) s (Inr (PLCTAG_STATUS_OK, T, []))" by simp
  from rests_step [OF s this n] obtain s1 where s1: "plc_tag_read cl METATAG_ID 1000 s = Inr (PLCTAG_STATUS_OK, s1)"
    "rests (4 + 21) s1 T junk es" by auto
  note gets = plc_tag_get_int32_def plc_tag_get_int16_def
  note fields = metatag_fields [of junk, folded mt_def]
  obtain s2 where s2: "plc_tag_get_int32 cl METATAG_ID 0 s1 = Inr (2, s2)" "rests (4 + 17) s2 T junk es"
    using get_rests [OF s1(2) q mt _ fields(1), of 0] el by (auto simp: gets)
  obtain s3 where s3: "plc_tag_get_int16 cl METATAG_ID 6 s2 = Inr (2, s3)" "rests (4 + 13) s3 T junk es"
    using get_rests [OF s2(2) q mt _ fields(2), of 6] el by (auto simp: gets)
  obtain s4 where s4: "plc_tag_get_int32 cl METATAG_ID 8 s3 = Inr (0, s4)" "rests (4 + 9) s4 T junk es"
    using get_rests [OF s3(2) q mt _ fields(3), of 8] el by (auto simp: gets)
  obtain s5 where s5: "plc_tag_get_int16 cl METATAG_ID 20 s4 = Inr (17, s5)" "rests (4 + 5) s5 T junk es"
    using get_rests [OF s4(2) q mt _ fields(4), of 20] el by (auto simp: gets)
  obtain s6 where s6: "plc_tag_get_int16 cl METATAG_ID 1000 s5 = Inr (int_to_int PLCTAG_ERR_BAD_PARAM, s6)" "rests (5 + 0) s6 T junk es"
    using get_rejected_rests [OF s5(2) q mt, of 1000] el by (auto simp: gets)
  have fresh: "fresh_id T = 12" and drop: "T(1 := None) = default_store" and free: "\<not> locked T 1"
    using default_none mt(2) by (auto simp: T_def fresh_id_def default_store_dom locked_def)
  obtain s7 where s7: "plc_tag_create (CStr tag_str) 1000 s6 = Inr (12, s7)"
    "rests 0 s7 (default_store(12 \<mapsto> new_tag ''TestInsert'' (Simple TAG_LINT) None)) junk es"
    using create_rests [OF s6(2) insert_pairs(2,3) _ free, of 1000] default_names_add [of "''TestInsert''"]
    unfolding fresh drop insert_pairs(1) by auto
  have "\<not> (12 :: c_int) <s 0" by (simp add: word_sless_alt)
  moreover have "uint TAG_NAME_LENGTH = 17" by (simp add: TAG_NAME_LENGTH_def)
  moreover have "sint (int_to_int PLCTAG_ERR_BAD_PARAM :: 16 word) = sint PLCTAG_ERR_BAD_PARAM"
    by (simp add: int_to_int_def status_defs)
  moreover have "plc_tag_set_debug_level PLCTAG_DEBUG_SPEW d = Inr (d\<lparr>debug_level := PLCTAG_DEBUG_SPEW\<rparr>)"
    by (rule level_set [OF d]) (simp_all add: PLCTAG_DEBUG_SPEW_def)
  ultimately have "metatag_lookup_main cl (s, d) = Inr (0, s7, d\<lparr>debug_level := PLCTAG_DEBUG_SPEW\<rparr>)"
    using s1(1) s2(1) s3(1) s4(1) s5(1) s6(1) s7(1) by (simp add: metatag_lookup_main_def)
  then show ?thesis using s7(2) by (auto simp: rests_def)
qed

text \<open>C25: the programs of the tests that call the library from one thread return zero, whatever a client does in
  callbacks that leave the library alone, from every state in which the library has its first ten tags and the log is between
  calls. The callback registered by the second is told of the start and the end of both its writes, and the tag has the value of the
  last; the third and the fourth leave one more tag, and the metatag that the fourth has read, record by record, is gone. The
  first writes the two messages it says appear and not the other.\<close>

theorem tests_pass:
  assumes st: "api_store s default_store" and ready: "ready_for 29 s" and q: "quiet cl" and d: "debug_ok d" and f: "callback \<noteq> NULL"
  shows "log_level_main file d = Inr (0, d\<lparr>debug_level := PLCTAG_DEBUG_DETAIL, stderr_text := stderr_text d
       @ ''plcstub [DETAIL]: '' @ file @ '':11 main: Testing detail level (should appear)...'' @ newline
       @ ''plcstub [INFO]: '' @ file @ '':12 main: Testing info level (should appear)...'' @ newline\<rparr>)
    \<and> (\<exists>s' d' t. set_tag_cb_main cl callback (s, d) = Inr (0, s', d') \<and> api_store s' (default_store(3 \<mapsto> t))
      \<and> t_cb t = callback \<and> getter_cb (t_data t) 0 = Inr (1 :: 32 word)
      \<and> events s' = events s @ concat (replicate 2 [(callback, TAGID, PLCTAG_EVENT_WRITE_STARTED, PLCTAG_STATUS_OK),
          (callback, TAGID, PLCTAG_EVENT_WRITE_COMPLETED, PLCTAG_STATUS_OK)]))
    \<and> (\<exists>s' d'. tag_create_main (s, d) = Inr (0, s', d') \<and> events s' = events s
      \<and> api_store s' (default_store(12 \<mapsto> new_tag ''TestBigArray[656]'' (Simple TAG_LINT) None)))
    \<and> (\<exists>s' d'. metatag_lookup_main cl (s, d) = Inr (0, s', d') \<and> events s' = events s
      \<and> api_store s' (default_store(12 \<mapsto> new_tag ''TestInsert'' (Simple TAG_LINT) None)))"
proof -
  have r: "rests n s default_store (dirt s) (events s)" if "n \<le> 29" for n
    using st alloc_ready_le [OF ready [unfolded ready_for_def], of "init_cost s + n"] that
    by (simp add: rests_def ready_for_def default_names)
  show ?thesis
    using log_level_passes [OF d, of "file"] set_tag_cb_passes [OF r q d f] tag_create_passes [OF r d] metatag_lookup_passes [OF r q d]
    by simp
qed

theorem tests_pass_witness:
  "\<exists>s' d'. metatag_lookup_main silent (demo_lib 60, debug_start False) = Inr (0, s', d')
     \<and> api_store s' (default_store(12 \<mapsto> new_tag ''TestInsert'' (Simple TAG_LINT) None))"
proof -
  have "ready_for 29 (demo_lib 60)" using demo_lib_ready [of 60 59] by (simp add: ready_for_def)
  moreover have "debug_ok (debug_start False)" by (simp add: debug_ok_def debug_start_def level_defs)
  ultimately show ?thesis
    using tests_pass [OF demo_lib_store [of 60] _ silent_quiet, of "debug_start False" 64 "''t.c''"] by auto
qed

section \<open>The test of the types\<close>

lemma new_simple_array:
  assumes "pool m = a # as" and "fresh_answer m a" and "1 \<le> stack m" and "enum_value e \<le> 6"
  shows "type_new_array n (SIMPLE_TYPE e) m
    = Inr (a, m\<lparr>pool := as, objs := (objs m)(a \<mapsto> Tag_array (SIMPLE_TYPE e) n)\<rparr>)"
proof -
  obtain k where k: "stack m = Suc k" using assms(3) by (cases "stack m") auto
  have a: "a \<noteq> NULL" using assms(2) by (simp add: fresh_answer_def)
  have "e \<noteq> TAG_ARRAY" "e \<noteq> TAG_STRUCT" using assms(4) by auto
  then have "type_dup (SIMPLE_TYPE e) m' = Inr (SIMPLE_TYPE e, m')" if "stack m' = Suc k" for m'
    using assms(4) that by (simp add: type_dup_def)
  then show ?thesis using assms a k
    by (simp add: type_new_array_def new_array_with_def malloc_object_def write_member_type_def as_array_def load_object_def)
qed

lemma free_simple_array:
  assumes "objs m a = Some (Tag_array (SIMPLE_TYPE e) n)" and "6 < a" and "2 \<le> stack m" and "enum_value e \<le> 6"
  shows "type_free a m = Inr (m\<lparr>objs := (objs m)(a := None)\<rparr>)"
proof -
  obtain k where k: "stack m = Suc (Suc k)" using assms(3) by (metis add_2_eq_Suc le_Suc_ex)
  have "denotes (objs m) a (Arr n (Simple e))" using assms by simp
  from type_to_enum_denotes [OF this] as_array_denotes [OF this] have "type_to_enum m a = Inr TAG_ARRAY" "as_array m a = Inr (SIMPLE_TYPE e, n)"
    using assms(1) by auto
  moreover have "a \<noteq> NULL" using assms(2) by auto
  ultimately show ?thesis using type_free_simple [OF assms(4), of k m] assms(1) k by (simp add: type_free_def free_object_def)
qed

text \<open>A struct of three simple fields.\<close>

lemma dup_simple: "enum_value e \<le> 6 \<Longrightarrow> 1 \<le> stack m \<Longrightarrow> type_dup (SIMPLE_TYPE e) m = Inr (SIMPLE_TYPE e, m)"
  by (cases "stack m"; cases e) (simp_all add: type_dup_def)

lemma new_int_struct:
  assumes p: "pool m = a # x # y # z # as" "fresh_answer m a" "NULL \<notin> {x, y, z}" and st: "1 \<le> stack m"
  shows "type_new_struct 3 [(CStr ''field_1'', SIMPLE_TYPE TAG_INT), (CStr ''field_2'', SIMPLE_TYPE TAG_INT),
      (CStr ''field_3'', SIMPLE_TYPE TAG_INT)] m = Inr (a, m\<lparr>pool := as, objs := (objs m)(a \<mapsto> Tag_struct 3 48
        [(CStr ''field_1'', SIMPLE_TYPE TAG_INT), (CStr ''field_2'', SIMPLE_TYPE TAG_INT), (CStr ''field_3'', SIMPLE_TYPE TAG_INT)])\<rparr>)"
proof -
  have a: "a \<noteq> NULL" using p(2) by (simp add: fresh_answer_def)
  have "[0..<3] = [0, 1, 2 :: nat]" "replicate 3 v = [v, v, v]" for v :: "cstr \<times> addr"
    by (simp_all add: upt_rec numeral_3_eq_3)
  then show ?thesis using p st a
    by (simp add: type_new_struct_def malloc_object_def blank_struct_def strdup_def malloc_value_def write_field_name_def
        write_field_type_def as_struct_def load_object_def dup_simple)
qed

lemma free_int_struct:
  assumes s: "objs m s = Some (Tag_struct 3 48 [(CStr ''field_1'', SIMPLE_TYPE TAG_INT), (CStr ''field_2'', SIMPLE_TYPE TAG_INT),
      (CStr ''field_3'', SIMPLE_TYPE TAG_INT)])" "6 < s" and st: "2 \<le> stack m"
  shows "type_free s m = Inr (m\<lparr>objs := (objs m)(s \<mapsto> Tag_struct 3 48 (replicate 3 (CFreed, SIMPLE_TYPE TAG_INT)))\<rparr>)"
proof -
  obtain k where k: "stack m = Suc (Suc k)" using st by (metis add_2_eq_Suc le_Suc_ex)
  have "denotes (objs m) s (Str [(''field_1'', Simple TAG_INT), (''field_2'', Simple TAG_INT), (''field_3'', Simple TAG_INT)])"
    using s by simp
  from type_to_enum_denotes [OF this] have e: "type_to_enum m s = Inr TAG_STRUCT" by simp
  have "s \<noteq> NULL" using s(2) by auto
  moreover have "[0..<3] = [0, 1, 2 :: nat]" "replicate 3 v = [v, v, v]" for v :: "cstr \<times> addr"
    by (simp_all add: upt_rec numeral_3_eq_3)
  ultimately show ?thesis using s(1) e k
    by (simp add: type_free_def as_struct_def load_object_def read_field_def write_field_name_def free_string_def)
qed

lemma word_above_6: "6 < a \<Longrightarrow> a \<noteq> NULL \<and> \<not> a \<le> 6" for a :: addr
  by auto

lemma null_type:
  assumes "2 \<le> stack m"
  shows "type_size_bytes m NULL = Inr 0" "type_to_enum m NULL = Inr TAG_ERROR"
  using assms type_size_denotes [of m "SIMPLE_TYPE TAG_ERROR" "Simple TAG_ERROR"] type_to_enum_simple [of TAG_ERROR m]
  by (simp_all add: SIMPLE_TYPE_def)

text \<open>The two tests of 06-types.c that read the types \<open>types_init\<close> made.\<close>

lemma types_size_test:
  assumes ty: "denotes (objs m) a (Arr 16 (Simple TAG_BOOL))" "denotes (objs m) b (Arr 7 (Simple TAG_DINT))"
    "denotes (objs m) s (Str [(''field_1'', Simple TAG_INT), (''field_2'', Simple TAG_INT), (''field_3'', Simple TAG_INT)])"
    and k: "2 \<le> stack m" and other: "type_to_enum m nonsense = Inr TAG_ERROR"
  shows "test_tag_size nonsense a b s m = Inr ()"
proof -
  have "type_size_bytes m (SIMPLE_TYPE e) = Inr (of_nat (ty_size (Simple e)))" if "enum_value e \<le> 6" for e
    using type_size_denotes [of m "SIMPLE_TYPE e" "Simple e"] that k by simp
  moreover have "stack m = Suc (stack m - 1)" using k by simp
  then have "type_size_bytes m nonsense = Inr 0" unfolding type_size_bytes_def by (rule ssubst) (simp add: other)
  moreover have "type_size_bytes m a = Inr 16" "type_size_bytes m b = Inr 28" "type_size_bytes m s = Inr 6"
    using type_size_denotes [OF ty(1)] type_size_denotes [OF ty(2)] type_size_denotes [OF ty(3)] k by simp_all
  ultimately show ?thesis using null_type [OF k] by (simp add: test_tag_size_def)
qed

lemma types_type_test:
  assumes ty: "denotes (objs m) a (Arr 16 (Simple TAG_BOOL))" "denotes (objs m) b (Arr 7 (Simple TAG_DINT))"
    "denotes (objs m) s (Str [(''field_1'', Simple TAG_INT), (''field_2'', Simple TAG_INT), (''field_3'', Simple TAG_INT)])"
    and k: "2 \<le> stack m" and other: "type_to_enum m nonsense = Inr TAG_ERROR"
  shows "test_tag_type nonsense a b s m = Inr ()"
  unfolding test_tag_type_def type_literals_def
  using type_to_enum_denotes [OF ty(1)] type_to_enum_denotes [OF ty(2)] type_to_enum_denotes [OF ty(3)] other null_type [OF k] by simp

text \<open>C40: \<^verbatim>\<open>06-types.c\<close> returns zero when its six allocations succeed, with the word of the string literal it takes for a
  type far from a struct or an array: all it asserts of the kinds and sizes of types holds. At the end
  the memory is as it was, but for the struct, which \<open>type_free\<close> leaves behind with its names freed. The duplications that the
  program means to test as well, and never does, would succeed.\<close>

theorem types_test_passes:
  assumes ready: "malloc_ready 6 m" and stack: "2 \<le> stack m"
    and literal: "6 < nonsense" "objs m nonsense = Some (Other_object 0x6C6C6548)"
  shows "(\<exists>s m' slots. types_main nonsense m = Inr (0, m') \<and> objs m s = None
      \<and> objs m' = (objs m)(s \<mapsto> Tag_struct 3 48 slots) \<and> map fst slots = replicate 3 CFreed)
    \<and> test_tag_dup type_literals m = Inr m"
proof -
  obtain a b s x y z as where p: "pool m = a # b # s # x # y # z # as"
    using ready by (auto simp: malloc_ready_def eval_nat_numeral Suc_le_length_iff)
  have fresh: "fresh_answer m a" "fresh_answer m b" "fresh_answer m s" and nn: "NULL \<notin> {x, y, z}"
    and ne: "a \<noteq> b" "a \<noteq> s" "b \<noteq> s"
    using ready by (auto simp: malloc_ready_def p eval_nat_numeral fresh_answer_def)
  note above = fresh_above [OF fresh(1)] fresh_above [OF fresh(2)] fresh_above [OF fresh(3)]
  have none: "objs m a = None" "objs m b = None" "objs m s = None" using fresh by (simp_all add: fresh_answer_def)
  then have ne': "nonsense \<noteq> a" "nonsense \<noteq> b" "nonsense \<noteq> s" using literal by auto
  let ?fs = "[(CStr ''field_1'', SIMPLE_TYPE TAG_INT), (CStr ''field_2'', SIMPLE_TYPE TAG_INT), (CStr ''field_3'', SIMPLE_TYPE TAG_INT)]"
  define m3 where "m3 = m\<lparr>pool := as, objs := (objs m)(a \<mapsto> Tag_array (SIMPLE_TYPE TAG_BOOL) 16,
     b \<mapsto> Tag_array (SIMPLE_TYPE TAG_DINT) 7, s \<mapsto> Tag_struct 3 48 ?fs)\<rparr>"
  have init: "types_init m = Inr ((a, b, s), m3)"
    using new_simple_array [of m a "b # s # x # y # z # as" TAG_BOOL 16] p fresh stack ne nn
    by (simp add: types_init_def new_simple_array new_int_struct fresh_answer_def m3_def fun_upd_twist)
  have ty: "denotes (objs m3) a (Arr 16 (Simple TAG_BOOL))" "denotes (objs m3) b (Arr 7 (Simple TAG_DINT))"
    "denotes (objs m3) s (Str [(''field_1'', Simple TAG_INT), (''field_2'', Simple TAG_INT), (''field_3'', Simple TAG_INT)])"
    using ne above by (simp_all add: m3_def)
  have other: "type_to_enum m3 nonsense = Inr TAG_ERROR"
    using literal(2) ne' word_above_6 [OF literal(1)] by (simp add: type_to_enum_def SIMPLE_TYPE_LINT load_object_def m3_def)
  have k: "2 \<le> stack m3" using stack by (simp add: m3_def)
  note type = types_type_test [OF ty k other] and size = types_size_test [OF ty k other]
  let ?slots = "replicate 3 (CFreed, SIMPLE_TYPE TAG_INT)"
  define m6 where "m6 = m3\<lparr>objs := (objs m)(s \<mapsto> Tag_struct 3 48 ?slots)\<rparr>"
  have "(objs m3)(a := None, b := None, s \<mapsto> Tag_struct 3 48 ?slots) = (objs m)(s \<mapsto> Tag_struct 3 48 ?slots)"
    using none ne by (auto simp: m3_def fun_eq_iff)
  moreover define m4 where "m4 = m3\<lparr>objs := (objs m3)(a := None)\<rparr>"
  moreover define m5 where "m5 = m4\<lparr>objs := (objs m4)(b := None)\<rparr>"
  moreover have "type_free a m3 = Inr m4"
    unfolding m4_def by (rule free_simple_array [of _ _ TAG_BOOL 16]) (use ne above k in \<open>simp_all add: m3_def\<close>)
  moreover have "type_free b m4 = Inr m5"
    unfolding m5_def by (rule free_simple_array [of _ _ TAG_DINT 7]) (use ne above k in \<open>simp_all add: m4_def m3_def\<close>)
  moreover have "objs m5 s = Some (Tag_struct 3 48 ?fs)" "2 \<le> stack m5" using ne k by (simp_all add: m5_def m4_def m3_def)
  note free_int_struct [OF this(1) above(3) this(2)]
  ultimately have "types_tidy a b s m3 = Inr m6" by (simp add: types_tidy_def m6_def)
  with init type size have "types_main nonsense m = Inr (0, m6)" by (simp add: types_main_def)
  moreover have "test_tag_dup type_literals m = Inr m" using stack by (simp add: type_literals_def dup_simple)
  ultimately show ?thesis using none(3)
    by (intro conjI exI [of _ s] exI [of _ m6] exI [of _ ?slots]) (simp_all add: m6_def)
qed

definition demo_types_mem :: mem where
  "demo_types_mem = \<lparr>objs = [1024 \<mapsto> Other_object 0x6C6C6548], pool = [32, 48, 64, 80, 96, 112], stack = 4\<rparr>"

theorem types_test_passes_witness:
  "\<exists>m'. types_main 1024 demo_types_mem = Inr (0, m') \<and> (\<exists>s. objs demo_types_mem s = None \<and> objs m' s \<noteq> None)"
proof -
  have "malloc_ready 6 demo_types_mem"
    by (simp add: malloc_ready_def demo_types_mem_def fresh_answer_def aligned_def)
  from types_test_passes [OF this, of 1024] show ?thesis by (fastforce simp: demo_types_mem_def)
qed

end
