(* ===== verification/Spec2Isabelle.thy ===== *)
theory Spec2Isabelle
  imports Status Debug Rb_Props Splay_Props Metatag Session Api_Props Lock_Props Create_Props Client_Props Test_Programs
begin

text \<open>
  \<^bold>\<open>plcstub\<close> is a stand-in for the library \<^verbatim>\<open>libplctag\<close>: it offers the same C interface, but its tags live
  in the memory of the process instead of a controller. This development models the C program, for an
  LP64 little-endian machine, and proves what it does.

  \<^bold>\<open>The program.\<close> \<^verbatim>\<open>src/plcstub.c\<close> is the interface. Almost every function of it looks its tag up in
  \<^verbatim>\<open>src/tagtree.c\<close>, locks the node it gets, calls the callback registered for the tag and works on the
  buffer of the tag. \<^verbatim>\<open>tagtree.c\<close> keeps the nodes in one balanced tree ordered by identifier, generated by the
  macros of \<^verbatim>\<open>include/sys/tree.h\<close>, under a reader-writer lock; it fills the tree at the first call
  from \<^verbatim>\<open>tags.inc\<close>, and it builds the metatag \<open>@tags\<close>, whose buffer describes all tags in the records of
  \<^verbatim>\<open>include/plcstub.h\<close>, on demand. The types of tags are words and linked structures of \<^verbatim>\<open>src/types.c\<close>.
  \<^verbatim>\<open>src/debug.c\<close> writes the log.

  \<^bold>\<open>What models what.\<close>
  \<^item> \<open>Prelude\<close>: pointers are 64-bit words; what can go wrong (\<open>stop\<close>: the process exits, a thread waits for a
    lock, undefined behaviour of a named kind) is the left side of a sum, and \<open>bindE\<close> sequences calls. The locale \<open>winding_down\<close> is for step relations with an invariant and a
    cost that every step lowers; the threads of \<open>Clients\<close> and those of \<open>Debug\<close> are its instances.
  \<^item> \<open>Rb_Heap\<close>: the tree macros on a heap, a map from addresses to nodes with the two colour bits of a
    node packed into its parent word as in the source. A loop is a \<open>partial_function\<close> into \<open>option\<close>:
    \<open>None\<close> is a null or dangling pointer followed, or a loop that does not end.
  \<^item> \<open>Rb_Tree\<close>, \<open>Rb_Refine\<close>, \<open>Rb_Remove\<close>, \<open>Rb_Walk\<close>: the same algorithms on inductive trees with a
    path to the node at hand; the balance invariant (\<open>ranked\<close>: the rank-balanced trees of the source, where a
    red edge spans a rank difference of two); and the simulation of every heap operation by its counterpart.
  \<^item> \<open>Rb_Index\<close>: the interface a client of the tree sees, the locale \<open>ordered_index\<close> (nodes in
    the order of their keys, with lookup, insertion, removal and iteration), and the locale \<open>rb_order\<close>
    (a comparison that agrees with an order on keys), which the macros turn into an \<open>ordered_index\<close>.
    \<open>Tag_Store\<close> interprets it for \<open>tagcmp\<close>. \<open>Rb_Loops\<close>: the loops whose body may take nodes out of the tree, with the contract
    of such a body. \<open>Rb_Props\<close> states the results.
  \<^item> \<open>Splay_Heap\<close>: the other half of \<^verbatim>\<open>tree.h\<close>, the splay tree macros, which the library does not instantiate, in the same
    style; the local structure \<open>__node\<close> and the two pointers into the tree or to it are the record \<open>splay_vars\<close>. \<open>Splay_Tree\<close>: the
    loops as moves of nodes between two chains and the tree in the middle, which keep the order of all the nodes; the loop of
    \<open>SPLAY_MINMAX\<close> is the one of \<open>SPLAY\<close> with a comparison of constant sign. \<open>Splay_Props\<close>: what the operations do to
    the sequence of the nodes.
  \<^item> \<open>Types\<close>: \<^verbatim>\<open>types.c\<close> on a memory of type objects. Each recursive call takes one unit of the \<open>stack\<close>,
    and \<open>malloc\<close> gives the next answer of the list \<open>pool\<close>, which may be \<open>NULL\<close>. \<open>Type_Spec\<close>: the value a
    type word stands for, the blocks a struct and its fields are made of, and the functions on it.
  \<^item> \<open>Tag_Tree\<close>: \<^verbatim>\<open>tagtree.c\<close> and the locks of \<^verbatim>\<open>include/lock_utils.h\<close>, with the whole state of the
    library in the record \<open>lib\<close>. \<open>Tag_Store\<close>: the abstract store (\<open>store\<close>: identifiers to tags) that such a
    state stands for (\<open>store_is\<close>) and the effect of creating and destroying nodes on it. \<open>Tag_Ops\<close>,
    \<open>Tag_Props\<close>, \<open>Metatag\<close>: initialisation, insertion, lookup, removal, the metatag and its records.
  \<^item> \<open>Accessors\<close>, \<open>Plcstub\<close>, \<open>Attrib\<close>: the typed getters and setters, the interface functions, and
    \<open>plc_tag_create\<close> with its attribute strings. \<open>Api_Spec\<close>: what each function does to the abstract store and
    which callbacks it makes. \<open>Session\<close>: the refinement for whole sequences of calls.
    \<open>Api_Props\<close>, \<open>Lock_Props\<close>, \<open>Create_Props\<close>: what a client can rely on, and where the code fails it.
  \<^item> \<open>Locked\<close>: what the functions do while they hold the mutex of a tag (their \<open>work\<close>), and what it can change. \<open>Threads\<close>: calls of several threads, cut into atomic steps where they take or give back a lock (\<open>advance\<close>, on the
    places \<open>pc\<close> of a thread), interleaved by the relation \<open>thread_step\<close>; the invariant of all interleavings.
    \<open>Thread_Props\<close>: that the steps of one thread are the functions, and what other threads can do to them.
    \<open>Clients\<close>: threads with programs, and the discipline under which they do not wait for each other for ever;
    \<open>Client_Props\<close>: what such programs can rely on, and
    \<^verbatim>\<open>test/05-tag-locking.c\<close> as one of them.
  \<^item> \<open>Test_Programs\<close>: the other programs of \<^verbatim>\<open>test/\<close>, as functions on the state of the library and of the log, and that they pass.
  \<^item> \<open>Status\<close>, \<open>Debug\<close>: the codes and their names; the log. A message is written as in the source: take the mutex, print the heading, the
    text and the end of the line, give the mutex back (\<open>pdebug_impl\<close>); and the same five parts as steps of any number of
    threads (\<open>log_advance\<close>, \<open>log_step\<close>).

  \<^bold>\<open>What is shown.\<close> The operations of the balanced tree end, follow no bad pointer, keep the tree balanced and the order of
  its keys, and a search takes at most \<open>2 * log2 (n + 1)\<close> steps. Those of the splay tree end as well and act on the same sequence of nodes,
  but for \<open>SPLAY_MINMAX\<close> without a direction, which never returns; no bound on the height of a splay tree is stated. The types of tags are copied, measured and
  freed as values, the copies in memory of their own, those inside of a new struct included; except where structs are concerned, whose copying overflows and whose freeing leaks. The
  store of tags behaves as a finite map, with its exact behaviour where identifiers run out, locks are held
  or memory fails; and every sequence of calls of the interface is simulated by the abstract store,
  callbacks, waiting and undefined behaviour included. From it follow the round trip of setters and getters, the offsets that are
  refused, safe or out of bounds, what locks exclude, and what becomes of attribute strings. For threads: lock, tree and
  memory stay consistent in every interleaving, and the only undefined behaviour is locking or unlocking a node that has been freed,
  the former of which does happen, unlocking one the thread has not locked, an access outside of the buffer under the mutex, or an identifier past the largest (with
  callbacks that leave the library alone, and if the copy of a mutex that \<open>tag_tree_node_destroy\<close> unlocks and destroys, which POSIX leaves undefined, is as good as
  the original); a held mutex keeps the value of its tag from every
  other thread; destroying a locked tag stops the library for ever, all calls but the empty destruction of the metatag; but programs that name only tags that are there
  and not the metatag, create and destroy none, give a tag back before they lock another, make a call that works on one or end, and access no value outside of its buffer
  never meet undefined behaviour or a deadlock, and end. The lines of the log are whole, whatever threads write them: none is torn apart by another, and threads that write to it never wait for each other for ever. The tests of the library pass, from every fresh state with memory enough. After any calls of one thread the buffers of all tags are as long as their types say.

  \<^bold>\<open>Bounds.\<close> \<open>alloc_ready n\<close> says that the next \<open>n\<close> allocations succeed; each operation names the
  number it needs (thirty for the initialisation). \<open>names_total\<close> below \<open>2 ^ 64\<close> keeps the size of the metatag from
  wrapping. For threads, a step that creates a node is taken only with \<open>memory_left\<close>, which says both. A call of a thread takes at
  most fourteen steps, one of a program that creates and destroys nothing at most twelve (\<open>steps_left\<close>). No fuel is used: the loops of the tree are proved to end.

  \<^bold>\<open>Not modelled.\<close> The functions that
  \<^verbatim>\<open>libplctag.h\<close> declares and nothing defines; \<^verbatim>\<open>test/00-hello.c\<close>, which only prints, the standard output, and build files. Calls of \<open>pdebug\<close> inside the operations of
  the other files are left out (\<open>Debug\<close> models the log by itself, and shows that whoever holds its mutex can go on until it gives it back); failures of \<open>pthread_mutex_init\<close>, the
  alignment of typed accesses, and the format directives of log messages. In the model of threads what a call does
  under the mutex of a tag, and what a creation does under the write lock of the tree, is one step, and memory accesses are in the
  order of the program. The code of a callback is the
  client's, a parameter; the refinement assumes that it leaves the library alone.
\<close>

end
